(* ===== verification/Ferry_Prelude.thy ===== *)
theory Ferry_Prelude
  imports Main "HOL-Library.Word"
begin

text \<open>
  Prelude of the development of the document ferry server: the types every component
  uses (bytes, machine integers, the undefined behaviours the model records), the byte
  layout of 32-bit integers on the little-endian hosts the server is built for, the
  blocks of memory that \<open>memcpy\<close> writes, and the list lemmas the component proofs share.
\<close>

unbundle bit_operations_syntax

named_theorems wire_simps "byte layout of integers and headers"
named_theorems mem_simps "memory blocks and the lists that represent them"
named_theorems frame_simps "fields an operation leaves unchanged"

type_synonym byte = "8 word"
type_synonym u16 = "16 word"
type_synonym u32 = "32 word"
type_synonym size_t = "64 word"

text \<open>
  What the C++ standard leaves undefined and the code can reach. The state of the model
  keeps the list of the undefined behaviours a run went through; a run is well defined
  when the list is empty.
\<close>

datatype fault =
    NullDeref             \<comment> \<open>a member access or a memory access through a null pointer\<close>
  | OutOfBounds           \<comment> \<open>a \<open>memcpy\<close>, \<open>strncpy\<close> or index outside its object\<close>
  | UseAfterFree nat      \<comment> \<open>an access to an object after its \<open>delete\<close> or \<open>free\<close>\<close>
  | FdSetOverflow int     \<comment> \<open>\<open>FD_SET\<close> or \<open>FD_ISSET\<close> on a descriptor outside the set\<close>
  | FormatArgument        \<comment> \<open>a directive of \<open>printf\<close> without its argument\<close>
  | SignedOverflow        \<comment> \<open>an \<open>int\<close> computation outside the range of \<open>int\<close>\<close>
  | DivideByZero          \<comment> \<open>an integer division by zero\<close>
  | InvalidParameter      \<comment> \<open>a call of a checked function of the C runtime that its handler stops\<close>
  | WrongDelete nat       \<comment> \<open>a \<open>delete\<close> through a base class without virtual destructor\<close>

lemma filter_length_mono: "(\<And>x. P x \<Longrightarrow> Q x) \<Longrightarrow> length (filter P xs) \<le> length (filter Q xs)"
  by (induction xs) (auto intro: le_SucI)

subsection \<open>Conversions between the C integer types\<close>

text \<open>\<open>size_t\<close> or \<open>uint32_t\<close> to \<open>int\<close>: the low 32 bits, read as two's complement.\<close>

definition int_of_size :: "size_t \<Rightarrow> int" where
  "int_of_size w = sint (ucast w :: u32)"

definition int_of_u32 :: "u32 \<Rightarrow> int" where
  "int_of_u32 w = sint w"

text \<open>\<open>int\<close> to \<open>size_t\<close> or \<open>uint32_t\<close>: reduced modulo the width.\<close>

definition size_of_int :: "int \<Rightarrow> size_t" where
  "size_of_int i = word_of_int i"

definition u32_of_int :: "int \<Rightarrow> u32" where
  "u32_of_int i = word_of_int i"

subsection \<open>Byte order\<close>

definition le32 :: "u32 \<Rightarrow> byte list" where
  "le32 w = [ucast w, ucast (drop_bit 8 w), ucast (drop_bit 16 w), ucast (drop_bit 24 w)]"

fun un_le32 :: "byte list \<Rightarrow> u32" where
  "un_le32 (a # b # c # d # _) =
     (ucast a OR push_bit 8 (ucast b) OR push_bit 16 (ucast c) OR push_bit 24 (ucast d))"
| "un_le32 _ = 0"

text \<open>\<open>htonl\<close> and \<open>ntohl\<close> reverse the bytes on a little-endian host.\<close>

definition htonl :: "u32 \<Rightarrow> u32" where
  "htonl w = un_le32 (rev (le32 w))"

definition ntohl :: "u32 \<Rightarrow> u32" where
  "ntohl w = un_le32 (rev (le32 w))"

definition htons :: "u16 \<Rightarrow> u16" where
  "htons w = (push_bit 8 w) OR (drop_bit 8 w)"

definition ntohs :: "u16 \<Rightarrow> u16" where
  "ntohs w = (push_bit 8 w) OR (drop_bit 8 w)"

subsection \<open>Blocks of memory\<close>

text \<open>The bytes of a string.\<close>

definition bytes_of :: "string \<Rightarrow> byte list" where
  "bytes_of str = map of_char str"

text \<open>
  \<open>overwrite off src dst\<close>: the block \<open>dst\<close> after \<open>memcpy(dst + off, src, |src|)\<close>, for a
  copy that stays inside the block.
\<close>

definition overwrite :: "nat \<Rightarrow> 'a list \<Rightarrow> 'a list \<Rightarrow> 'a list" where
  "overwrite off src dst = take off dst @ src @ drop (off + length src) dst"

definition in_block :: "nat \<Rightarrow> nat \<Rightarrow> 'a list \<Rightarrow> bool" where
  "in_block off n blk = (off + n \<le> length blk)"

subsection \<open>Lemmas on conversions\<close>

lemma unat_bound: "unat (w :: 'a::len word) < 2 ^ LENGTH('a)"
  by (rule unsigned_less)

lemma int_of_size_small:
  assumes "unat w < 2 ^ 31"
  shows "int_of_size w = int (unat w)"
proof -
  have w: "uint w = int (unat w)" by simp
  have "int (unat w) < int (2 ^ 31)" using assms by (simp only: of_nat_less_iff)
  with w have "uint w < 2 ^ 31" by simp
  moreover have "- (2 ^ 31) \<le> uint w" by (rule order_trans [of _ 0]) simp_all
  ultimately have "signed_take_bit 31 (uint w) = uint w" "take_bit 32 (uint w) = uint w"
    by (simp_all add: signed_take_bit_int_eq_self take_bit_int_eq_self)
  then show ?thesis
    by (simp add: int_of_size_def sint_uint unsigned_ucast_eq)
qed

lemma int_of_u32_u32_of_int:
  assumes "- (2 ^ 31) \<le> i" "i < 2 ^ 31"
  shows "int_of_u32 (u32_of_int i) = i"
  using assms
  by (simp add: int_of_u32_def u32_of_int_def signed_of_int signed_take_bit_int_eq_self)

lemma size_of_int_u32_small:
  assumes "n < 2 ^ 31"
  shows "unat (size_of_int (int_of_u32 (of_nat n))) = n"
proof -
  have "int_of_u32 (of_nat n) = int n"
    using int_of_u32_u32_of_int [of "int n"] assms by (simp add: u32_of_int_def)
  moreover have "unat (of_nat n :: size_t) = n"
    using assms by (simp add: unat_of_nat take_bit_nat_eq_self)
  ultimately show ?thesis by (simp add: size_of_int_def)
qed

lemma unat_u32_of_int:
  assumes "0 \<le> i" "i < 2 ^ 32"
  shows "unat (u32_of_int i) = nat i"
proof -
  have "uint (word_of_int i :: u32) = i"
    using assms by (simp add: uint_word_of_int_eq take_bit_int_eq_self)
  then show ?thesis by (metis nat_uint_eq u32_of_int_def)
qed

lemma unat_ucast_size [simp]: "unat (ucast (w :: u32) :: size_t) = unat w"
proof -
  have "unat w < 2 ^ 32" using unat_bound [of w] by simp
  then show ?thesis by (simp add: unsigned_ucast_eq take_bit_nat_eq_self)
qed

lemma unat_size_sub:
  assumes "(b :: size_t) \<le> a"
  shows "unat (a - b) = unat a - unat b"
  using assms by (simp add: unat_sub_if_size word_le_nat_alt)

lemma unat_size_add:
  assumes "unat a + unat b < 2 ^ 64"
  shows "unat ((a :: size_t) + b) = unat a + unat b"
  using assms by (simp add: unat_word_ariths)

subsection \<open>Lemmas on byte order\<close>

lemma length_le32 [simp]: "length (le32 w) = 4"
  by (simp add: le32_def)

lemma un_le32_le32 [simp, wire_simps]: "un_le32 (le32 w @ r) = w"
proof (rule bit_word_eqI)
  fix n assume "n < LENGTH(32)"
  then consider "n < 8" | "8 \<le> n" "n < 16" | "16 \<le> n" "n < 24" | "24 \<le> n" "n < 32"
    by fastforce
  then show "bit (un_le32 (le32 w @ r)) n = bit w n"
    by cases (auto simp: le32_def bit_simps)
qed

lemma un_le32_le32_exact [simp, wire_simps]: "un_le32 (le32 w) = w"
  using un_le32_le32 [of w "[]"] by simp

lemma le32_un_le32:
  assumes "length bs = 4"
  shows "le32 (un_le32 bs) = bs"
proof -
  obtain a b c d where bs: "bs = [a, b, c, d]"
    using assms by (auto simp: numeral_eq_Suc length_Suc_conv)
  have "ucast (un_le32 bs) = a" "ucast (drop_bit 8 (un_le32 bs)) = b"
    "ucast (drop_bit 16 (un_le32 bs)) = c" "ucast (drop_bit 24 (un_le32 bs)) = d"
    by (rule bit_word_eqI, use bs in \<open>auto simp: bit_simps dest: bit_imp_le_length\<close>)+
  then show ?thesis by (simp add: bs le32_def)
qed

lemma un_le32_take:
  assumes "4 \<le> k"
  shows "un_le32 (take k bs) = un_le32 bs"
proof -
  obtain j where "k = 4 + j" using assms le_Suc_ex by blast
  then have "k = Suc (Suc (Suc (Suc j)))" by simp
  then show ?thesis by (cases bs rule: un_le32.cases) simp_all
qed

lemma le32_htonl [wire_simps]: "le32 (htonl w) = rev (le32 w)"
  by (simp add: htonl_def le32_un_le32)

lemma ntohl_htonl [simp, wire_simps]: "ntohl (htonl w) = w"
  by (simp add: ntohl_def le32_htonl)

lemma htonl_ntohl [simp, wire_simps]: "htonl (ntohl w) = w"
  by (simp add: ntohl_def htonl_def le32_un_le32)

lemma htons_htons [simp]: "ntohs (htons w) = w"
  by (rule bit_word_eqI) (auto simp: ntohs_def htons_def bit_simps dest: bit_imp_le_length)

subsection \<open>Lemmas on memory blocks\<close>

lemma length_overwrite [mem_simps]:
  "off + length src \<le> length dst \<Longrightarrow> length (overwrite off src dst) = length dst"
  by (simp add: overwrite_def)

lemma take_overwrite [mem_simps]:
  "off \<le> length dst \<Longrightarrow> take (off + length src) (overwrite off src dst) = take off dst @ src"
  by (simp add: overwrite_def)

lemma take_overwrite_before [mem_simps]:
  "n \<le> off \<Longrightarrow> off \<le> length dst \<Longrightarrow> take n (overwrite off src dst) = take n dst"
  by (simp add: overwrite_def min_def)

lemma overwrite_Nil [simp, mem_simps]: "overwrite off [] dst = dst"
  by (simp add: overwrite_def)

lemma overwrite_0 [mem_simps]: "overwrite 0 src dst = src @ drop (length src) dst"
  by (simp add: overwrite_def)

lemma overwrite_overwrite:
  "off + length a \<le> length dst \<Longrightarrow>
    overwrite (off + length a) b (overwrite off a dst) = overwrite off (a @ b) dst"
  by (simp add: overwrite_def ac_simps)

lemma drop_take_append:
  "r \<le> w \<Longrightarrow> w \<le> length b \<Longrightarrow> drop r (take w b @ d) = drop r (take w b) @ d"
  by simp

lemma take_min_length [simp]: "take (min (length xs) n) xs = take n xs"
  by (simp add: min_def)

end
