(* ===== verification/Os_Env.thy ===== *)
theory Os_Env
  imports Ferry_Prelude
begin

text \<open>
  The operating system the server runs on, as a parameter of the model. The kernel, the
  network and the allocator are not code of the repository, so every definition that makes
  a call into them takes a record \<open>os\<close> of functions: each gives the result of one call
  from the history of all calls made so far and the arguments of the call, so that a
  theorem that holds for every \<open>os\<close> holds for every behaviour of the environment. The
  state every component extends, \<open>sys\<close>, keeps that history, \<open>errno\<close> and the undefined
  behaviours the run went through. The constants are those of Linux, the platform whose
  branches (\<open>CP_LINUX\<close>) are modelled.
\<close>

type_synonym cp_socket_t = int

record sockaddr_in =
  sin_family :: int
  sin_port :: u16
  s_addr :: u32

datatype errno =
    E_OK | EINTR | EAGAIN | EINVAL | ENOTCONN | EISCONN | EALREADY | EINPROGRESS
  | ECONNABORTED | EFAULT | E_OTHER nat

abbreviation EWOULDBLOCK :: errno where
  "EWOULDBLOCK \<equiv> EAGAIN"

definition INVALID_SOCKET :: cp_socket_t where "INVALID_SOCKET = -1"
definition SOCKET_ERROR :: int where "SOCKET_ERROR = -1"
definition INADDR_ANY :: u32 where "INADDR_ANY = 0"
definition INADDR_NONE :: u32 where "INADDR_NONE = 0xFFFFFFFF"
definition AF_INET :: int where "AF_INET = 2"
definition SOCK_STREAM :: int where "SOCK_STREAM = 1"
definition SOCK_DGRAM :: int where "SOCK_DGRAM = 2"
definition IPPROTO_TCP :: int where "IPPROTO_TCP = 6"
definition IPPROTO_UDP :: int where "IPPROTO_UDP = 17"
definition O_NONBLOCK :: u32 where "O_NONBLOCK = 0x800"
definition FD_SETSIZE :: int where "FD_SETSIZE = 1024"

text \<open>The calls into the environment, with their arguments and results.\<close>

datatype event =
    Ev_socket int int int int
  | Ev_bind cp_socket_t sockaddr_in int
  | Ev_listen cp_socket_t int int
  | Ev_connect cp_socket_t sockaddr_in int
  | Ev_accept cp_socket_t int
  | Ev_send cp_socket_t "byte list" int int
  | Ev_recv cp_socket_t nat int "byte list option"
  | Ev_close cp_socket_t
  | Ev_getfl cp_socket_t u32
  | Ev_setfl cp_socket_t u32 int
  | Ev_getpeername cp_socket_t int
  | Ev_getsockopt cp_socket_t int
  | Ev_select int "int list" "int list" "int list" int int
  | Ev_sleep int
  | Ev_gettimeofday
  | Ev_fopen string bool
  | Ev_fwrite string nat nat
  | Ev_malloc nat bool
  | Ev_calloc nat bool
  | Ev_log string

type_synonym history = "event list"

text \<open>
  A failing call is \<open>Inl e\<close>, with the value it leaves in \<open>errno\<close>. \<open>os_recv\<close> gives the bytes
  received; \<open>os_fwrite\<close> the number of bytes the stream accepts; \<open>os_malloc\<close> the (arbitrary)
  contents of the new block; \<open>os_junk\<close> the contents of an uninitialised byte of the stack;
  \<open>os_wild\<close> what the fields of an object hold after a write outside another object hit them, by the
  number of the object and of the field, for each history and each list of faults so far.
  \<open>inet_pton\<close> and \<open>inet_ntop\<close> are pure; \<open>inet_pton\<close> gives its result and the address it
  stores when that is 1. \<open>os_select\<close> gives the three sets of ready descriptors.
\<close>

record os =
  os_socket :: "history \<Rightarrow> int \<Rightarrow> int \<Rightarrow> int \<Rightarrow> errno + cp_socket_t"
  os_bind :: "history \<Rightarrow> cp_socket_t \<Rightarrow> sockaddr_in \<Rightarrow> errno + unit"
  os_listen :: "history \<Rightarrow> cp_socket_t \<Rightarrow> int \<Rightarrow> errno + unit"
  os_connect :: "history \<Rightarrow> cp_socket_t \<Rightarrow> sockaddr_in \<Rightarrow> errno + unit"
  os_accept :: "history \<Rightarrow> cp_socket_t \<Rightarrow> errno + (cp_socket_t \<times> sockaddr_in)"
  os_send :: "history \<Rightarrow> cp_socket_t \<Rightarrow> byte list \<Rightarrow> int \<Rightarrow> errno + nat"
  os_recv :: "history \<Rightarrow> cp_socket_t \<Rightarrow> nat \<Rightarrow> int \<Rightarrow> errno + byte list"
  os_getfl :: "history \<Rightarrow> cp_socket_t \<Rightarrow> errno + u32"
  os_setfl :: "history \<Rightarrow> cp_socket_t \<Rightarrow> u32 \<Rightarrow> errno + unit"
  os_getpeername :: "history \<Rightarrow> cp_socket_t \<Rightarrow> errno + sockaddr_in"
  os_getsockopt :: "history \<Rightarrow> cp_socket_t \<Rightarrow> int"
  os_select :: "history \<Rightarrow> int \<Rightarrow> int list \<Rightarrow> int list \<Rightarrow> int list \<Rightarrow> int \<Rightarrow>
                  errno + (int list \<times> int list \<times> int list)"
  os_gettimeofday :: "history \<Rightarrow> nat \<times> nat"
  os_fopen :: "history \<Rightarrow> string \<Rightarrow> bool"
  os_fwrite :: "history \<Rightarrow> string \<Rightarrow> nat \<Rightarrow> nat"
  os_malloc :: "history \<Rightarrow> nat \<Rightarrow> (nat \<Rightarrow> byte) option"
  os_calloc :: "history \<Rightarrow> nat \<Rightarrow> bool"
  os_junk :: "history \<Rightarrow> byte"
  os_wild :: "history \<Rightarrow> fault list \<Rightarrow> nat \<Rightarrow> nat \<Rightarrow> nat"
  os_inet_pton :: "string \<Rightarrow> int \<times> u32"
  os_inet_ntop :: "int \<Rightarrow> u32 \<Rightarrow> nat \<Rightarrow> string option"

record sys =
  trace :: history
  errno :: errno
  ub :: "fault list"

definition emit :: "event \<Rightarrow> 'a sys_scheme \<Rightarrow> 'a sys_scheme" where
  "emit ev s = s\<lparr>trace := trace s @ [ev]\<rparr>"

definition fault :: "fault \<Rightarrow> 'a sys_scheme \<Rightarrow> 'a sys_scheme" where
  "fault f s = s\<lparr>ub := ub s @ [f]\<rparr>"

definition set_errno :: "errno \<Rightarrow> 'a sys_scheme \<Rightarrow> 'a sys_scheme" where
  "set_errno e s = s\<lparr>errno := e\<rparr>"

definition defined_run :: "'a sys_scheme \<Rightarrow> bool" where
  "defined_run s = (ub s = [])"

text \<open>The bytes a history sent on a socket: the accepted prefix of every \<open>send\<close>.\<close>

fun sent_by :: "cp_socket_t \<Rightarrow> event \<Rightarrow> byte list" where
  "sent_by k (Ev_send x bs flags r) = (if x = k then take (nat r) bs else [])"
| "sent_by k _ = []"

definition sent_on :: "cp_socket_t \<Rightarrow> history \<Rightarrow> byte list" where
  "sent_on k h = concat (map (sent_by k) h)"

text \<open>
  Hypotheses on the environment: the disk opens the files and takes what is written, and
  the allocator finds memory.
\<close>

definition disk_ok :: "os \<Rightarrow> bool" where
  "disk_ok os = ((\<forall>h p. os_fopen os h p) \<and> (\<forall>h p n. n \<le> os_fwrite os h p n))"

definition alloc_ok :: "os \<Rightarrow> bool" where
  "alloc_ok os = ((\<forall>h n. os_calloc os h n) \<and> (\<forall>h n. os_malloc os h n \<noteq> None))"

text \<open>
  An environment in which every call succeeds: the kernel takes and stores everything it is
  given, the peer sends nothing more, and the clock counts the calls. It shows that the
  hypotheses the theorems put on the environment can hold.
\<close>

definition good_os :: os where
  "good_os =
     \<lparr>os_socket = (\<lambda>h a b c. Inr 3), os_bind = (\<lambda>h k a. Inr ()), os_listen = (\<lambda>h k n. Inr ()),
      os_connect = (\<lambda>h k a. Inr ()),
      os_accept = (\<lambda>h k. Inr (4, \<lparr>sin_family = 2, sin_port = 0, s_addr = 0\<rparr>)),
      os_send = (\<lambda>h k bs f. Inr (length bs)), os_recv = (\<lambda>h k n f. Inr []),
      os_getfl = (\<lambda>h k. Inr 2), os_setfl = (\<lambda>h k w. Inr ()),
      os_getpeername = (\<lambda>h k. Inr \<lparr>sin_family = 2, sin_port = 0, s_addr = 0\<rparr>),
      os_getsockopt = (\<lambda>h k. 0),
      os_select = (\<lambda>h n r w e t. Inr ([], [], [])),
      os_gettimeofday = (\<lambda>h. (length h, 0)), os_fopen = (\<lambda>h p. True),
      os_fwrite = (\<lambda>h p n. n), os_malloc = (\<lambda>h n. Some (\<lambda>i. 0)), os_calloc = (\<lambda>h n. True),
      os_junk = (\<lambda>h. 0), os_wild = (\<lambda>h u j i. 0), os_inet_pton = (\<lambda>a. (1, 0)), os_inet_ntop = (\<lambda>f a n. Some ''0.0.0.0'')\<rparr>"

declare emit_def [simp] fault_def [simp] set_errno_def [simp]

lemma good_os_ok: "disk_ok good_os" "alloc_ok good_os"
  by (simp_all add: disk_ok_def alloc_ok_def good_os_def)

lemma sent_on_Nil [simp]: "sent_on k [] = []"
  by (simp add: sent_on_def)

lemma sent_on_append [simp]: "sent_on k (h @ h') = sent_on k h @ sent_on k h'"
  by (simp add: sent_on_def)

lemma sent_on_Cons [simp]: "sent_on k (ev # h) = sent_by k ev @ sent_on k h"
  by (simp add: sent_on_def)

end
