(* ===== verification/Cp_Socket.thy ===== *)
theory Cp_Socket
  imports Os_Env
begin

text \<open>
  \<^bold>\<open>inc/cp_socket.h\<close>, \<^bold>\<open>src/cp_socket.cpp\<close>: the cross-platform wrappers of the socket calls, in
  their Linux branches. The system calls come first: each asks the environment for its
  result, records the call in the history and sets \<open>errno\<close> when it fails. They build in
  what the calls guarantee: \<open>send\<close> never accepts more than it is offered, \<open>recv\<close> never
  returns more than it is asked for, \<open>select\<close> leaves subsets of the sets it was given and
  returns their total size.

  The lemmas show the error codes of every wrapper, that \<open>cp_send_all\<close> ends and delivers
  either everything or an in-order prefix with an error, and that \<open>cp_setblocking\<close> cannot
  make a non-blocking socket blocking again.
\<close>

subsection \<open>System calls\<close>

definition sys_socket :: "os \<Rightarrow> int \<Rightarrow> int \<Rightarrow> int \<Rightarrow> 'a sys_scheme \<Rightarrow> cp_socket_t \<times> 'a sys_scheme" where
  "sys_socket os af type protocol s =
     (case os_socket os (trace s) af type protocol of
        Inl e \<Rightarrow> (-1, set_errno e (emit (Ev_socket af type protocol (-1)) s))
      | Inr k \<Rightarrow> (k, emit (Ev_socket af type protocol k) s))"

definition sys_bind :: "os \<Rightarrow> cp_socket_t \<Rightarrow> sockaddr_in \<Rightarrow> 'a sys_scheme \<Rightarrow> int \<times> 'a sys_scheme" where
  "sys_bind os k a s =
     (case os_bind os (trace s) k a of
        Inl e \<Rightarrow> (-1, set_errno e (emit (Ev_bind k a (-1)) s))
      | Inr _ \<Rightarrow> (0, emit (Ev_bind k a 0) s))"

definition sys_listen :: "os \<Rightarrow> cp_socket_t \<Rightarrow> int \<Rightarrow> 'a sys_scheme \<Rightarrow> int \<times> 'a sys_scheme" where
  "sys_listen os k n s =
     (case os_listen os (trace s) k n of
        Inl e \<Rightarrow> (-1, set_errno e (emit (Ev_listen k n (-1)) s))
      | Inr _ \<Rightarrow> (0, emit (Ev_listen k n 0) s))"

definition sys_connect :: "os \<Rightarrow> cp_socket_t \<Rightarrow> sockaddr_in \<Rightarrow> 'a sys_scheme \<Rightarrow> int \<times> 'a sys_scheme" where
  "sys_connect os k a s =
     (case os_connect os (trace s) k a of
        Inl e \<Rightarrow> (-1, set_errno e (emit (Ev_connect k a (-1)) s))
      | Inr _ \<Rightarrow> (0, emit (Ev_connect k a 0) s))"

text \<open>\<open>accept\<close> and \<open>getpeername\<close> fill the address they are given only when they succeed.\<close>

definition sys_accept ::
  "os \<Rightarrow> cp_socket_t \<Rightarrow> sockaddr_in \<Rightarrow> 'a sys_scheme \<Rightarrow> cp_socket_t \<times> sockaddr_in \<times> 'a sys_scheme"
where
  "sys_accept os k a s =
     (case os_accept os (trace s) k of
        Inl e \<Rightarrow> (-1, a, set_errno e (emit (Ev_accept k (-1)) s))
      | Inr (c, peer) \<Rightarrow> (c, peer, emit (Ev_accept k c) s))"

definition sys_getpeername ::
  "os \<Rightarrow> cp_socket_t \<Rightarrow> sockaddr_in \<Rightarrow> 'a sys_scheme \<Rightarrow> int \<times> sockaddr_in \<times> 'a sys_scheme"
where
  "sys_getpeername os k a s =
     (case os_getpeername os (trace s) k of
        Inl e \<Rightarrow> (-1, a, set_errno e (emit (Ev_getpeername k (-1)) s))
      | Inr peer \<Rightarrow> (0, peer, emit (Ev_getpeername k 0) s))"

definition sys_send ::
  "os \<Rightarrow> cp_socket_t \<Rightarrow> byte list \<Rightarrow> int \<Rightarrow> 'a sys_scheme \<Rightarrow> int \<times> 'a sys_scheme"
where
  "sys_send os k bs flags s =
     (case os_send os (trace s) k bs flags of
        Inl e \<Rightarrow> (-1, set_errno e (emit (Ev_send k bs flags (-1)) s))
      | Inr n \<Rightarrow>
          (let r = int (min n (length bs)) in (r, emit (Ev_send k bs flags r) s)))"

definition sys_recv ::
  "os \<Rightarrow> cp_socket_t \<Rightarrow> nat \<Rightarrow> int \<Rightarrow> 'a sys_scheme \<Rightarrow> int \<times> byte list \<times> 'a sys_scheme"
where
  "sys_recv os k n flags s =
     (case os_recv os (trace s) k n flags of
        Inl e \<Rightarrow> (-1, [], set_errno e (emit (Ev_recv k n flags None) s))
      | Inr d \<Rightarrow>
          (let d = take n d in (int (length d), d, emit (Ev_recv k n flags (Some d)) s)))"

text \<open>\<open>timeout\<close> in microseconds; on failure the sets are left as they were.\<close>

definition sys_select ::
  "os \<Rightarrow> int \<Rightarrow> int list \<Rightarrow> int list \<Rightarrow> int list \<Rightarrow> int \<Rightarrow> 'a sys_scheme \<Rightarrow>
    int \<times> (int list \<times> int list \<times> int list) \<times> 'a sys_scheme"
where
  "sys_select os n r w e timeout s =
     (case os_select os (trace s) n r w e timeout of
        Inl err \<Rightarrow> (-1, (r, w, e), set_errno err (emit (Ev_select n r w e timeout (-1)) s))
      | Inr (r', w', e') \<Rightarrow>
          (let r' = filter (\<lambda>k. k \<in> set r') r;
               w' = filter (\<lambda>k. k \<in> set w') w;
               e' = filter (\<lambda>k. k \<in> set e') e;
               ret = int (length r' + length w' + length e')
           in (ret, (r', w', e'), emit (Ev_select n r w e timeout ret) s)))"

text \<open>\<open>fcntl\<close> with \<open>F_GETFL\<close> gives -1, all bits set, when it fails.\<close>

definition sys_getfl :: "os \<Rightarrow> cp_socket_t \<Rightarrow> 'a sys_scheme \<Rightarrow> u32 \<times> 'a sys_scheme" where
  "sys_getfl os k s =
     (case os_getfl os (trace s) k of
        Inl e \<Rightarrow> (-1, set_errno e (emit (Ev_getfl k (-1)) s))
      | Inr mode \<Rightarrow> (mode, emit (Ev_getfl k mode) s))"

definition sys_setfl :: "os \<Rightarrow> cp_socket_t \<Rightarrow> u32 \<Rightarrow> 'a sys_scheme \<Rightarrow> int \<times> 'a sys_scheme" where
  "sys_setfl os k mode s =
     (case os_setfl os (trace s) k mode of
        Inl e \<Rightarrow> (-1, set_errno e (emit (Ev_setfl k mode (-1)) s))
      | Inr _ \<Rightarrow> (0, emit (Ev_setfl k mode 0) s))"

text \<open>\<open>usleep\<close> of a time in milliseconds: the product is computed in \<open>int\<close>.\<close>

definition sleep_ms :: "int \<Rightarrow> 'a sys_scheme \<Rightarrow> 'a sys_scheme" where
  "sleep_ms ms s =
     (let s = emit (Ev_sleep (ms * 1000)) s
      in if - (2 ^ 31) \<le> ms * 1000 \<and> ms * 1000 < 2 ^ 31 then s else fault SignedOverflow s)"

text \<open>\<open>FD_SET\<close>: a descriptor outside the set is undefined behaviour.\<close>

definition FD_SET :: "cp_socket_t \<Rightarrow> int list \<Rightarrow> 'a sys_scheme \<Rightarrow> int list \<times> 'a sys_scheme" where
  "FD_SET k fds s =
     (if 0 \<le> k \<and> k < FD_SETSIZE then (if k \<in> set fds then fds else fds @ [k], s)
      else (fds, fault (FdSetOverflow k) s))"

definition FD_ISSET :: "cp_socket_t \<Rightarrow> int list \<Rightarrow> bool" where
  "FD_ISSET k fds = (k \<in> set fds)"

subsection \<open>The wrappers\<close>

definition cp_socket_valid :: "cp_socket_t \<Rightarrow> bool" where
  "cp_socket_valid sock = (sock \<noteq> 0 \<and> sock \<noteq> INVALID_SOCKET)"

definition cp_socket :: "os \<Rightarrow> int \<Rightarrow> int \<Rightarrow> int \<Rightarrow> 'a sys_scheme \<Rightarrow> cp_socket_t \<times> 'a sys_scheme" where
  "cp_socket os af type protocol s = sys_socket os AF_INET type protocol s"

definition cp_socket_udp :: "os \<Rightarrow> int \<Rightarrow> int \<Rightarrow> int \<Rightarrow> 'a sys_scheme \<Rightarrow> cp_socket_t \<times> 'a sys_scheme" where
  "cp_socket_udp os af type protocol s = cp_socket os af type protocol s"

definition cp_socket_tcp :: "os \<Rightarrow> int \<Rightarrow> int \<Rightarrow> int \<Rightarrow> 'a sys_scheme \<Rightarrow> cp_socket_t \<times> 'a sys_scheme" where
  "cp_socket_tcp os af type protocol s = cp_socket os af type protocol s"

text \<open>
  The pointers \<open>src\<close> and \<open>dst\<close> may be null; the result is the string returned and the
  contents of the buffer \<open>dst\<close> afterwards.
\<close>

definition cp_inet_ntop ::
  "os \<Rightarrow> sockaddr_in option \<Rightarrow> string option \<Rightarrow> nat \<Rightarrow> string option \<times> string option"
where
  "cp_inet_ntop os src dst len =
     (case (dst, src) of
        (Some old, Some a) \<Rightarrow>
          (case os_inet_ntop os (sin_family a) (s_addr a) len of
             None \<Rightarrow> (None, dst)
           | Some str \<Rightarrow> (Some str, Some str))
      | _ \<Rightarrow> (None, dst))"

definition cp_inet_pton :: "os \<Rightarrow> int \<Rightarrow> string option \<Rightarrow> sockaddr_in \<Rightarrow> int \<times> sockaddr_in" where
  "cp_inet_pton os af p_host p_addr =
     (case p_host of
        None \<Rightarrow> (1, p_addr\<lparr>s_addr := INADDR_ANY\<rparr>)
      | Some h \<Rightarrow>
          if h = ''0.0.0.0'' then (1, p_addr\<lparr>s_addr := INADDR_ANY\<rparr>)
          else
            (let (ret, a) = os_inet_pton os h
             in (ret, if ret = 1 then p_addr\<lparr>s_addr := a\<rparr> else p_addr)))"

text \<open>A \<open>sockaddr_in\<close> on the stack: the address is uninitialised.\<close>

definition stack_sockaddr :: "os \<Rightarrow> int \<Rightarrow> u16 \<Rightarrow> 'a sys_scheme \<Rightarrow> sockaddr_in" where
  "stack_sockaddr os af port s =
     \<lparr>sin_family = af, sin_port = port, s_addr = un_le32 (replicate 4 (os_junk os (trace s)))\<rparr>"

definition cp_bind ::
  "os \<Rightarrow> cp_socket_t \<Rightarrow> int \<Rightarrow> string option \<Rightarrow> u16 \<Rightarrow> 'a sys_scheme \<Rightarrow> int \<times> 'a sys_scheme"
where
  "cp_bind os sock af p_srv_host srv_port s =
     (let sin = stack_sockaddr os af (htons srv_port) s;
          (ret, sin) = cp_inet_pton os af p_srv_host sin
      in if ret = 0 \<or> ret = -1 then (-2, s) else sys_bind os sock sin s)"

definition cp_listen :: "os \<Rightarrow> cp_socket_t \<Rightarrow> int \<Rightarrow> 'a sys_scheme \<Rightarrow> int \<times> 'a sys_scheme" where
  "cp_listen os sock maxconn s = sys_listen os sock maxconn s"

definition cp_connect ::
  "os \<Rightarrow> cp_socket_t \<Rightarrow> int \<Rightarrow> string option \<Rightarrow> u16 \<Rightarrow> 'a sys_scheme \<Rightarrow> int \<times> 'a sys_scheme"
where
  "cp_connect os sock af p_srv_host srv_port s =
     (let sin = stack_sockaddr os af (htons srv_port) s in
      if p_srv_host = None \<or> srv_port = 0 then (-2, s)
      else
        (let (ret, sin) = cp_inet_pton os af p_srv_host sin
         in if ret = 0 \<or> ret = -1 then (-3, s) else sys_connect os sock sin s))"

definition cp_accept ::
  "os \<Rightarrow> cp_socket_t \<Rightarrow> sockaddr_in \<Rightarrow> 'a sys_scheme \<Rightarrow> cp_socket_t \<times> sockaddr_in \<times> 'a sys_scheme"
where
  "cp_accept os sock p_addr s = sys_accept os sock p_addr s"

text \<open>
  A buffer is the memory from the pointer to the end of its object; reading past it is
  recorded.
\<close>

definition read_block :: "nat \<Rightarrow> nat \<Rightarrow> byte list \<Rightarrow> 'a sys_scheme \<Rightarrow> byte list \<times> 'a sys_scheme" where
  "read_block off n blk s =
     (take n (drop off blk), if in_block off n blk then s else fault OutOfBounds s)"

definition cp_send ::
  "os \<Rightarrow> cp_socket_t \<Rightarrow> byte list option \<Rightarrow> int \<Rightarrow> int \<Rightarrow> 'a sys_scheme \<Rightarrow> int \<times> 'a sys_scheme"
where
  "cp_send os sock buf len flags s =
     (case buf of
        None \<Rightarrow> (0, s)
      | Some b \<Rightarrow>
          if len < 1 then (0, s)
          else (let (d, s) = read_block 0 (nat len) b s in sys_send os sock d flags s))"

text \<open>\<open>buf\<close> is whether the pointer is not null; the bytes received are returned.\<close>

definition cp_recv ::
  "os \<Rightarrow> cp_socket_t \<Rightarrow> bool \<Rightarrow> size_t \<Rightarrow> int \<Rightarrow> 'a sys_scheme \<Rightarrow> int \<times> byte list \<times> 'a sys_scheme"
where
  "cp_recv os sock buf len flags s =
     (if \<not> buf \<or> len < 1 then (0, [], s)
      else sys_recv os sock (unat (size_of_int (int_of_size len))) flags s)"

function cp_send_all_loop ::
  "os \<Rightarrow> cp_socket_t \<Rightarrow> byte list \<Rightarrow> int \<Rightarrow> int \<Rightarrow> int \<Rightarrow> 'a sys_scheme \<Rightarrow> int \<times> 'a sys_scheme"
where
  "cp_send_all_loop os sock b len flags n_total_send s =
     (let (d, s) = read_block (nat n_total_send) (nat (len - n_total_send)) b s;
          (n_curr_send, s) = sys_send os sock d flags s
      in if n_curr_send > 0 then
           (if n_total_send + n_curr_send < len
            then cp_send_all_loop os sock b len flags (n_total_send + n_curr_send) s
            else (len, s))
         else if n_curr_send = 0 then (0, s)
         else (-1, s))"
  by pat_completeness auto
termination
  by (relation "measure (\<lambda>(os, sock, b, len, flags, n, s). nat (len - n))") auto

declare cp_send_all_loop.simps [simp del]

definition cp_send_all ::
  "os \<Rightarrow> cp_socket_t \<Rightarrow> byte list option \<Rightarrow> int \<Rightarrow> int \<Rightarrow> 'a sys_scheme \<Rightarrow> int \<times> 'a sys_scheme"
where
  "cp_send_all os sock buf len flags s =
     (case buf of
        None \<Rightarrow> (0, s)
      | Some b \<Rightarrow> if len < 1 then (0, s) else cp_send_all_loop os sock b len flags 0 s)"

text \<open>The loop need not end: \<open>None\<close> is a run that never returns.\<close>

partial_function (option) cp_clear_recv_buffer ::
  "os \<Rightarrow> cp_socket_t \<Rightarrow> 'a sys_scheme \<Rightarrow> 'a sys_scheme option"
where
  "cp_clear_recv_buffer os sock s =
     (let (fds, s) = FD_SET sock [] s;
          (ret, (fds, _, _), s) = sys_select os (sock + 1) fds [] [] 0 s
      in if ret = 0 then Some s
         else if ret = SOCKET_ERROR then Some s
         else
           (let s = (if FD_ISSET sock fds then snd (snd (sys_recv os sock 100 0 s)) else s)
            in cp_clear_recv_buffer os sock s))"

definition cp_setblocking :: "os \<Rightarrow> cp_socket_t \<Rightarrow> bool \<Rightarrow> 'a sys_scheme \<Rightarrow> int \<times> 'a sys_scheme" where
  "cp_setblocking os sock is_block s =
     (let (mode, s) = sys_getfl os sock s;
          mode = (if is_block then mode AND O_NONBLOCK else mode OR O_NONBLOCK)
      in sys_setfl os sock mode s)"

definition cp_close_socket :: "cp_socket_t \<Rightarrow> 'a sys_scheme \<Rightarrow> 'a sys_scheme" where
  "cp_close_socket sock s = emit (Ev_close sock) s"

definition create_connection ::
  "os \<Rightarrow> string \<Rightarrow> u16 \<Rightarrow> 'a sys_scheme \<Rightarrow> cp_socket_t \<times> 'a sys_scheme"
where
  "create_connection os server_ip server_port s =
     (let (sock, s) = cp_socket_tcp os AF_INET SOCK_STREAM IPPROTO_TCP s in
      if sock = INVALID_SOCKET then (-1, s)
      else
        (let srv_addr = stack_sockaddr os AF_INET (htons server_port) s;
             (ret, a) = os_inet_pton os server_ip;
             srv_addr = (if ret = 1 then srv_addr\<lparr>s_addr := a\<rparr> else srv_addr);
             (ret, s) = sys_connect os sock srv_addr s
         in if ret = SOCKET_ERROR then (-1, cp_close_socket sock s) else (sock, s)))"

definition cp_getpeername ::
  "os \<Rightarrow> cp_socket_t \<Rightarrow> sockaddr_in \<Rightarrow> 'a sys_scheme \<Rightarrow> int \<times> sockaddr_in \<times> 'a sys_scheme"
where
  "cp_getpeername os sock sin s = sys_getpeername os sock sin s"

subsection \<open>Sending\<close>

lemma sys_send_effect:
  obtains n s' where "sys_send os k bs flags s = (n, s')" "- 1 \<le> n" "n \<le> int (length bs)"
    "sent_on k (trace s') = sent_on k (trace s) @ take (nat n) bs" "ub s' = ub s"
    "\<forall>j. j \<noteq> k \<longrightarrow> sent_on j (trace s') = sent_on j (trace s)"
  by (cases "os_send os (trace s) k bs flags")
    (auto simp: sys_send_def Let_def intro: that)

text \<open>
  The contract of a loop that sends a buffer piece by piece, on either platform: every turn hands
  the rest of the buffer to a call that takes a prefix of it or fails.
\<close>

locale chunked_sender =
  fixes loop :: "byte list \<Rightarrow> int \<Rightarrow> int \<Rightarrow> 's \<Rightarrow> int \<times> 's"
    and send :: "byte list \<Rightarrow> 's \<Rightarrow> int \<times> 's"
    and sent :: "'s \<Rightarrow> byte list"
    and faults :: "'s \<Rightarrow> fault list"
  assumes loop_step:
      "0 \<le> t \<Longrightarrow> t < len \<Longrightarrow> nat len \<le> length b \<Longrightarrow> loop b len t s =
        (let (n, s) = send (take (nat (len - t)) (drop (nat t) b)) s
         in if n > 0 then (if t + n < len then loop b len (t + n) s else (len, s))
            else if n = 0 then (0, s) else (-1, s))"
    and send_effect:
      "\<exists>n s'. send d s = (n, s') \<and> - 1 \<le> n \<and> n \<le> int (length d) \<and> sent s' = sent s @ take (nat n) d
        \<and> faults s' = faults s"
begin

lemma loop_effect:
  assumes "0 \<le> t" "t < len" "nat len \<le> length b"
  shows "\<exists>k ret s'. loop b len t s = (ret, s') \<and> faults s' = faults s
    \<and> sent s' = sent s @ take k (drop (nat t) b)
    \<and> (if ret = len then k = nat (len - t) else k < nat (len - t) \<and> (ret = 0 \<or> ret = -1))"
  using assms
proof (induction "nat (len - t)" arbitrary: t s rule: less_induct)
  case less
  let ?d = "take (nat (len - t)) (drop (nat t) b)"
  have ld: "int (length ?d) = len - t" using less.prems by auto
  obtain n s1 where send: "send ?d s = (n, s1)" "- 1 \<le> n" "n \<le> int (length ?d)"
    "sent s1 = sent s @ take (nat n) ?d" "faults s1 = faults s"
    using send_effect by blast
  note step = loop_step [OF less.prems, of s, unfolded send(1) Let_def prod.case]
  consider "n \<le> 0" | "0 < n" "t + n < len" | "0 < n" "t + n = len"
    using send(3) ld by linarith
  then show ?case
  proof cases
    case 1
    with send(2) have "n = 0 \<or> n = -1" by arith
    with send step less.prems show ?thesis by (intro exI [of _ 0] exI [of _ n] exI [of _ s1]) auto
  next
    case 2
    from less.hyps [of "t + n" s1] less.prems 2 obtain k ret s2 where ih: "loop b len (t + n) s1 = (ret, s2)"
      "faults s2 = faults s1" "sent s2 = sent s1 @ take k (drop (nat (t + n)) b)"
      "if ret = len then k = nat (len - (t + n)) else k < nat (len - (t + n)) \<and> (ret = 0 \<or> ret = -1)"
      by auto
    have "take (nat n) ?d @ take k (drop (nat (t + n)) b) = take (nat n + k) (drop (nat t) b)"
      using 2 less.prems(1) by (simp add: take_add nat_add_distrib add.commute [of "nat n" "nat t"] min_def)
    moreover have "nat (len - t) = nat n + nat (len - (t + n))" using 2 by simp
    ultimately show ?thesis
      using ih send step 2 less.prems
      by (intro exI [of _ "nat n + k"] exI [of _ ret] exI [of _ s2]) (simp split: if_splits)
  next
    case 3
    then have "nat n = nat (len - t)" by simp
    with 3 send step show ?thesis
      by (intro exI [of _ "nat n"] exI [of _ len] exI [of _ s1]) simp
  qed
qed

end

interpretation linux_sender: chunked_sender "\<lambda>b len. cp_send_all_loop os sock b len flags"
    "\<lambda>d. sys_send os sock d flags" "\<lambda>s. sent_on sock (trace s)" ub for os sock flags
proof
  show "\<exists>n s'. sys_send os sock d flags s = (n, s') \<and> - 1 \<le> n \<and> n \<le> int (length d)
      \<and> sent_on sock (trace s') = sent_on sock (trace s) @ take (nat n) d \<and> ub s' = ub s" for d and s :: "'a sys_scheme"
    by (rule sys_send_effect) blast
  fix t len :: int and b :: "byte list" and s :: "'a sys_scheme"
  assume "0 \<le> t" "t < len" "nat len \<le> length b"
  then have "read_block (nat t) (nat (len - t)) b s = (take (nat (len - t)) (drop (nat t) b), s)"
    by (auto simp: read_block_def in_block_def)
  then show "cp_send_all_loop os sock b len flags t s =
      (let (n, s) = sys_send os sock (take (nat (len - t)) (drop (nat t) b)) flags s
       in if n > 0 then (if t + n < len then cp_send_all_loop os sock b len flags (t + n) s else (len, s))
          else if n = 0 then (0, s) else (-1, s))"
    by (subst cp_send_all_loop.simps) simp
qed

text \<open>
  C14. \<open>cp_send_all\<close> ends for every behaviour of the network, reads only inside its buffer, and
  sends an in-order prefix of it: the whole buffer when it returns \<open>len\<close>, a proper prefix
  when it returns 0 or -1.
\<close>

theorem cp_send_all_delivers:
  assumes "1 \<le> len" "nat len \<le> length b"
  shows "\<exists>k ret s'. cp_send_all os sock (Some b) len flags s = (ret, s') \<and> ub s' = ub s
    \<and> sent_on sock (trace s') = sent_on sock (trace s) @ take k b
    \<and> (if ret = len then k = nat len else k < nat len \<and> (ret = 0 \<or> ret = -1))"
  using linux_sender.loop_effect [of 0 len b os sock flags s] assms
  by (simp add: cp_send_all_def split del: if_split cong: if_cong)

theorem cp_send_all_delivers_witness:
  "\<exists>k ret s'. cp_send_all good_os 5 (Some [1, 2, 3]) 3 0 \<lparr>trace = [], errno = E_OK, ub = []\<rparr> = (ret, s')
    \<and> ub s' = [] \<and> sent_on 5 (trace s') = take k [1, 2, 3]
    \<and> (if ret = 3 then k = 3 else k < 3 \<and> (ret = 0 \<or> ret = -1))"
  using cp_send_all_delivers [of 3 "[1, 2, 3]" good_os 5 0 "\<lparr>trace = [], errno = E_OK, ub = []\<rparr>"]
  by (simp split del: if_split cong: if_cong)

subsection \<open>Blocking mode\<close>

lemma sys_getfl_state: "\<exists>fl e. sys_getfl os k s = (fl, s\<lparr>trace := trace s @ [Ev_getfl k fl], errno := e\<rparr>)"
  by (cases "os_getfl os (trace s) k"; cases s) (auto simp: sys_getfl_def)

lemma sys_setfl_state: "\<exists>r e. snd (sys_setfl os k mode s) = s\<lparr>trace := trace s @ [Ev_setfl k mode r], errno := e\<rparr>"
  by (cases "os_setfl os (trace s) k mode"; cases s) (auto simp: sys_setfl_def)

lemma cp_setblocking_state:
  obtains fl r e where "snd (cp_setblocking os k b s) =
    s\<lparr>trace := trace s @ [Ev_getfl k fl, Ev_setfl k (if b then fl AND O_NONBLOCK else fl OR O_NONBLOCK) r], errno := e\<rparr>"
proof -
  obtain fl e where fl: "sys_getfl os k s = (fl, s\<lparr>trace := trace s @ [Ev_getfl k fl], errno := e\<rparr>)"
    using sys_getfl_state by blast
  let ?m = "if b then fl AND O_NONBLOCK else fl OR O_NONBLOCK"
  obtain r e' where "snd (sys_setfl os k ?m (s\<lparr>trace := trace s @ [Ev_getfl k fl], errno := e\<rparr>)) =
      s\<lparr>trace := trace s @ [Ev_getfl k fl, Ev_setfl k ?m r], errno := e'\<rparr>"
    using sys_setfl_state [of os k ?m "s\<lparr>trace := trace s @ [Ev_getfl k fl], errno := e\<rparr>"] by auto
  then show thesis by (intro that) (simp add: cp_setblocking_def fl)
qed

text \<open>
  \<open>cp_setblocking(sock, true)\<close> keeps \<open>O_NONBLOCK\<close> set when it is set and clears every
  other flag: on Linux a non-blocking socket cannot be made blocking again.
\<close>

theorem cp_setblocking_never_blocks:
  assumes "os_getfl os (trace s) sock = Inr fl" "fl AND O_NONBLOCK = O_NONBLOCK"
  shows "\<exists>r. trace (snd (cp_setblocking os sock True s)) =
    trace s @ [Ev_getfl sock fl, Ev_setfl sock O_NONBLOCK r]"
  using assms by (simp add: cp_setblocking_def sys_getfl_def sys_setfl_def split: sum.split)

theorem cp_setblocking_never_blocks_witness:
  "\<exists>r. trace (snd (cp_setblocking (good_os\<lparr>os_getfl := \<lambda>h k. Inr 0x802\<rparr>) 5 True
      \<lparr>trace = [], errno = E_OK, ub = []\<rparr>)) = [Ev_getfl 5 0x802, Ev_setfl 5 O_NONBLOCK r]"
  using cp_setblocking_never_blocks [of "good_os\<lparr>os_getfl := \<lambda>h k. Inr 0x802\<rparr>"
      "\<lparr>trace = [], errno = E_OK, ub = []\<rparr>" 5 "0x802"]
  by (simp add: O_NONBLOCK_def)

subsection \<open>Addresses\<close>

lemma cp_inet_pton_any [simp]:
  "cp_inet_pton os af None a = (1, a\<lparr>s_addr := INADDR_ANY\<rparr>)"
  "cp_inet_pton os af (Some ''0.0.0.0'') a = (1, a\<lparr>s_addr := INADDR_ANY\<rparr>)"
  by (simp_all add: cp_inet_pton_def)

text \<open>The address \<open>cp_bind\<close> and \<open>cp_connect\<close> use, when the host can be read.\<close>

definition host_addr :: "os \<Rightarrow> string option \<Rightarrow> u32 option" where
  "host_addr os h =
     (case h of
        None \<Rightarrow> Some INADDR_ANY
      | Some x \<Rightarrow>
          if x = ''0.0.0.0'' then Some INADDR_ANY
          else if fst (os_inet_pton os x) = 1 then Some (snd (os_inet_pton os x)) else None)"

text \<open>The documented results of \<open>inet_pton\<close>.\<close>

definition pton_ok :: "os \<Rightarrow> bool" where
  "pton_ok os = (\<forall>h. fst (os_inet_pton os h) \<in> {1, 0, -1})"

lemma cp_inet_pton_host:
  assumes "pton_ok os"
  shows "cp_inet_pton os af h a =
    (case host_addr os h of
       Some x \<Rightarrow> (1, a\<lparr>s_addr := x\<rparr>)
     | None \<Rightarrow> (fst (os_inet_pton os (the h)), a))"
    "host_addr os h = None \<Longrightarrow> fst (os_inet_pton os (the h)) \<in> {0, -1}"
  using assms
  by (auto simp: cp_inet_pton_def host_addr_def pton_ok_def Let_def
      split: option.splits prod.splits if_splits)

lemma cp_bind_host:
  assumes "pton_ok os"
  shows "cp_bind os sock af h port s =
    (case host_addr os h of
       None \<Rightarrow> (-2, s)
     | Some x \<Rightarrow> sys_bind os sock \<lparr>sin_family = af, sin_port = htons port, s_addr = x\<rparr> s)"
  using cp_inet_pton_host [OF assms]
  by (auto simp: cp_bind_def Let_def stack_sockaddr_def split: option.splits)

text \<open>
  \<open>cp_bind\<close> returns -2 and makes no system call exactly when the host is not an address;
  otherwise it is one \<open>bind\<close> of that address (any interface for a null host) with the port in
  network order, and returns its result.
\<close>

theorem cp_bind_result:
  assumes "pton_ok os"
  shows "cp_bind os sock af h port s =
    (case host_addr os h of
       None \<Rightarrow> (-2, s)
     | Some x \<Rightarrow> sys_bind os sock \<lparr>sin_family = af, sin_port = htons port, s_addr = x\<rparr> s)"
  by (rule cp_bind_host [OF assms])

theorem cp_bind_result_witness:
  "cp_bind good_os 5 AF_INET None 7890 \<lparr>trace = [], errno = E_OK, ub = []\<rparr> =
    (0, \<lparr>trace = [Ev_bind 5 \<lparr>sin_family = AF_INET, sin_port = htons 7890, s_addr = INADDR_ANY\<rparr> 0],
         errno = E_OK, ub = []\<rparr>)"
proof -
  have "pton_ok good_os" by (simp add: pton_ok_def good_os_def)
  show ?thesis
    unfolding cp_bind_result [OF \<open>pton_ok good_os\<close>] by (simp add: host_addr_def sys_bind_def good_os_def)
qed

lemma cp_connect_host:
  assumes "pton_ok os"
  shows "cp_connect os sock af h port s =
    (if h = None \<or> port = 0 then (-2, s)
     else case host_addr os h of
       None \<Rightarrow> (-3, s)
     | Some x \<Rightarrow> sys_connect os sock \<lparr>sin_family = af, sin_port = htons port, s_addr = x\<rparr> s)"
  using cp_inet_pton_host [OF assms]
  by (auto simp: cp_connect_def Let_def stack_sockaddr_def split: option.splits)

text \<open>
  \<open>cp_connect\<close>: a null host or port 0 gives -2, a host that is not an address gives -3, and
  neither makes a system call or touches \<open>errno\<close>; everything else is one \<open>connect\<close>.
\<close>

theorem cp_connect_result:
  assumes "pton_ok os"
  shows "cp_connect os sock af h port s =
    (if h = None \<or> port = 0 then (-2, s)
     else case host_addr os h of
       None \<Rightarrow> (-3, s)
     | Some x \<Rightarrow> sys_connect os sock \<lparr>sin_family = af, sin_port = htons port, s_addr = x\<rparr> s)"
  by (rule cp_connect_host [OF assms])

theorem cp_connect_result_witness:
  "cp_connect (good_os\<lparr>os_inet_pton := \<lambda>h. (0, 0)\<rparr>) 5 AF_INET (Some ''x'') 80
     \<lparr>trace = [], errno = E_OK, ub = []\<rparr> = (-3, \<lparr>trace = [], errno = E_OK, ub = []\<rparr>)"
proof -
  have "pton_ok (good_os\<lparr>os_inet_pton := \<lambda>h. (0, 0)\<rparr>)" by (simp add: pton_ok_def good_os_def)
  then show ?thesis
    unfolding cp_connect_result [OF \<open>pton_ok (good_os\<lparr>os_inet_pton := \<lambda>h. (0, 0)\<rparr>)\<close>] by (simp add: host_addr_def good_os_def)
qed

subsection \<open>Emptying the receive buffer\<close>

definition always_readable :: "os \<Rightarrow> cp_socket_t \<Rightarrow> bool" where
  "always_readable os k =
     (\<forall>h n t. case os_select os h n [k] [] [] t of Inl _ \<Rightarrow> False | Inr (r, _) \<Rightarrow> k \<in> set r)"

lemma select_readable:
  assumes "always_readable os k"
  shows "\<exists>s'. sys_select os n [k] [] [] t s = (1, ([k], [], []), s')"
proof -
  from assms have "case os_select os (trace s) n [k] [] [] t of Inl _ \<Rightarrow> False | Inr (r, _) \<Rightarrow> k \<in> set r"
    by (simp add: always_readable_def)
  then show ?thesis by (auto simp: sys_select_def Let_def split: sum.splits)
qed

text \<open>
  \<open>cp_clear_recv_buffer\<close> never returns on a socket that stays readable, as one does whose
  peer has closed: \<open>recv\<close> then returns 0 at once and the loop does not look at its result.
\<close>

theorem cp_clear_recv_buffer_diverges:
  assumes "always_readable os sock" "0 \<le> sock" "sock < FD_SETSIZE"
  shows "cp_clear_recv_buffer os sock s = None"
proof -
  have "False" if "cp_clear_recv_buffer os sock s = Some s'" for s'
    using assms
  proof (induction rule: cp_clear_recv_buffer.raw_induct [OF _ that])
    case (1 f os sock s s')
    obtain s1 where "sys_select os (sock + 1) [sock] [] [] 0 s = (1, ([sock], [], []), s1)"
      using select_readable [OF "1.prems"(1)] by blast
    with "1.hyps" "1.prems" have "f os sock (snd (snd (sys_recv os sock 100 0 s1))) = Some s'"
      by (simp add: FD_SET_def FD_ISSET_def SOCKET_ERROR_def)
    from "1.IH" [OF this "1.prems"] show ?case .
  qed
  then show ?thesis by (metis option.exhaust)
qed

theorem cp_clear_recv_buffer_diverges_witness:
  "cp_clear_recv_buffer (good_os\<lparr>os_select := \<lambda>h n r w e t. Inr (r, [], [])\<rparr>) 5
     \<lparr>trace = [], errno = E_OK, ub = []\<rparr> = None"
  by (rule cp_clear_recv_buffer_diverges) (simp_all add: always_readable_def FD_SETSIZE_def)

end
