(* ===== verification/Ss_Map.thy ===== *)
theory Ss_Map
  imports Ferry_Prelude
begin

text \<open>
  \<open>ss_map_t\<close> of \<^bold>\<open>inc/base_socket.h\<close>, a \<open>std::map\<close> from sockets to owning pointers: the list of its
  entries in the order an iteration visits them. The locale \<open>ordered_map\<close> is what the code
  relies on; the interpretation shows that the model of the standard container provides it.
\<close>

type_synonym ('k, 'v) ss_map = "('k \<times> 'v) list"

fun map_find :: "'k::linorder \<Rightarrow> ('k, 'v) ss_map \<Rightarrow> 'v option" where
  "map_find k [] = None"
| "map_find k ((a, v) # m) = (if k = a then Some v else if k < a then None else map_find k m)"

fun map_erase :: "'k::linorder \<Rightarrow> ('k, 'v) ss_map \<Rightarrow> ('k, 'v) ss_map" where
  "map_erase k [] = []"
| "map_erase k ((a, v) # m) =
     (if k = a then m else if k < a then (a, v) # m else (a, v) # map_erase k m)"

text \<open>\<open>insert\<close> keeps an entry that is already there.\<close>

fun map_insert :: "'k::linorder \<Rightarrow> 'v \<Rightarrow> ('k, 'v) ss_map \<Rightarrow> ('k, 'v) ss_map" where
  "map_insert k x [] = [(k, x)]"
| "map_insert k x ((a, v) # m) =
     (if k = a then (a, v) # m
      else if k < a then (k, x) # (a, v) # m
      else (a, v) # map_insert k x m)"

definition map_size :: "('k, 'v) ss_map \<Rightarrow> nat" where
  "map_size m = length m"

definition map_wf :: "('k::linorder, 'v) ss_map \<Rightarrow> bool" where
  "map_wf m = sorted_wrt (<) (map fst m)"

locale ordered_map =
  fixes find :: "'k::linorder \<Rightarrow> 'm \<Rightarrow> 'v option"
    and erase :: "'k \<Rightarrow> 'm \<Rightarrow> 'm"
    and insert :: "'k \<Rightarrow> 'v \<Rightarrow> 'm \<Rightarrow> 'm"
    and entries :: "'m \<Rightarrow> ('k \<times> 'v) list"
    and invar :: "'m \<Rightarrow> bool"
  assumes find_erase: "invar m \<Longrightarrow> find j (erase k m) = (if j = k then None else find j m)"
    and find_insert:
      "invar m \<Longrightarrow> find j (insert k v m) = (if j = k \<and> find k m = None then Some v else find j m)"
    and find_entries: "invar m \<Longrightarrow> (k, v) \<in> set (entries m) \<longleftrightarrow> find k m = Some v"
    and entries_distinct: "invar m \<Longrightarrow> distinct (map fst (entries m))"
    and invar_erase: "invar m \<Longrightarrow> invar (erase k m)"
    and invar_insert: "invar m \<Longrightarrow> invar (insert k v m)"
begin

lemma replace_entry:
  assumes "invar m"
  shows "find j (insert k v (erase k m)) = (if j = k then Some v else find j m)"
    and "invar (insert k v (erase k m))"
  using assms by (simp_all add: find_insert find_erase invar_erase invar_insert)

lemma entries_keys:
  assumes "invar m"
  shows "k \<in> set (map fst (entries m)) \<longleftrightarrow> find k m \<noteq> None"
  using find_entries [OF assms] by force

end

lemma map_wf_simps [simp]:
  "map_wf []"
  "map_wf ((a, v) # m) \<longleftrightarrow> (\<forall>x \<in> set m. a < fst x) \<and> map_wf m"
  by (simp_all add: map_wf_def)

lemma set_map_erase: "set (map_erase k m) \<subseteq> set m"
  by (induction k m rule: map_erase.induct) auto

lemma set_map_insert: "set (map_insert k v m) \<subseteq> insert (k, v) (set m)"
  by (induction k v m rule: map_insert.induct) auto

lemma map_find_set: "map_wf m \<Longrightarrow> (k, v) \<in> set m \<longleftrightarrow> map_find k m = Some v"
  by (induction k m rule: map_find.induct) (auto dest: order.asym)

lemma map_find_mem: "map_find k m = Some v \<Longrightarrow> (k, v) \<in> set m"
  by (induction k m rule: map_find.induct) (auto split: if_splits)

lemma map_find_None: "map_wf m \<Longrightarrow> \<forall>x \<in> set m. k < fst x \<Longrightarrow> map_find k m = None"
  by (cases m) auto

lemma map_wf_erase: "map_wf m \<Longrightarrow> map_wf (map_erase k m)"
  by (induction k m rule: map_erase.induct) (auto dest: subsetD [OF set_map_erase])

lemma map_wf_insert: "map_wf m \<Longrightarrow> map_wf (map_insert k v m)"
  by (induction k v m rule: map_insert.induct) (auto dest!: subsetD [OF set_map_insert])

lemma map_find_erase:
  "map_wf m \<Longrightarrow> map_find j (map_erase k m) = (if j = k then None else map_find j m)"
proof (induction k m rule: map_erase.induct)
  case (2 k a v m)
  have "map_find j m = None" if "j < a" using "2.prems" that by (intro map_find_None) auto
  with 2 map_find_None [of m a] show ?case by auto
qed simp

lemma map_find_insert:
  "map_wf m \<Longrightarrow>
    map_find j (map_insert k v m) = (if j = k \<and> map_find k m = None then Some v else map_find j m)"
  by (induction k v m rule: map_insert.induct) auto

lemma map_wf_distinct: "map_wf m \<Longrightarrow> distinct (map fst m)"
  by (auto simp: map_wf_def strict_sorted_iff)

interpretation ss_map: ordered_map map_find map_erase map_insert "\<lambda>m. m" map_wf
  by unfold_locales
    (simp_all add: map_find_erase map_find_insert map_find_set map_wf_distinct map_wf_erase map_wf_insert)

end
