(* ===== verification/Stdio.thy ===== *)
theory Stdio
  imports Os_Env
begin

text \<open>
  The part of the C standard library the cache component uses: streams opened with
  \<open>fopen(path, "wb")\<close>, \<open>fseek\<close> from the start, \<open>fwrite\<close>, \<open>fread\<close>, \<open>fclose\<close>, \<open>remove\<close>, the
  \<open>%lu\<close> conversion of \<open>snprintf\<close> and \<open>strncpy\<close>. The state keeps the contents of the files
  by path and the table of open streams; how many of the offered bytes a stream takes (a
  full disk takes none) and whether a file can be opened come from the environment. A
  stream opened with \<open>"wb"\<close> is not open for reading, so \<open>fread\<close> on it reads nothing. The
  buffering inside a stream is not modelled: a byte accepted is in the file.
\<close>

record stream =
  st_path :: string
  st_pos :: nat

record stdio = sys +
  files :: "string \<Rightarrow> byte list option"
  streams :: "nat \<Rightarrow> stream option"
  next_fp :: nat

definition write_at :: "nat \<Rightarrow> byte list \<Rightarrow> byte list \<Rightarrow> byte list" where
  "write_at pos bs old =
     (if bs = [] then old
      else take pos (old @ replicate (pos - length old) 0) @ bs @ drop (pos + length bs) old)"

definition fopen_wb :: "os \<Rightarrow> string \<Rightarrow> 'a stdio_scheme \<Rightarrow> nat option \<times> 'a stdio_scheme" where
  "fopen_wb os path s =
     (if os_fopen os (trace s) path then
        (let fp = next_fp s in
         (Some fp, (emit (Ev_fopen path True) s)
            \<lparr>files := (files s)(path \<mapsto> []),
             streams := (streams s)(fp \<mapsto> \<lparr>st_path = path, st_pos = 0\<rparr>),
             next_fp := Suc fp\<rparr>))
      else (None, emit (Ev_fopen path False) s))"

definition fseek_set :: "nat \<Rightarrow> int \<Rightarrow> 'a stdio_scheme \<Rightarrow> int \<times> 'a stdio_scheme" where
  "fseek_set fp off s =
     (case streams s fp of
        None \<Rightarrow> (-1, fault (UseAfterFree fp) s)
      | Some st \<Rightarrow>
          if off < 0 then (-1, set_errno EINVAL s)
          else (0, s\<lparr>streams := (streams s)(fp \<mapsto> st\<lparr>st_pos := nat off\<rparr>)\<rparr>))"

definition fwrite :: "os \<Rightarrow> byte list \<Rightarrow> nat \<Rightarrow> 'a stdio_scheme \<Rightarrow> nat \<times> 'a stdio_scheme" where
  "fwrite os bs fp s =
     (case streams s fp of
        None \<Rightarrow> (0, fault (UseAfterFree fp) s)
      | Some st \<Rightarrow>
          (let n = min (length bs) (os_fwrite os (trace s) (st_path st) (length bs));
               s = emit (Ev_fwrite (st_path st) (length bs) n) s
           in (n, s\<lparr>files := (files s)(st_path st :=
                        map_option (write_at (st_pos st) (take n bs)) (files s (st_path st))),
                    streams := (streams s)(fp \<mapsto> st\<lparr>st_pos := st_pos st + n\<rparr>)\<rparr>)))"

definition fread :: "nat \<Rightarrow> nat \<Rightarrow> 'a stdio_scheme \<Rightarrow> byte list \<times> 'a stdio_scheme" where
  "fread n fp s =
     (case streams s fp of
        None \<Rightarrow> ([], fault (UseAfterFree fp) s)
      | Some st \<Rightarrow> ([], s))"

definition fclose :: "nat \<Rightarrow> 'a stdio_scheme \<Rightarrow> 'a stdio_scheme" where
  "fclose fp s =
     (case streams s fp of
        None \<Rightarrow> fault (UseAfterFree fp) s
      | Some st \<Rightarrow> s\<lparr>streams := (streams s)(fp := None)\<rparr>)"

definition remove_file :: "string \<Rightarrow> 'a stdio_scheme \<Rightarrow> 'a stdio_scheme" where
  "remove_file path s = s\<lparr>files := (files s)(path := None)\<rparr>"

fun dec_digits :: "nat \<Rightarrow> string" where
  "dec_digits n =
     (if n < 10 then [char_of (48 + n)] else dec_digits (n div 10) @ [char_of (48 + n mod 10)])"

declare dec_digits.simps [simp del]

text \<open>
  \<open>strncpy(dst, src, n)\<close> with \<open>n = strlen(src)\<close> into a zeroed array of \<open>cap\<close> bytes: the array
  as a string, or the write past its end.
\<close>

definition strncpy_all :: "nat \<Rightarrow> string \<Rightarrow> string option" where
  "strncpy_all cap src = (if length src \<le> cap then Some src else None)"

lemma write_at_end [mem_simps]:
  "write_at (length old) bs old = old @ bs"
  by (simp add: write_at_def)

lemma write_at_inside [mem_simps]:
  "pos + length bs \<le> length old \<Longrightarrow> write_at pos bs old = overwrite pos bs old"
  by (simp add: write_at_def overwrite_def)

lemma length_write_at [mem_simps]:
  "bs \<noteq> [] \<Longrightarrow> length (write_at pos bs old) = max (length old) (pos + length bs)"
  by (auto simp: write_at_def)

lemma write_at_Nil [simp]: "write_at pos [] old = old"
  by (simp add: write_at_def)

lemma take_write_at:
  assumes "pos \<le> length old"
  shows "take (pos + length bs) (write_at pos bs old) = take pos old @ bs"
  using assms by (simp add: write_at_def)

text \<open>The decimal conversion is injective: reading the digits back gives the number.\<close>

lemma of_char_digit:
  assumes "k < 10"
  shows "of_char (char_of (48 + k :: nat)) = (48 + k :: nat)"
  using assms by (simp add: of_char_of)

lemma read_dec_digits:
  "foldl (\<lambda>a c. 10 * a + (of_char c - 48)) 0 (dec_digits n) = n"
proof (induction n rule: dec_digits.induct)
  case (1 n)
  show ?case
  proof (cases "n < 10")
    case True
    then show ?thesis by (simp add: dec_digits.simps [of n] of_char_digit)
  next
    case False
    with "1" show ?thesis
      by (simp add: dec_digits.simps [of n] of_char_digit)
  qed
qed

lemma dec_digits_inj [simp]: "dec_digits m = dec_digits n \<longleftrightarrow> m = n"
  by (metis read_dec_digits)

lemma dec_digits_range: "c \<in> set (dec_digits n) \<Longrightarrow> of_char c < (58 :: nat)"
proof (induction n rule: dec_digits.induct)
  case (1 n)
  have "of_char (char_of (48 + k mod 10 :: nat)) < (58 :: nat)" for k :: nat
    using of_char_digit [of "k mod 10"] mod_less_divisor [of 10 k] by linarith
  from this [of n] "1" show ?case
    by (cases "n < 10") (auto simp: dec_digits.simps [of n])
qed

lemma dec_digits_lower: "c \<in> set (dec_digits n) \<Longrightarrow> 48 \<le> (of_char c :: nat)"
proof (induction n rule: dec_digits.induct)
  case (1 n)
  have "48 \<le> (of_char (char_of (48 + k mod 10 :: nat)) :: nat)" for k :: nat
    using of_char_digit [of "k mod 10"] by simp
  from this [of n] "1" show ?case
    by (cases "n < 10") (auto simp: dec_digits.simps [of n])
qed

lemma dec_digits_length: "n < 10 ^ Suc k \<Longrightarrow> length (dec_digits n) \<le> Suc k"
proof (induction k arbitrary: n)
  case 0
  then show ?case by (simp add: dec_digits.simps [of n])
next
  case (Suc k)
  then have "n div 10 < 10 ^ Suc k" by (simp add: less_mult_imp_div_less)
  from Suc.IH [OF this] show ?case by (simp add: dec_digits.simps [of n])
qed

lemma digits_underscore_split:
  assumes "dec_digits a @ CHR ''_'' # dec_digits b = dec_digits c @ CHR ''_'' # dec_digits d"
  shows "a = c \<and> b = d"
proof -
  have no: "\<forall>x \<in> set (dec_digits k). x \<noteq> CHR ''_''" for k
    by (auto dest!: dec_digits_range)
  have "takeWhile (\<lambda>x. x \<noteq> CHR ''_'') (dec_digits k @ CHR ''_'' # r) = dec_digits k" for k r
    using no [of k] by (simp add: takeWhile_append2)
  then have "dec_digits a = dec_digits c" using assms by metis
  with assms show ?thesis by simp
qed

lemmas stdio_defs = fopen_wb_def fseek_set_def fwrite_def fread_def fclose_def remove_file_def

end
