(* ===== verification/Cache_Part.thy ===== *)
theory Cache_Part
  imports Stdio
begin

text \<open>
  \<^bold>\<open>inc/cache_part.h\<close>, \<^bold>\<open>src/cache_part.cpp\<close>: a bounded store for the value of one message,
  in memory or in a file. A \<open>cache_t *\<close> is an address of the store \<open>caches\<close>; \<open>free\<close> removes the
  entry and an access to a freed cache is recorded as undefined behaviour. The private part
  \<open>p_priv\<close> is owned by its cache and is kept inside it. Sizes are 64-bit words, so the
  subtractions \<open>capacity - widx\<close> and \<open>widx - ridx\<close> wrap as \<open>size_t\<close> does.

  The lemmas show that a memory cache is a bounded byte queue (the interface \<open>byte_fifo\<close>),
  that a file cache is an append-only sink (\<open>byte_sink\<close>) whose file holds exactly the bytes
  pushed, and that nothing can ever be popped from a file cache.
\<close>

subsection \<open>Data\<close>

datatype storage_to = TO_AUTO | TO_MEM | TO_SHM | TO_FILE

definition MEMORY_CACHE_LEN :: size_t where "MEMORY_CACHE_LEN = 1048576"
definition MAX_PATH :: nat where "MAX_PATH = 1024"
definition sizeof_cache_t :: nat where "sizeof_cache_t = 1040"
definition sizeof_private_cache :: nat where "sizeof_private_cache = 1056"

record private_cache =
  capacity :: size_t
  widx :: size_t
  ridx :: size_t
  wfp :: "nat option"
  dir :: string

record cache_t =
  path :: string
  buf :: "byte list option"
  p_priv :: private_cache

record cstate = stdio +
  caches :: "nat \<Rightarrow> cache_t option"
  next_cache :: nat

definition set_cache :: "nat \<Rightarrow> cache_t \<Rightarrow> 'a cstate_scheme \<Rightarrow> 'a cstate_scheme" where
  "set_cache p c s = s\<lparr>caches := (caches s)(p \<mapsto> c)\<rparr>"

subsection \<open>Operations\<close>

definition create_cache_buffer :: "os \<Rightarrow> nat \<Rightarrow> 'a cstate_scheme \<Rightarrow> int \<times> 'a cstate_scheme" where
  "create_cache_buffer os p s =
     (case caches s p of
        None \<Rightarrow> (-1, fault (UseAfterFree p) s)
      | Some c \<Rightarrow>
          (let n = unat (capacity (p_priv c)) in
           case os_malloc os (trace s) n of
             None \<Rightarrow> (-1, emit (Ev_malloc n False) (set_cache p (c\<lparr>buf := None\<rparr>) s))
           | Some junk \<Rightarrow>
               (0, emit (Ev_malloc n True) (set_cache p (c\<lparr>buf := Some (map junk [0..<n])\<rparr>) s))))"

definition cache_path :: "string \<Rightarrow> nat \<times> nat \<Rightarrow> string" where
  "cache_path d now =
     take (MAX_PATH - 1)
       (d @ ''/cache_'' @ dec_digits (fst now) @ ''_'' @ dec_digits (snd now))"

definition create_cache_file :: "os \<Rightarrow> nat \<Rightarrow> 'a cstate_scheme \<Rightarrow> int \<times> 'a cstate_scheme" where
  "create_cache_file os p s =
     (case caches s p of
        None \<Rightarrow> (-1, fault (UseAfterFree p) s)
      | Some c \<Rightarrow>
          (let now = os_gettimeofday os (trace s);
               s = emit Ev_gettimeofday s;
               s = (if length (dir (p_priv c)) < MAX_PATH then s else fault OutOfBounds s);
               c = c\<lparr>path := cache_path (dir (p_priv c)) now\<rparr>;
               (fp, s) = fopen_wb os (path c) s;
               c = c\<lparr>p_priv := (p_priv c)\<lparr>wfp := fp\<rparr>\<rparr>;
               s = set_cache p c s
           in case fp of
                None \<Rightarrow> (-1, s)
              | Some f \<Rightarrow>
                  (let (_, s) = fseek_set f (sint (capacity (p_priv c)) - 1) s;
                       (n, s) = fwrite os [os_junk os (trace s)] f s;
                       result = (if n \<noteq> 1 then -1 else 0);
                       (_, s) = fseek_set f 0 s
                   in (result, s))))"

definition leave_cache :: "nat option \<Rightarrow> 'a cstate_scheme \<Rightarrow> 'a cstate_scheme" where
  "leave_cache q s =
     (case q of
        None \<Rightarrow> s
      | Some p \<Rightarrow>
          (case caches s p of
             None \<Rightarrow> fault (UseAfterFree p) s
           | Some c \<Rightarrow>
               (let s = (case wfp (p_priv c) of None \<Rightarrow> s | Some f \<Rightarrow> fclose f s)
                in s\<lparr>caches := (caches s)(p := None)\<rparr>)))"

text \<open>
  The directory prefix. A directory without a trailing separator is dropped (the array
  stays empty); for the empty string the index \<open>strlen - 1\<close> wraps and reads outside it.
\<close>

definition cache_dir_prefix :: "string option \<Rightarrow> fault + string" where
  "cache_dir_prefix cache_dir =
     (case cache_dir of
        None \<Rightarrow> Inr ''.''
      | Some d \<Rightarrow>
          if d = [] then Inl OutOfBounds
          else if last d = CHR ''/'' \<or> last d = CHR 0x5C then
            (case strncpy_all MAX_PATH d of None \<Rightarrow> Inl OutOfBounds | Some x \<Rightarrow> Inr x)
          else Inr '''')"

definition create_cache ::
  "os \<Rightarrow> string option \<Rightarrow> size_t \<Rightarrow> storage_to \<Rightarrow> 'a cstate_scheme \<Rightarrow> nat option \<times> 'a cstate_scheme"
where
  "create_cache os cache_dir cap to s =
     (if \<not> os_calloc os (trace s) sizeof_cache_t
      then (None, emit (Ev_calloc sizeof_cache_t False) s)
      else
        (let s = emit (Ev_calloc sizeof_cache_t True) s in
         if \<not> os_calloc os (trace s) sizeof_private_cache
         then (None, fault NullDeref (emit (Ev_calloc sizeof_private_cache False) s))
         else
           (let s = emit (Ev_calloc sizeof_private_cache True) s;
                p = next_cache s;
                d = cache_dir_prefix cache_dir;
                s = (case d of Inl f \<Rightarrow> fault f s | Inr _ \<Rightarrow> s);
                c = \<lparr>path = '''', buf = None,
                     p_priv = \<lparr>capacity = cap, widx = 0, ridx = 0, wfp = None,
                               dir = (case d of Inl _ \<Rightarrow> '''' | Inr x \<Rightarrow> x)\<rparr>\<rparr>;
                s = (set_cache p c s)\<lparr>next_cache := Suc p\<rparr>;
                (ret, s) =
                  (case to of
                     TO_AUTO \<Rightarrow> if cap > MEMORY_CACHE_LEN then create_cache_file os p s
                                else create_cache_buffer os p s
                   | TO_MEM \<Rightarrow> create_cache_buffer os p s
                   | TO_FILE \<Rightarrow> create_cache_file os p s
                   | TO_SHM \<Rightarrow> create_cache_file os p s)
            in if ret = -1 then (None, leave_cache (Some p) s) else (Some p, s))))"

definition cache_pop ::
  "nat \<Rightarrow> size_t \<Rightarrow> 'a cstate_scheme \<Rightarrow> size_t \<times> byte list \<times> 'a cstate_scheme"
where
  "cache_pop p data_len s =
     (case caches s p of
        None \<Rightarrow> (0, [], fault (UseAfterFree p) s)
      | Some c \<Rightarrow>
          (let priv = p_priv c;
               rlen = widx priv - ridx priv;
               rlen = (if rlen > data_len then data_len else rlen)
           in case buf c of
                Some b \<Rightarrow>
                  (let s = (if in_block (unat (ridx priv)) (unat rlen) b then s
                            else fault OutOfBounds s);
                       d = take (unat rlen) (drop (unat (ridx priv)) b)
                   in (rlen, d, set_cache p (c\<lparr>p_priv := priv\<lparr>ridx := ridx priv + rlen\<rparr>\<rparr>) s))
              | None \<Rightarrow>
                  (case wfp priv of
                     Some f \<Rightarrow>
                       (let (d, s) = fread (unat rlen) f s; rlen = of_nat (length d)
                        in (rlen, d, set_cache p (c\<lparr>p_priv := priv\<lparr>ridx := ridx priv + rlen\<rparr>\<rparr>) s))
                   | None \<Rightarrow> (-1, [], s))))"

text \<open>
  \<open>p_data\<close> is the memory from the pointer to the end of the object it points into.
\<close>

definition cache_push ::
  "os \<Rightarrow> nat \<Rightarrow> byte list \<Rightarrow> u32 \<Rightarrow> 'a cstate_scheme \<Rightarrow> int \<times> 'a cstate_scheme"
where
  "cache_push os p p_data data_len s =
     (case caches s p of
        None \<Rightarrow> (-1, fault (UseAfterFree p) s)
      | Some c \<Rightarrow>
          (let priv = p_priv c;
               wlen = capacity priv - widx priv;
               wlen = (if wlen > ucast data_len then ucast data_len else wlen);
               src = take (unat wlen) p_data;
               s_src = (if in_block 0 (unat wlen) p_data then s else fault OutOfBounds s)
           in case buf c of
                Some b \<Rightarrow>
                  (let s = (if in_block (unat (widx priv)) (unat wlen) b then s_src
                            else fault OutOfBounds s_src);
                       c = c\<lparr>buf := Some (overwrite (unat (widx priv)) src b),
                             p_priv := priv\<lparr>widx := widx priv + wlen\<rparr>\<rparr>
                   in (int_of_size wlen, set_cache p c s))
              | None \<Rightarrow>
                  (case wfp priv of
                     Some f \<Rightarrow>
                       (let (n, s) = fwrite os src f s_src; wlen = of_nat n
                        in (int_of_size wlen,
                            set_cache p (c\<lparr>p_priv := priv\<lparr>widx := widx priv + wlen\<rparr>\<rparr>) s))
                   | None \<Rightarrow> (-1, s))))"

definition delete_cache :: "nat option \<Rightarrow> 'a cstate_scheme \<Rightarrow> 'a cstate_scheme" where
  "delete_cache q s =
     (case q of
        None \<Rightarrow> s
      | Some p \<Rightarrow>
          (case caches s p of
             None \<Rightarrow> fault (UseAfterFree p) s
           | Some c \<Rightarrow>
               (case buf c of
                  Some b \<Rightarrow> set_cache p (c\<lparr>buf := None\<rparr>) s
                | None \<Rightarrow>
                    if path c \<noteq> [] then
                      (let s = (case wfp (p_priv c) of
                                  None \<Rightarrow> s
                                | Some f \<Rightarrow> set_cache p (c\<lparr>p_priv := (p_priv c)\<lparr>wfp := None\<rparr>\<rparr>) (fclose f s))
                       in remove_file (path c) s)
                    else s)))"

definition cache_full :: "nat option \<Rightarrow> 'a cstate_scheme \<Rightarrow> bool" where
  "cache_full q s =
     (case q of
        None \<Rightarrow> False
      | Some p \<Rightarrow>
          (case caches s p of
             None \<Rightarrow> False
           | Some c \<Rightarrow> widx (p_priv c) = capacity (p_priv c)))"

subsection \<open>Well-formed caches and what they hold\<close>

definition mem_ok :: "cache_t \<Rightarrow> bool" where
  "mem_ok c =
     (case buf c of
        None \<Rightarrow> False
      | Some b \<Rightarrow> length b = unat (capacity (p_priv c)) \<and> wfp (p_priv c) = None \<and>
                  ridx (p_priv c) \<le> widx (p_priv c) \<and> widx (p_priv c) \<le> capacity (p_priv c))"

definition mem_invar :: "nat \<Rightarrow> 'a cstate_scheme \<Rightarrow> bool" where
  "mem_invar p s = (case caches s p of None \<Rightarrow> False | Some c \<Rightarrow> mem_ok c)"

definition file_ok :: "cache_t \<Rightarrow> 'a cstate_scheme \<Rightarrow> bool" where
  "file_ok c s =
     (buf c = None \<and> path c \<noteq> [] \<and>
      ridx (p_priv c) \<le> widx (p_priv c) \<and> widx (p_priv c) \<le> capacity (p_priv c) \<and>
      (case wfp (p_priv c) of
         None \<Rightarrow> False
       | Some f \<Rightarrow>
           (case (streams s f, files s (path c)) of
              (Some st, Some content) \<Rightarrow>
                st_path st = path c \<and> st_pos st = unat (widx (p_priv c)) \<and>
                unat (capacity (p_priv c)) \<le> length content
            | _ \<Rightarrow> False)))"

definition file_invar :: "nat \<Rightarrow> 'a cstate_scheme \<Rightarrow> bool" where
  "file_invar p s = (case caches s p of None \<Rightarrow> False | Some c \<Rightarrow> file_ok c s)"

definition cache_cap :: "nat \<Rightarrow> 'a cstate_scheme \<Rightarrow> nat" where
  "cache_cap p s = (case caches s p of None \<Rightarrow> 0 | Some c \<Rightarrow> unat (capacity (p_priv c)))"

text \<open>The bytes a cache has taken, and those of them not yet popped.\<close>

definition cache_content :: "nat \<Rightarrow> 'a cstate_scheme \<Rightarrow> byte list" where
  "cache_content p s =
     (case caches s p of
        None \<Rightarrow> []
      | Some c \<Rightarrow>
          take (unat (widx (p_priv c)))
            (case buf c of
               Some b \<Rightarrow> b
             | None \<Rightarrow> (case files s (path c) of None \<Rightarrow> [] | Some content \<Rightarrow> content)))"

definition cache_pending :: "nat \<Rightarrow> 'a cstate_scheme \<Rightarrow> byte list" where
  "cache_pending p s =
     (case caches s p of
        None \<Rightarrow> []
      | Some c \<Rightarrow> drop (unat (ridx (p_priv c))) (cache_content p s))"

text \<open>Pushing and popping a whole list, with counts as naturals.\<close>

definition push_bytes :: "os \<Rightarrow> nat \<Rightarrow> byte list \<Rightarrow> 'a cstate_scheme \<Rightarrow> nat \<times> 'a cstate_scheme" where
  "push_bytes os p d s =
     (let (r, s') = cache_push os p d (of_nat (length d)) s in (nat r, s'))"

definition pop_bytes :: "nat \<Rightarrow> nat \<Rightarrow> 'a cstate_scheme \<Rightarrow> byte list \<times> 'a cstate_scheme" where
  "pop_bytes p n s = (let (r, d, s') = cache_pop p (of_nat n) s in (d, s'))"

fun feed :: "('d list \<Rightarrow> 's \<Rightarrow> nat \<times> 's) \<Rightarrow> 'd list list \<Rightarrow> 's \<Rightarrow> 's" where
  "feed push [] s = s"
| "feed push (d # ds) s = feed push ds (snd (push d s))"

fun drain :: "(nat \<Rightarrow> 's \<Rightarrow> 'd list \<times> 's) \<Rightarrow> nat list \<Rightarrow> 's \<Rightarrow> 'd list \<times> 's" where
  "drain pop [] s = ([], s)"
| "drain pop (n # ns) s =
     (let (d, s) = pop n s; (e, s) = drain pop ns s in (d @ e, s))"

text \<open>Fresh addresses are unused.\<close>

definition heap_wf :: "'a cstate_scheme \<Rightarrow> bool" where
  "heap_wf s = ((\<forall>q \<ge> next_cache s. caches s q = None) \<and> (\<forall>f \<ge> next_fp s. streams s f = None))"

text \<open>The state of a process that has made no call yet.\<close>

definition start_cstate :: cstate where
  "start_cstate = \<lparr>trace = [], errno = E_OK, ub = [], files = (\<lambda>_. None), streams = (\<lambda>_. None),
     next_fp = 0, caches = (\<lambda>_. None), next_cache = 0\<rparr>"

subsection \<open>Interfaces\<close>

text \<open>
  A bounded sink of bytes: a push takes a prefix of what it is given, never more than the
  room left, and appends exactly that prefix.
\<close>

locale byte_sink =
  fixes push :: "'d list \<Rightarrow> 's \<Rightarrow> nat \<times> 's"
    and content :: "'s \<Rightarrow> 'd list"
    and cap :: "'s \<Rightarrow> nat"
    and invar :: "'s \<Rightarrow> bool"
    and limit :: nat
  assumes push_bound:
      "invar s \<Longrightarrow> length d < limit \<Longrightarrow>
        fst (push d s) \<le> min (length d) (cap s - length (content s))"
    and push_content:
      "invar s \<Longrightarrow> length d < limit \<Longrightarrow>
        content (snd (push d s)) = content s @ take (fst (push d s)) d"
    and push_cap: "invar s \<Longrightarrow> length d < limit \<Longrightarrow> cap (snd (push d s)) = cap s"
    and push_invar: "invar s \<Longrightarrow> length d < limit \<Longrightarrow> invar (snd (push d s))"
    and content_bound: "invar s \<Longrightarrow> length (content s) \<le> cap s"
begin

lemma feed_invar:
  "invar s \<Longrightarrow> \<forall>d \<in> set ds. length d < limit \<Longrightarrow>
    invar (feed push ds s) \<and> cap (feed push ds s) = cap s"
  by (induction ds arbitrary: s) (auto simp: push_invar push_cap)

lemma feed_extends:
  "invar s \<Longrightarrow> \<forall>d \<in> set ds. length d < limit \<Longrightarrow>
    \<exists>e. content (feed push ds s) = content s @ e \<and> length e \<le> length (concat ds)"
proof (induction ds arbitrary: s)
  case Nil
  then show ?case by simp
next
  case (Cons d ds)
  then have d: "length d < limit" and inv: "invar (snd (push d s))"
    by (simp_all add: push_invar)
  from Cons.IH [OF inv] Cons.prems obtain e where
    "content (feed push ds (snd (push d s))) = content (snd (push d s)) @ e"
    "length e \<le> length (concat ds)" by auto
  with push_content [OF Cons.prems(1) d] show ?case
    by (intro exI [of _ "take (fst (push d s)) d @ e"]) auto
qed

end

text \<open>A sink whose pushes take everything that fits.\<close>

locale eager_sink = byte_sink +
  assumes push_eager:
      "invar s \<Longrightarrow> length d < limit \<Longrightarrow>
        fst (push d s) = min (length d) (cap s - length (content s))"
begin

lemma feed_content:
  assumes "invar s" "\<forall>d \<in> set ds. length d < limit"
  shows "content (feed push ds s) = take (cap s) (content s @ concat ds)"
  using assms
proof (induction ds arbitrary: s)
  case Nil
  then show ?case using content_bound by simp
next
  case (Cons d ds)
  then have d: "length d < limit" and inv: "invar (snd (push d s))"
    by (simp_all add: push_invar)
  have step: "content (snd (push d s)) = take (cap s) (content s @ d)"
    using push_content [OF Cons.prems(1) d] push_eager [OF Cons.prems(1) d]
      content_bound [OF Cons.prems(1)] by (simp add: min_def)
  have "content (feed push (d # ds) s) = take (cap s) (content (snd (push d s)) @ concat ds)"
    using Cons.IH [OF inv] Cons.prems push_cap [OF Cons.prems(1) d] by simp
  also have "\<dots> = take (cap s) (content s @ d @ concat ds)"
    unfolding step by (cases "length (content s @ d) \<le> cap s") (auto simp: min_def)
  finally show ?case by simp
qed

end

text \<open>A bounded byte queue: an eager sink with a pop that returns the oldest bytes not yet popped.\<close>

locale byte_fifo = eager_sink +
  fixes pop :: "nat \<Rightarrow> 's \<Rightarrow> 'd list \<times> 's"
    and pending :: "'s \<Rightarrow> 'd list"
  assumes push_pending:
      "invar s \<Longrightarrow> length d < limit \<Longrightarrow>
        pending (snd (push d s)) = pending s @ take (fst (push d s)) d"
    and pop_data: "invar s \<Longrightarrow> n < limit \<Longrightarrow> fst (pop n s) = take n (pending s)"
    and pop_pending: "invar s \<Longrightarrow> n < limit \<Longrightarrow> pending (snd (pop n s)) = drop n (pending s)"
    and pop_content:
      "invar s \<Longrightarrow> n < limit \<Longrightarrow>
        content (snd (pop n s)) = content s \<and> cap (snd (pop n s)) = cap s"
    and pop_invar: "invar s \<Longrightarrow> n < limit \<Longrightarrow> invar (snd (pop n s))"
begin

lemma feed_pending:
  assumes "invar s" "\<forall>d \<in> set ds. length d < limit"
  shows "pending (feed push ds s) =
    pending s @ take (cap s - length (content s)) (concat ds)"
  using assms
proof (induction ds arbitrary: s)
  case Nil
  then show ?case by simp
next
  case (Cons d ds)
  then have d: "length d < limit" and inv: "invar (snd (push d s))"
    by (simp_all add: push_invar)
  note facts = push_content [OF Cons.prems(1) d] push_eager [OF Cons.prems(1) d]
    content_bound [OF Cons.prems(1)] push_cap [OF Cons.prems(1) d] push_pending [OF Cons.prems(1) d]
  have "pending (feed push (d # ds) s) = pending (snd (push d s)) @
      take (cap s - length (content (snd (push d s)))) (concat ds)"
    using Cons.IH [OF inv] Cons.prems facts by simp
  also have "\<dots> = pending s @ take (cap s - length (content s)) (d @ concat ds)"
    using facts by (auto simp: min_def)
  finally show ?case by simp
qed

lemma drain_pending:
  assumes "invar s" "\<forall>n \<in> set ns. n < limit"
  shows "fst (drain pop ns s) = take (sum_list ns) (pending s)"
  using assms
proof (induction ns arbitrary: s)
  case Nil
  then show ?case by simp
next
  case (Cons n ns)
  then have n: "n < limit" and inv: "invar (snd (pop n s))"
    by (simp_all add: pop_invar)
  from Cons.IH [OF inv] Cons.prems have
    "fst (drain pop ns (snd (pop n s))) = take (sum_list ns) (drop n (pending s))"
    using pop_pending [OF Cons.prems(1) n] by simp
  with pop_data [OF Cons.prems(1) n] show ?case
    by (simp add: case_prod_beta take_add)
qed

end

subsection \<open>Memory caches\<close>

lemma push_len:
  assumes "widx pr \<le> capacity pr"
  shows "unat (if ucast (n :: u32) < capacity pr - widx pr then ucast n else capacity pr - widx pr) =
    min (unat n) (unat (capacity pr) - unat (widx pr))"
  using unat_size_sub [OF assms] by (auto simp: word_less_nat_alt)

lemma pop_len:
  assumes "ridx pr \<le> widx pr"
  shows "unat (if n < widx pr - ridx pr then n else widx pr - ridx pr) =
    min (unat n) (unat (widx pr) - unat (ridx pr))"
  using unat_size_sub [OF assms] by (auto simp: word_less_nat_alt)

lemma unat_of_nat_u32: "k < 2 ^ 32 \<Longrightarrow> unat (of_nat k :: u32) = k"
  by (simp add: unat_of_nat take_bit_nat_eq_self)

lemma unat_of_nat_size: "k < 2 ^ 64 \<Longrightarrow> unat (of_nat k :: size_t) = k"
  by (simp add: unat_of_nat take_bit_nat_eq_self)

lemma mem_push_step:
  assumes c: "caches s p = Some c" and b: "buf c = Some b" and ok: "mem_ok c"
    and n: "unat n \<le> length d" "unat n < 2 ^ 31"
  defines "k \<equiv> min (unat n) (unat (capacity (p_priv c)) - unat (widx (p_priv c)))"
  shows "\<exists>pr. cache_push os p d n s =
           (int k, set_cache p (c\<lparr>buf := Some (overwrite (unat (widx (p_priv c))) (take k d) b),
                                  p_priv := pr\<rparr>) s)
         \<and> unat (widx pr) = unat (widx (p_priv c)) + k
         \<and> ridx pr = ridx (p_priv c) \<and> capacity pr = capacity (p_priv c) \<and> wfp pr = wfp (p_priv c)"
proof -
  let ?pr = "p_priv c"
  let ?w = "if ucast n < capacity ?pr - widx ?pr then ucast n else capacity ?pr - widx ?pr"
  have bnd: "widx ?pr \<le> capacity ?pr" "length b = unat (capacity ?pr)"
    using ok b by (auto simp: mem_ok_def)
  then have uw: "unat ?w = k" unfolding k_def by (intro push_len)
  have le: "unat (widx ?pr) + k \<le> unat (capacity ?pr)"
    using bnd by (auto simp: k_def word_le_nat_alt)
  have "unat (capacity ?pr) < 2 ^ 64" using unat_bound [of "capacity ?pr"] by simp
  with le have wadd: "unat (widx ?pr + ?w) = unat (widx ?pr) + k"
    using uw by (subst unat_size_add) auto
  have ret: "int_of_size ?w = int k"
    using uw n(2) by (subst int_of_size_small) (auto simp: k_def)
  have "cache_push os p d n s =
      (int_of_size ?w, set_cache p (c\<lparr>buf := Some (overwrite (unat (widx ?pr)) (take (unat ?w) d) b),
                                  p_priv := ?pr\<lparr>widx := widx ?pr + ?w\<rparr>\<rparr>) s)"
    using c b uw le n bnd by (simp add: cache_push_def Let_def in_block_def k_def)
  with ret uw wadd show ?thesis
    by (intro exI [of _ "?pr\<lparr>widx := widx ?pr + ?w\<rparr>"]) simp
qed

lemma mem_pop_step:
  fixes n :: size_t
  assumes c: "caches s p = Some c" and b: "buf c = Some b" and ok: "mem_ok c"
  defines "k \<equiv> min (unat n) (unat (widx (p_priv c)) - unat (ridx (p_priv c)))"
  shows "\<exists>r pr. cache_pop p n s =
           (r, take k (drop (unat (ridx (p_priv c))) b), set_cache p (c\<lparr>p_priv := pr\<rparr>) s)
         \<and> unat r = k \<and> unat (ridx pr) = unat (ridx (p_priv c)) + k
         \<and> widx pr = widx (p_priv c) \<and> capacity pr = capacity (p_priv c) \<and> wfp pr = wfp (p_priv c)"
proof -
  let ?pr = "p_priv c"
  let ?w = "if n < widx ?pr - ridx ?pr then n else widx ?pr - ridx ?pr"
  have bnd: "ridx ?pr \<le> widx ?pr" "widx ?pr \<le> capacity ?pr" "length b = unat (capacity ?pr)"
    using ok b by (auto simp: mem_ok_def)
  then have uw: "unat ?w = k" unfolding k_def by (intro pop_len)
  have le: "unat (ridx ?pr) + k \<le> unat (widx ?pr)"
    using bnd by (auto simp: k_def word_le_nat_alt)
  have "unat (widx ?pr) < 2 ^ 64" using unat_bound [of "widx ?pr"] by simp
  with le have radd: "unat (ridx ?pr + ?w) = unat (ridx ?pr) + k"
    using uw by (subst unat_size_add) auto
  have "unat (ridx ?pr) + k \<le> length b"
    using le bnd by (simp add: word_le_nat_alt)
  then have "cache_pop p n s =
      (?w, take (unat ?w) (drop (unat (ridx ?pr)) b),
       set_cache p (c\<lparr>p_priv := ?pr\<lparr>ridx := ridx ?pr + ?w\<rparr>\<rparr>) s)"
    using c b uw by (simp add: cache_pop_def Let_def in_block_def)
  with uw radd show ?thesis
    by (intro exI [of _ ?w] exI [of _ "?pr\<lparr>ridx := ridx ?pr + ?w\<rparr>"]) simp
qed

text \<open>The queue view of one push and one pop on a memory cache.\<close>

lemma mem_invarE:
  assumes "mem_invar p s"
  obtains c b where "caches s p = Some c" "buf c = Some b" "mem_ok c"
    "length b = unat (capacity (p_priv c))"
    "unat (ridx (p_priv c)) \<le> unat (widx (p_priv c))"
    "unat (widx (p_priv c)) \<le> unat (capacity (p_priv c))"
  using assms
  by (auto simp: mem_invar_def mem_ok_def word_le_nat_alt split: option.splits)

lemmas cache_views = mem_invar_def mem_ok_def cache_cap_def cache_content_def cache_pending_def
  set_cache_def word_le_nat_alt

lemma mem_push_views:
  assumes inv: "mem_invar p s" and d: "length d < 2 ^ 31"
  shows "fst (push_bytes os p d s) = min (length d) (cache_cap p s - length (cache_content p s))"
    and "cache_content p (snd (push_bytes os p d s)) =
      cache_content p s @ take (fst (push_bytes os p d s)) d"
    and "cache_pending p (snd (push_bytes os p d s)) =
      cache_pending p s @ take (fst (push_bytes os p d s)) d"
    and "cache_cap p (snd (push_bytes os p d s)) = cache_cap p s"
    and "mem_invar p (snd (push_bytes os p d s))"
proof -
  from inv obtain c b where c: "caches s p = Some c" "buf c = Some b" "mem_ok c"
    and len: "length b = unat (capacity (p_priv c))"
    and ix: "unat (ridx (p_priv c)) \<le> unat (widx (p_priv c))"
      "unat (widx (p_priv c)) \<le> unat (capacity (p_priv c))"
    by (rule mem_invarE)
  have n: "unat (of_nat (length d) :: u32) = length d"
    using d by (intro unat_of_nat_u32) simp
  define k where "k = min (length d) (unat (capacity (p_priv c)) - unat (widx (p_priv c)))"
  obtain pr where st: "cache_push os p d (of_nat (length d)) s =
      (int k, set_cache p (c\<lparr>buf := Some (overwrite (unat (widx (p_priv c))) (take k d) b),
                             p_priv := pr\<rparr>) s)"
    and pr: "unat (widx pr) = unat (widx (p_priv c)) + k" "ridx pr = ridx (p_priv c)"
      "capacity pr = capacity (p_priv c)" "wfp pr = wfp (p_priv c)"
    using mem_push_step [OF c, of "of_nat (length d)" d os] d n by (auto simp: k_def)
  have k: "k \<le> length d" "unat (widx (p_priv c)) + k \<le> length b"
    using ix len by (auto simp: k_def)
  then have ow: "take (unat (widx (p_priv c)) + k) (overwrite (unat (widx (p_priv c))) (take k d) b) =
      take (unat (widx (p_priv c))) b @ take k d"
    using take_overwrite [of "unat (widx (p_priv c))" b "take k d"] by simp
  have lo: "length (overwrite (unat (widx (p_priv c))) (take k d) b) = length b"
    using k by (intro length_overwrite) simp
  show "fst (push_bytes os p d s) = min (length d) (cache_cap p s - length (cache_content p s))"
    using c len ix by (simp add: push_bytes_def st k_def cache_views)
  show "cache_content p (snd (push_bytes os p d s)) =
      cache_content p s @ take (fst (push_bytes os p d s)) d"
    using c k ow pr by (simp add: push_bytes_def st cache_views)
  show "cache_pending p (snd (push_bytes os p d s)) =
      cache_pending p s @ take (fst (push_bytes os p d s)) d"
    using c k ow pr ix len by (simp add: push_bytes_def st cache_views)
  show "cache_cap p (snd (push_bytes os p d s)) = cache_cap p s"
    using c pr by (simp add: push_bytes_def st cache_views)
  show "mem_invar p (snd (push_bytes os p d s))"
    using c pr lo len ix k by (simp add: push_bytes_def st cache_views)
qed

lemma mem_pop_views:
  assumes inv: "mem_invar p s" and n: "n < 2 ^ 31"
  shows "fst (pop_bytes p n s) = take n (cache_pending p s)"
    and "cache_pending p (snd (pop_bytes p n s)) = drop n (cache_pending p s)"
    and "cache_content p (snd (pop_bytes p n s)) = cache_content p s"
    and "cache_cap p (snd (pop_bytes p n s)) = cache_cap p s"
    and "mem_invar p (snd (pop_bytes p n s))"
proof -
  from inv obtain c b where c: "caches s p = Some c" "buf c = Some b" "mem_ok c"
    and len: "length b = unat (capacity (p_priv c))"
    and ix: "unat (ridx (p_priv c)) \<le> unat (widx (p_priv c))"
      "unat (widx (p_priv c)) \<le> unat (capacity (p_priv c))"
    by (rule mem_invarE)
  have un: "unat (of_nat n :: size_t) = n"
    using n by (intro unat_of_nat_size) simp
  define k where "k = min n (unat (widx (p_priv c)) - unat (ridx (p_priv c)))"
  obtain r pr where st: "cache_pop p (of_nat n) s =
      (r, take k (drop (unat (ridx (p_priv c))) b), set_cache p (c\<lparr>p_priv := pr\<rparr>) s)"
    and pr: "unat (ridx pr) = unat (ridx (p_priv c)) + k" "widx pr = widx (p_priv c)"
      "capacity pr = capacity (p_priv c)" "wfp pr = wfp (p_priv c)"
    using mem_pop_step [OF c, of "of_nat n"] un by (auto simp: k_def)
  have k: "unat (ridx (p_priv c)) + k \<le> unat (widx (p_priv c))"
    using ix by (simp add: k_def)
  show "fst (pop_bytes p n s) = take n (cache_pending p s)"
    using c ix len by (simp add: pop_bytes_def st cache_views drop_take k_def min.commute)
  show "cache_pending p (snd (pop_bytes p n s)) = drop n (cache_pending p s)"
    using c pr ix len
    by (cases "n \<le> unat (widx (p_priv c)) - unat (ridx (p_priv c))")
      (simp_all add: pop_bytes_def st cache_views k_def min_def add.commute)
  show "cache_content p (snd (pop_bytes p n s)) = cache_content p s"
    "cache_cap p (snd (pop_bytes p n s)) = cache_cap p s"
    "mem_invar p (snd (pop_bytes p n s))"
    using c pr len ix k by (simp_all add: pop_bytes_def st cache_views)
qed

lemma mem_content_bound: "mem_invar p s \<Longrightarrow> length (cache_content p s) \<le> cache_cap p s"
  by (erule mem_invarE) (simp add: cache_views)

interpretation mem_queue: byte_fifo
  "push_bytes os p" "cache_content p" "cache_cap p" "mem_invar p" "2 ^ 31"
  "pop_bytes p" "cache_pending p"
  for os :: os and p :: nat
  by unfold_locales (simp_all add: mem_push_views mem_pop_views mem_content_bound)

subsection \<open>File caches\<close>

lemma file_invarE:
  assumes "file_invar p s"
  obtains c f st content where "caches s p = Some c" "buf c = None" "wfp (p_priv c) = Some f"
    "streams s f = Some st" "files s (path c) = Some content" "path c \<noteq> []"
    "st_path st = path c" "st_pos st = unat (widx (p_priv c))"
    "unat (capacity (p_priv c)) \<le> length content"
    "unat (ridx (p_priv c)) \<le> unat (widx (p_priv c))"
    "unat (widx (p_priv c)) \<le> unat (capacity (p_priv c))"
  using assms
  by (auto simp: file_invar_def file_ok_def word_le_nat_alt split: option.splits)

lemma file_push_step:
  fixes n :: u32 and os :: os
  assumes inv: "file_invar p s" and c: "caches s p = Some c"
    and n: "unat n \<le> length d" "unat n < 2 ^ 31"
  defines "m \<equiv> min (unat n) (unat (capacity (p_priv c)) - unat (widx (p_priv c)))"
  defines "k \<equiv> min m (os_fwrite os (trace s) (path c) m)"
  shows "\<exists>s' pr. cache_push os p d n s = (int k, s')
    \<and> s' = s\<lparr>trace := trace s @ [Ev_fwrite (path c) m k],
             files := (files s)(path c \<mapsto>
               write_at (unat (widx (p_priv c))) (take k d) (the (files s (path c)))),
             streams := (streams s)(the (wfp (p_priv c)) \<mapsto>
               \<lparr>st_path = path c, st_pos = unat (widx (p_priv c)) + k\<rparr>),
             caches := (caches s)(p \<mapsto> c\<lparr>p_priv := pr\<rparr>)\<rparr>
    \<and> capacity pr = capacity (p_priv c) \<and> ridx pr = ridx (p_priv c) \<and> wfp pr = wfp (p_priv c)
    \<and> unat (widx pr) = unat (widx (p_priv c)) + k"
proof -
  from inv obtain f st content where c': "buf c = None" "wfp (p_priv c) = Some f"
    "streams s f = Some st" "files s (path c) = Some content"
    "st_path st = path c" "st_pos st = unat (widx (p_priv c))"
    and ix: "unat (widx (p_priv c)) \<le> unat (capacity (p_priv c))"
    using c by (auto elim: file_invarE)
  let ?pr = "p_priv c"
  let ?w = "if ucast n < capacity ?pr - widx ?pr then ucast n else capacity ?pr - widx ?pr"
  have uw: "unat ?w = m" unfolding m_def using ix by (intro push_len) (simp add: word_le_nat_alt)
  have m: "m \<le> unat n" by (simp add: m_def)
  have k: "k \<le> m" "k < 2 ^ 31" using m n by (auto simp: k_def)
  have uk: "unat (of_nat k :: size_t) = k" using k by (intro unat_of_nat_size) simp
  have "unat (capacity ?pr) < 2 ^ 64" using unat_bound [of "capacity ?pr"] by simp
  moreover have "unat (widx ?pr) + k \<le> unat (capacity ?pr)"
    using ix k by (auto simp: m_def)
  ultimately have wadd: "unat (widx ?pr + of_nat k) = unat (widx ?pr) + k"
    using uk by (subst unat_size_add) auto
  have st: "st\<lparr>st_pos := q\<rparr> = \<lparr>st_path = path c, st_pos = q\<rparr>" for q
    using c'(5) by (cases st) simp
  have ret: "int_of_size (of_nat k :: size_t) = int k"
    using uk k by (subst int_of_size_small) auto
  have "cache_push os p d n s = (int_of_size (of_nat k :: size_t),
      s\<lparr>trace := trace s @ [Ev_fwrite (path c) m k],
        files := (files s)(path c \<mapsto> write_at (unat (widx ?pr)) (take k d) content),
        streams := (streams s)(f \<mapsto> \<lparr>st_path = path c, st_pos = unat (widx ?pr) + k\<rparr>),
        caches := (caches s)(p \<mapsto> c\<lparr>p_priv := ?pr\<lparr>widx := widx ?pr + of_nat k\<rparr>\<rparr>)\<rparr>)"
    using c c' uw n m k
    by (simp add: cache_push_def fwrite_def Let_def in_block_def set_cache_def st min_absorb1
        k_def [symmetric] take_take min_absorb2)
  with ret wadd c' show ?thesis by auto
qed

lemma file_push_views:
  assumes inv: "file_invar p s" and d: "length d < 2 ^ 31"
  shows "fst (push_bytes os p d s) \<le> min (length d) (cache_cap p s - length (cache_content p s))"
    and "cache_content p (snd (push_bytes os p d s)) =
      cache_content p s @ take (fst (push_bytes os p d s)) d"
    and "cache_cap p (snd (push_bytes os p d s)) = cache_cap p s"
    and "file_invar p (snd (push_bytes os p d s))"
proof -
  from inv obtain c f st content where c: "caches s p = Some c"
    and c': "buf c = None" "wfp (p_priv c) = Some f" "streams s f = Some st"
      "files s (path c) = Some content" "path c \<noteq> []"
    and st: "st_path st = path c" "st_pos st = unat (widx (p_priv c))"
    and ix: "unat (capacity (p_priv c)) \<le> length content"
      "unat (ridx (p_priv c)) \<le> unat (widx (p_priv c))"
      "unat (widx (p_priv c)) \<le> unat (capacity (p_priv c))"
    by (rule file_invarE)
  have n: "unat (of_nat (length d) :: u32) = length d"
    using d by (intro unat_of_nat_u32) simp
  define m where "m = min (length d) (unat (capacity (p_priv c)) - unat (widx (p_priv c)))"
  define k where "k = min m (os_fwrite os (trace s) (path c) m)"
  let ?new = "write_at (unat (widx (p_priv c))) (take k d) content"
  note step = file_push_step [OF inv c, of "of_nat (length d)" d os,
      unfolded n, OF order_refl d, folded m_def, folded k_def]
  obtain pr s' where push: "cache_push os p d (of_nat (length d)) s = (int k, s')"
    and s': "files s' (path c) = Some ?new" "caches s' p = Some (c\<lparr>p_priv := pr\<rparr>)"
      "streams s' f = Some \<lparr>st_path = path c, st_pos = unat (widx (p_priv c)) + k\<rparr>"
    and cp: "capacity pr = capacity (p_priv c)" "ridx pr = ridx (p_priv c)" "wfp pr = Some f"
    and pr: "unat (widx pr) = unat (widx (p_priv c)) + k"
    using step c' by auto
  have k: "k \<le> length d" "unat (widx (p_priv c)) + k \<le> unat (capacity (p_priv c))"
    using ix by (auto simp: k_def m_def)
  have new: "length ?new = length content"
    "take (unat (widx (p_priv c)) + k) ?new = take (unat (widx (p_priv c))) content @ take k d"
    using k ix take_write_at [of "unat (widx (p_priv c))" content "take k d"]
    by (simp_all add: write_at_inside length_overwrite)
  have pb: "push_bytes os p d s = (k, s')" by (simp add: push_bytes_def push)
  show "fst (push_bytes os p d s) \<le> min (length d) (cache_cap p s - length (cache_content p s))"
    using k ix c c' by (simp add: pb cache_cap_def cache_content_def min_absorb2)
  show "cache_content p (snd (push_bytes os p d s)) =
      cache_content p s @ take (fst (push_bytes os p d s)) d"
    using c c' s' pr new by (simp add: pb cache_content_def)
  show "cache_cap p (snd (push_bytes os p d s)) = cache_cap p s"
    using c s' cp by (simp add: pb cache_cap_def)
  show "file_invar p (snd (push_bytes os p d s))"
    using c' s' cp pr new k ix
    by (simp add: pb file_invar_def file_ok_def word_le_nat_alt)
qed

lemma file_content_bound: "file_invar p s \<Longrightarrow> length (cache_content p s) \<le> cache_cap p s"
  by (erule file_invarE) (simp add: cache_content_def cache_cap_def)

interpretation file_sink: byte_sink
  "push_bytes os p" "cache_content p" "cache_cap p" "file_invar p" "2 ^ 31"
  for os :: os and p :: nat
  by unfold_locales (simp_all add: file_push_views file_content_bound del: min.bounded_iff)

lemma file_pop_unchanged:
  assumes "file_invar p s"
  shows "cache_pop p n s = (0, [], s)"
proof -
  from assms obtain c f st where "caches s p = Some c" "buf c = None" "wfp (p_priv c) = Some f"
    "streams s f = Some st"
    by (rule file_invarE)
  then show ?thesis
    by (simp add: cache_pop_def fread_def Let_def set_cache_def fun_upd_idem)
qed

subsection \<open>Creation\<close>

lemma sint_size_small:
  assumes "unat w < 2 ^ 63"
  shows "sint (w :: size_t) = int (unat w)"
proof -
  have w: "uint w = int (unat w)" by simp
  have "int (unat w) < int (2 ^ 63)" using assms by (simp only: of_nat_less_iff)
  with w have "uint w < 2 ^ 63" by simp
  moreover have "- (2 ^ 63) \<le> uint w" by (rule order_trans [of _ 0]) simp_all
  ultimately have "signed_take_bit 63 (uint w) = uint w"
    by (simp add: signed_take_bit_int_eq_self)
  then show ?thesis by (simp add: sint_uint)
qed

lemma cache_path_nonempty: "cache_path d now \<noteq> []"
  by (simp add: cache_path_def MAX_PATH_def)

lemma create_cache_file_result:
  fixes os :: os
  assumes c: "caches s p = Some c"
    and d: "length (dir (p_priv c)) < MAX_PATH" "unat (capacity (p_priv c)) < 2 ^ 63"
    and ok: "create_cache_file os p s = (0, s')"
  defines "pth \<equiv> cache_path (dir (p_priv c)) (os_gettimeofday os (trace s))"
  shows "\<exists>j. s' = s\<lparr>trace := trace s', errno := errno s',
      files := (files s)(pth \<mapsto> write_at (unat (capacity (p_priv c)) - 1) [j] []),
      streams := (streams s)(next_fp s \<mapsto> \<lparr>st_path = pth, st_pos = 0\<rparr>),
      next_fp := Suc (next_fp s),
      caches := (caches s)(p \<mapsto> c\<lparr>path := pth, p_priv := (p_priv c)\<lparr>wfp := Some (next_fp s)\<rparr>\<rparr>)\<rparr>"
proof -
  have cap: "sint (capacity (p_priv c)) = int (unat (capacity (p_priv c)))"
    using d(2) by (rule sint_size_small)
  show ?thesis
    using c d ok
    by (intro exI [of _ "os_junk os (trace s @ [Ev_gettimeofday, Ev_fopen pth True])"])
      (cases "unat (capacity (p_priv c))";
        auto simp: create_cache_file_def Let_def stdio_defs set_cache_def pth_def cap
          split: if_splits prod.splits)
qed

text \<open>
  Creation in the current directory, as the server calls it: the shape of the new cache and
  everything it leaves alone, for both kinds of backing.
\<close>

definition fresh_cache :: "string \<Rightarrow> byte list option \<Rightarrow> size_t \<Rightarrow> nat option \<Rightarrow> cache_t" where
  "fresh_cache pth b cap f =
     \<lparr>path = pth, buf = b, p_priv = \<lparr>capacity = cap, widx = 0, ridx = 0, wfp = f, dir = ''.''\<rparr>\<rparr>"

definition creation_history :: "'a sys_scheme \<Rightarrow> history" where
  "creation_history s =
     trace s @ [Ev_calloc sizeof_cache_t True, Ev_calloc sizeof_private_cache True]"

lemma create_cache_file_new:
  fixes os :: os
  assumes cap: "unat cap < 2 ^ 63"
    and ok: "create_cache os None cap TO_FILE s = (Some p, s')"
  defines "pth \<equiv> cache_path ''.'' (os_gettimeofday os (creation_history s))"
  shows "p = next_cache s" and
    "\<exists>j. s' = s\<lparr>trace := trace s', errno := errno s',
      files := (files s)(pth \<mapsto> write_at (unat cap - 1) [j] []),
      streams := (streams s)(next_fp s \<mapsto> \<lparr>st_path = pth, st_pos = 0\<rparr>),
      next_fp := Suc (next_fp s),
      caches := (caches s)(p \<mapsto> fresh_cache pth None cap (Some (next_fp s))),
      next_cache := Suc (next_cache s)\<rparr>"
proof -
  let ?c = "fresh_cache '''' None cap None"
  let ?s = "(set_cache (next_cache s) ?c (s\<lparr>trace := creation_history s\<rparr>))\<lparr>next_cache := Suc (next_cache s)\<rparr>"
  from ok show p: "p = next_cache s"
    by (auto simp: create_cache_def Let_def split: if_splits prod.splits)
  have "\<exists>r. create_cache_file os p ?s = (r, s') \<and> r \<noteq> -1"
    using ok by (auto simp: create_cache_def Let_def cache_dir_prefix_def fresh_cache_def
        creation_history_def split: if_splits prod.splits)
  moreover have "fst (create_cache_file os p ?s) \<in> {-1, 0}"
    by (auto simp: create_cache_file_def Let_def split: option.splits prod.splits)
  ultimately have made: "create_cache_file os p ?s = (0, s')" by auto
  have "caches ?s p = Some ?c" by (simp add: p set_cache_def)
  moreover have "length (dir (p_priv ?c)) < MAX_PATH" "unat (capacity (p_priv ?c)) < 2 ^ 63"
    using cap by (simp_all add: fresh_cache_def MAX_PATH_def)
  ultimately have new: "caches ?s p = Some ?c" "length (dir (p_priv ?c)) < MAX_PATH"
    "unat (capacity (p_priv ?c)) < 2 ^ 63" .
  show "\<exists>j. s' = s\<lparr>trace := trace s', errno := errno s',
      files := (files s)(pth \<mapsto> write_at (unat cap - 1) [j] []),
      streams := (streams s)(next_fp s \<mapsto> \<lparr>st_path = pth, st_pos = 0\<rparr>),
      next_fp := Suc (next_fp s),
      caches := (caches s)(p \<mapsto> fresh_cache pth None cap (Some (next_fp s))),
      next_cache := Suc (next_cache s)\<rparr>"
    by (rule ex_forward [OF create_cache_file_result [OF new made]], erule trans)
      (simp add: fresh_cache_def set_cache_def pth_def p)
qed

lemma create_cache_mem_new:
  assumes ok: "create_cache os None cap TO_MEM s = (Some p, s')"
  shows "p = next_cache s" and
    "\<exists>junk. s' = s\<lparr>trace := trace s',
      caches := (caches s)(p \<mapsto> fresh_cache '''' (Some (map junk [0..<unat cap])) cap None),
      next_cache := Suc (next_cache s)\<rparr>"
proof -
  show "p = next_cache s"
    using ok by (auto simp: create_cache_def Let_def split: if_splits prod.splits)
  show "\<exists>junk. s' = s\<lparr>trace := trace s',
      caches := (caches s)(p \<mapsto> fresh_cache '''' (Some (map junk [0..<unat cap])) cap None),
      next_cache := Suc (next_cache s)\<rparr>"
    using ok
    by (intro exI [of _ "the (os_malloc os (creation_history s) (unat cap))"])
      (auto simp: create_cache_def Let_def create_cache_buffer_def cache_dir_prefix_def set_cache_def
        fresh_cache_def creation_history_def split: if_splits option.splits)
qed

lemma create_cache_mem_views:
  assumes "create_cache os None cap TO_MEM s = (Some p, s')"
  shows "mem_invar p s'" "cache_content p s' = []" "cache_pending p s' = []"
    "cache_cap p s' = unat cap" "ub s' = ub s" "files s' = files s" "streams s' = streams s"
    "q \<noteq> p \<Longrightarrow> caches s' q = caches s q"
proof -
  from create_cache_mem_new [OF assms] obtain junk where
    s': "s' = s\<lparr>trace := trace s',
      caches := (caches s)(p \<mapsto> fresh_cache '''' (Some (map junk [0..<unat cap])) cap None),
      next_cache := Suc (next_cache s)\<rparr>"
    by auto
  show "mem_invar p s'" "cache_content p s' = []" "cache_pending p s' = []"
    "cache_cap p s' = unat cap" "ub s' = ub s" "files s' = files s" "streams s' = streams s"
    "q \<noteq> p \<Longrightarrow> caches s' q = caches s q"
    by (subst s', simp add: cache_views fresh_cache_def)+
qed

lemma create_cache_file_views:
  assumes cap: "unat cap < 2 ^ 63"
    and ok: "create_cache os None cap TO_FILE s = (Some p, s')"
  shows "file_invar p s'" "cache_content p s' = []" "cache_cap p s' = unat cap" "ub s' = ub s"
    "q \<noteq> p \<Longrightarrow> caches s' q = caches s q"
proof -
  define pth where "pth = cache_path ''.'' (os_gettimeofday os (creation_history s))"
  from create_cache_file_new [OF assms, folded pth_def] obtain j where
    s': "s' = s\<lparr>trace := trace s', errno := errno s',
      files := (files s)(pth \<mapsto> write_at (unat cap - 1) [j] []),
      streams := (streams s)(next_fp s \<mapsto> \<lparr>st_path = pth, st_pos = 0\<rparr>),
      next_fp := Suc (next_fp s),
      caches := (caches s)(p \<mapsto> fresh_cache pth None cap (Some (next_fp s))),
      next_cache := Suc (next_cache s)\<rparr>"
    by auto
  show "file_invar p s'" "cache_content p s' = []" "cache_cap p s' = unat cap" "ub s' = ub s"
    "q \<noteq> p \<Longrightarrow> caches s' q = caches s q"
    by (subst s', simp add: file_invar_def file_ok_def cache_content_def cache_cap_def fresh_cache_def
        length_write_at pth_def cache_path_nonempty)+
qed

lemma create_cache_file_failed:
  assumes "alloc_ok os" "create_cache os None cap TO_FILE s = (None, s')"
  shows "ub s' = ub s"
  using assms
  by (auto simp: create_cache_def create_cache_file_def cache_dir_prefix_def alloc_ok_def leave_cache_def stdio_defs
      set_cache_def MAX_PATH_def Let_def split: if_splits)

lemma mem_push_ub: "mem_invar p s \<Longrightarrow> length d < 2 ^ 31 \<Longrightarrow> ub (snd (push_bytes os p d s)) = ub s"
  and mem_pop_ub: "mem_invar p s \<Longrightarrow> n < 2 ^ 31 \<Longrightarrow> ub (snd (pop_bytes p n s)) = ub s"
proof -
  assume inv: "mem_invar p s"
  then obtain c b where c: "caches s p = Some c" "buf c = Some b" "mem_ok c"
    by (rule mem_invarE)
  show "length d < 2 ^ 31 \<Longrightarrow> ub (snd (push_bytes os p d s)) = ub s"
    using mem_push_step [OF c, of "of_nat (length d)" d os]
    by (auto simp: push_bytes_def set_cache_def unat_of_nat_u32)
  show "n < 2 ^ 31 \<Longrightarrow> ub (snd (pop_bytes p n s)) = ub s"
    using mem_pop_step [OF c, of "of_nat n"] by (auto simp: pop_bytes_def set_cache_def)
qed

lemma file_push_ub:
  assumes "file_invar p s" "length d < 2 ^ 31"
  shows "ub (snd (push_bytes os p d s)) = ub s"
proof -
  from assms(1) obtain c where c: "caches s p = Some c" by (rule file_invarE)
  have n: "unat (of_nat (length d) :: u32) = length d"
    using assms(2) by (intro unat_of_nat_u32) simp
  show ?thesis
    using file_push_step [OF assms(1) c, of "of_nat (length d)" d os, unfolded n, OF order_refl assms(2)]
    by (auto simp: push_bytes_def)
qed

lemma mem_feed_drain_ub:
  "mem_invar p s \<Longrightarrow> \<forall>d \<in> set ds. length d < 2 ^ 31 \<Longrightarrow> ub (feed (push_bytes os p) ds s) = ub s"
  "mem_invar p s \<Longrightarrow> \<forall>n \<in> set ns. n < 2 ^ 31 \<Longrightarrow> ub (snd (drain (pop_bytes p) ns s)) = ub s"
  by (induction ds arbitrary: s) (auto simp: mem_push_ub mem_queue.push_invar,
      induction ns arbitrary: s, auto simp: mem_pop_ub mem_queue.pop_invar case_prod_beta)

lemma file_feed_ub:
  "file_invar p s \<Longrightarrow> \<forall>d \<in> set ds. length d < 2 ^ 31 \<Longrightarrow> ub (feed (push_bytes os p) ds s) = ub s"
  by (induction ds arbitrary: s) (auto simp: file_push_ub file_sink.push_invar)

lemma file_push_ret:
  assumes "file_invar p s" "length d < 2 ^ 31"
  shows "cache_push os p d (of_nat (length d)) s =
    (int (fst (push_bytes os p d s)), snd (push_bytes os p d s))"
proof -
  from assms(1) obtain c where c: "caches s p = Some c" by (rule file_invarE)
  have n: "unat (of_nat (length d) :: u32) = length d"
    using assms(2) by (intro unat_of_nat_u32) simp
  show ?thesis
    using file_push_step [OF assms(1) c, of "of_nat (length d)" d os, unfolded n, OF order_refl assms(2)]
    by (auto simp: push_bytes_def)
qed

lemma file_push_eager:
  assumes "file_invar p s" "length d < 2 ^ 31" "disk_ok os"
  shows "fst (push_bytes os p d s) = min (length d) (cache_cap p s - length (cache_content p s))"
proof -
  from assms(1) obtain c f st content where c: "caches s p = Some c"
    and v: "buf c = None" "files s (path c) = Some content"
      "unat (capacity (p_priv c)) \<le> length content"
      "unat (widx (p_priv c)) \<le> unat (capacity (p_priv c))"
    by (rule file_invarE)
  have n: "unat (of_nat (length d) :: u32) = length d"
    using assms(2) by (intro unat_of_nat_u32) simp
  have "min m (os_fwrite os h q m) = m" for m h q
    using assms(3) by (simp add: disk_ok_def)
  then show ?thesis
    using file_push_step [OF assms(1) c, of "of_nat (length d)" d os, unfolded n, OF order_refl assms(2)]
      c v by (auto simp: push_bytes_def cache_cap_def cache_content_def)
qed

interpretation file_eager: eager_sink
  "push_bytes os p" "cache_content p" "cache_cap p" "\<lambda>s. file_invar p s \<and> disk_ok os" "2 ^ 31"
  for os :: os and p :: nat
  by unfold_locales (auto simp: file_push_views file_content_bound file_push_eager simp del: min.bounded_iff)

lemma file_full_iff:
  assumes "file_invar p s"
  shows "cache_full (Some p) s \<longleftrightarrow> length (cache_content p s) = cache_cap p s"
  using assms
  by (elim file_invarE) (auto simp: cache_full_def cache_content_def cache_cap_def word_unat_eq_iff)

lemma mem_full_iff:
  assumes "mem_invar p s"
  shows "cache_full (Some p) s \<longleftrightarrow> length (cache_content p s) = cache_cap p s"
  using assms
  by (elim mem_invarE) (auto simp: cache_full_def cache_content_def cache_cap_def word_unat_eq_iff)

lemma fwrite_one:
  assumes "disk_ok os" "streams s f \<noteq> None"
  shows "fst (fwrite os [x] f s) = 1"
  using assms by (auto simp: fwrite_def disk_ok_def Let_def min_def)

lemma fseek_streams: "streams s f \<noteq> None \<Longrightarrow> streams (snd (fseek_set f off s)) f \<noteq> None"
  by (auto simp: fseek_set_def split: option.splits)

lemma create_cache_file_ret:
  assumes "disk_ok os" "caches s p = Some c"
  shows "fst (create_cache_file os p s) = 0"
proof -
  have op: "fst (fopen_wb os q t) = Some (next_fp t) \<and> streams (snd (fopen_wb os q t)) (next_fp t) \<noteq> None"
    for q and t :: "'a cstate_scheme"
    using assms(1) by (simp add: fopen_wb_def disk_ok_def Let_def)
  have one: "fst (fwrite os [x] f (snd (fseek_set f off t))) = 1" if "streams t f \<noteq> None"
    for x f off and t :: "'a cstate_scheme"
    using fwrite_one [OF assms(1) fseek_streams [OF that]] .
  show ?thesis
    using assms(2) op one
    by (simp add: create_cache_file_def Let_def case_prod_beta set_cache_def del: emit_def fault_def)
qed

lemma create_cache_file_succeeds:
  assumes "disk_ok os" "alloc_ok os"
  shows "\<exists>s'. create_cache os None cap TO_FILE s = (Some (next_cache s), s')"
proof -
  let ?s = "(set_cache (next_cache s) (fresh_cache [] None cap None)
      (s\<lparr>trace := creation_history s\<rparr>))\<lparr>next_cache := Suc (next_cache s)\<rparr>"
  obtain s' where "create_cache_file os (next_cache s) ?s = (0, s')"
    using create_cache_file_ret [OF assms(1), of ?s "next_cache s"]
    by (cases "create_cache_file os (next_cache s) ?s") (auto simp: set_cache_def)
  then show ?thesis
    using assms(2) by (simp add: create_cache_def Let_def alloc_ok_def cache_dir_prefix_def
        creation_history_def fresh_cache_def)
qed

lemma create_cache_mem_succeeds:
  assumes "alloc_ok os"
  shows "\<exists>s'. create_cache os None cap TO_MEM s = (Some (next_cache s), s')"
  using assms
  by (auto simp: create_cache_def create_cache_buffer_def Let_def alloc_ok_def set_cache_def
      split: option.splits)

lemma file_push_frame:
  fixes os :: os
  assumes "file_invar p s" "length d < 2 ^ 31"
  defines "s' \<equiv> snd (push_bytes os p d s)"
  shows "q \<noteq> p \<Longrightarrow> caches s' q = caches s q" and "next_cache s' = next_cache s"
    and "heap_wf s \<Longrightarrow> heap_wf s'"
proof -
  from assms(1) obtain c f st where c: "caches s p = Some c" and
    f: "wfp (p_priv c) = Some f" "streams s f = Some st" by (rule file_invarE)
  have n: "unat (of_nat (length d) :: u32) = length d"
    using assms(2) by (intro unat_of_nat_u32) simp
  note step = file_push_step [OF assms(1) c, of "of_nat (length d)" d os, unfolded n,
      OF order_refl assms(2)]
  show "q \<noteq> p \<Longrightarrow> caches s' q = caches s q" and "next_cache s' = next_cache s"
    using step by (auto simp: s'_def push_bytes_def)
  show "heap_wf s'" if "heap_wf s"
  proof -
    from that c f have "p < next_cache s" "f < next_fp s"
      by (auto simp: heap_wf_def not_le [symmetric])
    with step f that show ?thesis by (auto simp: s'_def push_bytes_def heap_wf_def)
  qed
qed

lemma create_cache_file_frame:
  assumes cap: "unat cap < 2 ^ 63"
    and ok: "create_cache os None cap TO_FILE s = (Some p, s')" and wf: "heap_wf s"
  shows "heap_wf s'"
  using create_cache_file_new [OF cap ok] wf
  by (elim exE, elim ssubst) (auto simp: heap_wf_def)

lemma mem_file_disjoint: "mem_invar p s \<Longrightarrow> file_invar q s \<Longrightarrow> p \<noteq> q"
  by (auto simp: mem_invar_def mem_ok_def file_invar_def file_ok_def split: option.splits)

lemma mem_views_cong:
  assumes "caches s' p = caches s p" "mem_invar p s"
  shows "mem_invar p s'" "cache_pending p s' = cache_pending p s"
  using assms
  by (auto simp: mem_invar_def cache_pending_def cache_content_def mem_ok_def split: option.splits)

subsection \<open>Properties of the component\<close>

text \<open>The cache operations and the units above them change nothing outside their own state.\<close>

lemma stdio_frame [frame_simps]:
  "stdio.more (snd (fopen_wb os f s)) = stdio.more s"
  "stdio.more (snd (fseek_set fp off s)) = stdio.more s"
  "stdio.more (snd (fwrite os bs fp s)) = stdio.more s"
  "stdio.more (snd (fread n fp s)) = stdio.more s"
  "stdio.more (fclose fp s) = stdio.more s"
  "stdio.more (remove_file f s) = stdio.more s"
  by (simp_all add: stdio_defs Let_def split: option.splits)

lemma cstate_of_stdio:
  assumes "stdio.more s' = stdio.more s"
  shows "cstate.more s' = cstate.more s"
  using assms by (cases s; cases s'; simp)

lemmas cstate_stdio = stdio_frame [THEN cstate_of_stdio]

lemma cstate_frame_cache [frame_simps]:
  "cstate.more (snd (create_cache_buffer os p s)) = cstate.more s"
  "cstate.more (snd (create_cache_file os p s)) = cstate.more s"
  "cstate.more (leave_cache q s) = cstate.more s"
  "cstate.more (delete_cache q s) = cstate.more s"
  "cstate.more (snd (cache_push os p d n s)) = cstate.more s"
  "cstate.more (snd (snd (cache_pop p sz s))) = cstate.more s"
  by (simp_all add: create_cache_buffer_def create_cache_file_def leave_cache_def delete_cache_def
      cache_push_def cache_pop_def set_cache_def Let_def case_prod_beta cstate_stdio split: option.splits)

lemma cstate_frame_create [frame_simps]:
  "cstate.more (snd (create_cache os d cap to s)) = cstate.more s"
  by (simp add: create_cache_def Let_def case_prod_beta cstate_frame_cache set_cache_def
      split: option.splits sum.splits storage_to.splits)

text \<open>Nor do they send anything on a socket.\<close>

lemma sent_on_stdio [frame_simps]:
  "sent_on k (trace (snd (fopen_wb os f s))) = sent_on k (trace s)"
  "sent_on k (trace (snd (fseek_set fp off s))) = sent_on k (trace s)"
  "sent_on k (trace (snd (fwrite os bs fp s))) = sent_on k (trace s)"
  "sent_on k (trace (fclose fp s)) = sent_on k (trace s)"
  "sent_on k (trace (snd (fread n fp s))) = sent_on k (trace s)"
  "trace (remove_file f s) = trace s"
  by (simp_all add: stdio_defs Let_def split: option.splits)

lemma sent_on_cache [frame_simps]:
  "sent_on k (trace (snd (create_cache_buffer os p s))) = sent_on k (trace s)"
  "sent_on k (trace (snd (create_cache_file os p s))) = sent_on k (trace s)"
  "sent_on k (trace (leave_cache q s)) = sent_on k (trace s)"
  "sent_on k (trace (delete_cache q s)) = sent_on k (trace s)"
  "sent_on k (trace (snd (cache_push os p d n s))) = sent_on k (trace s)"
  "sent_on k (trace (snd (snd (cache_pop p sz s)))) = sent_on k (trace s)"
  by (simp_all add: create_cache_buffer_def create_cache_file_def leave_cache_def delete_cache_def
      cache_push_def cache_pop_def set_cache_def Let_def case_prod_beta sent_on_stdio split: option.splits)

lemma sent_on_create [frame_simps]:
  "sent_on k (trace (snd (create_cache os d cap to s))) = sent_on k (trace s)"
  by (simp add: create_cache_def Let_def case_prod_beta sent_on_cache set_cache_def
      split: option.splits sum.splits storage_to.splits)

text \<open>
  C12. Round trip of a memory cache: create it for at least as many bytes as the chunks hold,
  push the chunks in any sizes, pop in any sizes that add up to enough: the bytes come back
  whole and in order, and no undefined behaviour is reached.
\<close>

theorem cache_mem_roundtrip:
  assumes new: "create_cache os None cap TO_MEM s = (Some p, s1)"
    and ds: "\<forall>d \<in> set ds. length d < 2 ^ 31" "length (concat ds) \<le> unat cap"
    and ns: "\<forall>n \<in> set ns. n < 2 ^ 31" "length (concat ds) \<le> sum_list ns"
  shows "fst (drain (pop_bytes p) ns (feed (push_bytes os p) ds s1)) = concat ds
    \<and> ub (snd (drain (pop_bytes p) ns (feed (push_bytes os p) ds s1))) = ub s"
proof
  note v = create_cache_mem_views [OF new]
  have inv: "mem_invar p (feed (push_bytes os p) ds s1)"
    using mem_queue.feed_invar [OF v(1) ds(1)] by blast
  have "cache_pending p (feed (push_bytes os p) ds s1) = concat ds"
    using mem_queue.feed_pending [OF v(1) ds(1)] v ds(2) by simp
  with mem_queue.drain_pending [OF inv ns(1)] ns(2)
  show "fst (drain (pop_bytes p) ns (feed (push_bytes os p) ds s1)) = concat ds" by simp
  show "ub (snd (drain (pop_bytes p) ns (feed (push_bytes os p) ds s1))) = ub s"
    using mem_feed_drain_ub inv v ds ns by metis
qed

lemma cache_mem_roundtrip_witness:
  "fst (drain (pop_bytes 0) [2, 5] (feed (push_bytes good_os 0) [[1, 2], [3]]
     (snd (create_cache good_os None 4 TO_MEM start_cstate)))) = [1, 2, 3]"
proof -
  have "create_cache good_os None 4 TO_MEM start_cstate =
      (Some 0, snd (create_cache good_os None 4 TO_MEM start_cstate))"
    by (simp add: create_cache_def create_cache_buffer_def start_cstate_def good_os_def
        set_cache_def Let_def)
  from cache_mem_roundtrip [OF this, of "[[1, 2], [3]]" "[2, 5]"] show ?thesis by simp
qed

text \<open>
  C25. A file cache on a disk that takes what it is given: after pushes of any sizes its file holds
  exactly the pushed bytes up to the capacity, it is full when they reach the capacity, and
  no undefined behaviour is reached; but no pop ever returns a byte of it, because the stream
  is open for writing only.
\<close>

theorem cache_file_stores_and_never_pops:
  assumes new: "create_cache os None cap TO_FILE s = (Some p, s1)" "unat cap < 2 ^ 63"
    and env: "disk_ok os" and ds: "\<forall>d \<in> set ds. length d < 2 ^ 31"
  shows "cache_content p (feed (push_bytes os p) ds s1) = take (unat cap) (concat ds)
    \<and> cache_full (Some p) (feed (push_bytes os p) ds s1) = (unat cap \<le> length (concat ds))
    \<and> ub (feed (push_bytes os p) ds s1) = ub s
    \<and> cache_pop p n (feed (push_bytes os p) ds s1) = (0, [], feed (push_bytes os p) ds s1)"
proof -
  note v = create_cache_file_views [OF new(2,1)]
  have inv: "file_invar p (feed (push_bytes os p) ds s1)"
    "cache_cap p (feed (push_bytes os p) ds s1) = unat cap"
    using file_sink.feed_invar [OF v(1) ds] v(3) by simp_all
  moreover have "cache_content p (feed (push_bytes os p) ds s1) = take (unat cap) (concat ds)"
    using file_eager.feed_content [of p s1 os ds] v(1-3) env ds by simp
  ultimately show ?thesis
    using file_full_iff [OF inv(1)] file_pop_unchanged [OF inv(1)] file_feed_ub [OF v(1) ds] v(4)
    by (auto simp: min_def)
qed

theorem cache_file_stores_and_never_pops_witness:
  "\<exists>s1. create_cache good_os None 2 TO_FILE start_cstate = (Some 0, s1)
    \<and> cache_content 0 (feed (push_bytes good_os 0) [[1], [2, 3]] s1) = [1, 2]
    \<and> fst (cache_pop 0 4096 (feed (push_bytes good_os 0) [[1], [2, 3]] s1)) = 0"
proof -
  obtain s1 where new: "create_cache good_os None 2 TO_FILE start_cstate = (Some 0, s1)"
    using create_cache_file_succeeds [OF good_os_ok, of 2 start_cstate] by (auto simp: start_cstate_def)
  from cache_file_stores_and_never_pops [OF new _ good_os_ok(1), of "[[1], [2, 3]]"] new show ?thesis
    by simp
qed

text \<open>
  C26. Where a new cache lives: in memory for \<open>TO_MEM\<close> and for \<open>TO_AUTO\<close> up to
  \<open>MEMORY_CACHE_LEN\<close>, in a file otherwise. It is empty and has the requested capacity.
\<close>

theorem create_cache_backing:
  assumes env: "disk_ok os" "alloc_ok os" and cap: "unat cap < 2 ^ 63"
  shows "\<exists>s'. create_cache os None cap to s = (Some (next_cache s), s') \<and> ub s' = ub s
    \<and> (if to = TO_MEM \<or> to = TO_AUTO \<and> cap \<le> MEMORY_CACHE_LEN
       then mem_invar (next_cache s) s' else file_invar (next_cache s) s')
    \<and> cache_content (next_cache s) s' = [] \<and> cache_cap (next_cache s) s' = unat cap"
proof -
  let ?mem = "to = TO_MEM \<or> to = TO_AUTO \<and> cap \<le> MEMORY_CACHE_LEN"
  have eq: "create_cache os None cap to s = create_cache os None cap (if ?mem then TO_MEM else TO_FILE) s"
    by (cases to) (auto simp: create_cache_def Let_def not_le)
  obtain s1 where m: "create_cache os None cap TO_MEM s = (Some (next_cache s), s1)"
    using create_cache_mem_succeeds [OF env(2)] by blast
  obtain s2 where f: "create_cache os None cap TO_FILE s = (Some (next_cache s), s2)"
    using create_cache_file_succeeds [OF env] by blast
  show ?thesis
  proof (cases ?mem)
    case True
    with create_cache_mem_views [OF m] show ?thesis unfolding eq using m by auto
  next
    case False
    with create_cache_file_views [OF cap f] show ?thesis unfolding eq using f by auto
  qed
qed

theorem create_cache_backing_witness:
  "\<exists>s'. create_cache good_os None 2000000 TO_AUTO start_cstate = (Some 0, s') \<and> file_invar 0 s'
    \<and> cache_cap 0 s' = 2000000"
  using create_cache_backing [OF good_os_ok, of 2000000 TO_AUTO start_cstate]
  by (auto simp: MEMORY_CACHE_LEN_def start_cstate_def)

lemma create_cache_file_fields:
  assumes "unat cap < 2 ^ 63" "create_cache os None cap TO_FILE s = (Some p, s')"
    and "\<forall>h. os_gettimeofday os h = now"
  defines "pth \<equiv> cache_path ''.'' now"
  obtains j where "files s' = (files s)(pth \<mapsto> write_at (unat cap - 1) [j] [])"
    "caches s' = (caches s)(p \<mapsto> fresh_cache pth None cap (Some (next_fp s)))"
    "next_cache s' = Suc (next_cache s)"
proof -
  obtain j where eq: "s' = s\<lparr>trace := trace s', errno := errno s',
      files := (files s)(pth \<mapsto> write_at (unat cap - 1) [j] []),
      streams := (streams s)(next_fp s \<mapsto> \<lparr>st_path = pth, st_pos = 0\<rparr>),
      next_fp := Suc (next_fp s),
      caches := (caches s)(p \<mapsto> fresh_cache pth None cap (Some (next_fp s))),
      next_cache := Suc (next_cache s)\<rparr>"
    using create_cache_file_new(2) [OF assms(1,2)] assms(3) unfolding pth_def by metis
  show ?thesis by (rule that [of j]) (subst eq, simp)+
qed

text \<open>
  C35. Two file caches created within the same microsecond get the same path, and the second
  truncates the file of the first: the bytes the first had taken are gone.
\<close>

theorem cache_file_collision:
  assumes clock: "\<forall>h. os_gettimeofday os h = now" and env: "disk_ok os" "alloc_ok os"
    and cap: "unat cap < 2 ^ 63" "1 < unat cap" and b: "b \<noteq> 0"
  shows "\<exists>p q s1 s2. create_cache os None cap TO_FILE s = (Some p, s1)
    \<and> create_cache os None cap TO_FILE (snd (push_bytes os p [b] s1)) = (Some q, s2)
    \<and> cache_content p (snd (push_bytes os p [b] s1)) = [b] \<and> cache_content p s2 \<noteq> [b]"
proof -
  obtain s1 where one: "create_cache os None cap TO_FILE s = (Some (next_cache s), s1)"
    using create_cache_file_succeeds [OF env] by blast
  let ?p = "next_cache s" and ?s = "snd (push_bytes os (next_cache s) [b] s1)"
  obtain s2 where two: "create_cache os None cap TO_FILE ?s = (Some (next_cache ?s), s2)"
    using create_cache_file_succeeds [OF env] by blast
  note v = create_cache_file_views [OF cap(1) one]
  have got: "fst (push_bytes os ?p [b] s1) = 1"
    using file_push_eager [OF v(1) _ env(1), of "[b]"] v(2,3) cap(2) by simp
  have content: "cache_content ?p ?s = [b]"
    using file_sink.push_content [OF v(1), of "[b]" os] v(2) got by simp
  let ?pth = "cache_path ''.'' now"
  define c where "c = fresh_cache ?pth None cap (Some (next_fp s))"
  obtain j1 where f1: "caches s1 = (caches s)(?p \<mapsto> c)" "next_cache s1 = Suc ?p"
    unfolding c_def by (rule create_cache_file_fields [OF cap(1) one clock])
  have c: "caches s1 ?p = Some c" "buf c = None" "path c = ?pth" "widx (p_priv c) = 0"
    using f1(1) by (simp_all add: c_def fresh_cache_def)
  have nx: "next_cache ?s = Suc ?p" using file_push_frame(2) [OF v(1), of "[b]" os] f1(2) by simp
  obtain pr where pr: "caches ?s ?p = Some (c\<lparr>p_priv := pr\<rparr>)" "unat (widx pr) = 1"
    using file_push_step [OF v(1) c(1), of 1 "[b]" os] got c(4) by (auto simp: push_bytes_def)
  obtain j where f2: "files s2 = (files ?s)(?pth \<mapsto> write_at (unat cap - 1) [j] [])"
    "caches s2 = (caches ?s)(next_cache ?s \<mapsto> fresh_cache ?pth None cap (Some (next_fp ?s)))"
    by (rule create_cache_file_fields [OF cap(1) two clock])
  have s2: "files s2 ?pth = Some (write_at (unat cap - 1) [j] [])" "caches s2 ?p = caches ?s ?p"
    using f2 nx by simp_all
  have "cache_content ?p s2 = [0]"
    using s2 pr c(2,3) cap(2) by (simp add: cache_content_def write_at_def take_Cons')
  then have "cache_content ?p s2 \<noteq> [b]" using b by simp
  with content one two show ?thesis by (intro exI conjI)
qed

theorem cache_file_collision_witness:
  "\<exists>p q s1 s2. create_cache (good_os\<lparr>os_gettimeofday := \<lambda>h. (1, 2)\<rparr>) None 2 TO_FILE start_cstate = (Some p, s1)
    \<and> create_cache (good_os\<lparr>os_gettimeofday := \<lambda>h. (1, 2)\<rparr>) None 2 TO_FILE
        (snd (push_bytes (good_os\<lparr>os_gettimeofday := \<lambda>h. (1, 2)\<rparr>) p [7] s1)) = (Some q, s2)
    \<and> cache_content p s2 \<noteq> [7]"
proof -
  let ?os = "good_os\<lparr>os_gettimeofday := \<lambda>h. (1, 2)\<rparr>"
  have "\<forall>h. os_gettimeofday ?os h = (1, 2)" "disk_ok ?os" "alloc_ok ?os"
    by (simp_all add: disk_ok_def alloc_ok_def good_os_def)
  from cache_file_collision [OF this, of 2 7 start_cstate] show ?thesis by auto
qed

end
