(* ===== verification/Interface.thy ===== *)
theory Interface
  imports Ferry_Prelude
begin

text \<open>
  \<^bold>\<open>inc/interface.h\<close>: the packed message header and the result codes of a response. A
  message is a header of eight bytes, both fields in network byte order, and a value of
  \<open>length\<close> bytes. \<open>header_bytes\<close> is the memory of a \<open>Header\<close> (two little-endian integers, no
  padding), \<open>net_header\<close> what goes over the wire.
\<close>

record Header =
  hdr_id :: u32
  hdr_length :: u32

definition sizeof_Header :: int where "sizeof_Header = 8"

datatype State = OK | DATA_ERROR | CONNECTION_ERROR | INTERNAL_ERROR

fun state_code :: "State \<Rightarrow> u32" where
  "state_code OK = 0"
| "state_code DATA_ERROR = 1"
| "state_code CONNECTION_ERROR = 2"
| "state_code INTERNAL_ERROR = 3"

definition sizeof_State :: u32 where "sizeof_State = 4"

text \<open>The memory of a header and of a state, and a header read from memory.\<close>

definition header_bytes :: "Header \<Rightarrow> byte list" where
  "header_bytes h = le32 (hdr_id h) @ le32 (hdr_length h)"

definition header_of_bytes :: "byte list \<Rightarrow> Header" where
  "header_of_bytes bs = \<lparr>hdr_id = un_le32 bs, hdr_length = un_le32 (drop 4 bs)\<rparr>"

definition state_bytes :: "State \<Rightarrow> byte list" where
  "state_bytes st = le32 (state_code st)"

text \<open>The specification of the wire format.\<close>

definition be32 :: "u32 \<Rightarrow> byte list" where
  "be32 w = rev (le32 w)"

definition net_header :: "u32 \<Rightarrow> u32 \<Rightarrow> byte list" where
  "net_header i n = be32 i @ be32 n"

definition message :: "u32 \<Rightarrow> byte list \<Rightarrow> byte list" where
  "message i body = net_header i (of_nat (length body)) @ body"

lemma length_header_bytes [simp]: "length (header_bytes h) = 8"
  by (simp add: header_bytes_def)

lemma length_be32 [simp]: "length (be32 w) = 4"
  by (simp add: be32_def)

lemma length_net_header [simp]: "length (net_header i n) = 8"
  by (simp add: net_header_def)

lemma length_state_bytes [simp]: "length (state_bytes st) = 4"
  by (simp add: state_bytes_def)

lemma header_of_bytes_inverse [simp, wire_simps]: "header_of_bytes (header_bytes h @ r) = h"
  by (cases h) (simp add: header_of_bytes_def header_bytes_def)

lemma header_bytes_inverse [wire_simps]:
  assumes "length bs = 8"
  shows "header_bytes (header_of_bytes bs) = bs"
proof -
  obtain a b where "bs = a @ b" "length a = 4" "length b = 4"
    using assms by (intro that [of "take 4 bs" "drop 4 bs"]) simp_all
  moreover from this have "un_le32 (a @ b) = un_le32 a"
    using un_le32_le32 [of "un_le32 a" b] by (simp add: le32_un_le32)
  ultimately show ?thesis
    by (simp add: header_bytes_def header_of_bytes_def le32_un_le32)
qed

lemma net_header_host [wire_simps]:
  "net_header i n = header_bytes \<lparr>hdr_id = htonl i, hdr_length = htonl n\<rparr>"
  by (simp add: net_header_def be32_def header_bytes_def le32_htonl)

lemma take_header:
  assumes "8 \<le> length inp"
  shows "take 8 inp = net_header (ntohl (un_le32 inp)) (ntohl (un_le32 (drop 4 inp)))"
proof -
  have "header_of_bytes (take 8 inp) = header_of_bytes inp"
    by (simp add: header_of_bytes_def un_le32_take drop_take)
  moreover have "header_bytes (header_of_bytes (take 8 inp)) = take 8 inp"
    using assms by (intro header_bytes_inverse) simp
  ultimately show ?thesis
    by (simp add: net_header_host header_of_bytes_def)
qed

lemma state_code_inj [simp]: "state_code a = state_code b \<longleftrightarrow> a = b"
  by (cases a; cases b) simp_all

end
