(* ===== verification/Hv.thy ===== *)
theory Hv
  imports Cache_Part Interface
begin

text \<open>
  \<^bold>\<open>inc/HV.h\<close>, \<^bold>\<open>src/hv.cpp\<close>: the header-value unit that reassembles a request from the byte
  stream and holds a response on its way out. The constructor leaves \<open>to\<close> and the header
  uninitialised, so their contents are arguments of \<open>HV_new\<close>.

  \<open>write_head\<close> copies to \<open>&this->header + this->hlen\<close>: the pointer has type \<open>Header *\<close>, so the
  address lies \<open>8 * hlen\<close> bytes after the header and the copy stays inside it only when
  \<open>hlen\<close> is 0. Any other copy is recorded as \<open>OutOfBounds\<close>. It lands on what the compiler placed
  behind the header (the pointer \<open>value\<close>, \<open>hlen\<close>, the flags, the members of the object that
  contains the unit), so the unit it leaves is one the environment chooses: whatever is proved of a
  run that splits a header holds for every damage the copy can do.
\<close>

definition DEFAULT_MAX_MEMORY_CACHE :: u32 where "DEFAULT_MAX_MEMORY_CACHE = 1024"

record HV =
  hv_to :: storage_to
  hv_header :: Header
  hv_value :: "nat option"
  hlen :: int
  head_complete :: bool
  vlen :: u32
  value_complete :: bool

definition HV_new :: "storage_to \<Rightarrow> Header \<Rightarrow> HV" where
  "HV_new to h =
     \<lparr>hv_to = to, hv_header = h, hv_value = None, hlen = 0, head_complete = False, vlen = 0,
      value_complete = False\<rparr>"

definition HV_clear :: "HV \<Rightarrow> 'a cstate_scheme \<Rightarrow> HV \<times> 'a cstate_scheme" where
  "HV_clear hv s =
     (let hv = hv\<lparr>hlen := 0, vlen := 0, head_complete := False, value_complete := False\<rparr> in
      if hv_to hv = TO_FILE \<or> hv_to hv = TO_SHM then
        (case hv_value hv of
           None \<Rightarrow> (hv, s)
         | Some p \<Rightarrow> (hv\<lparr>hv_value := None\<rparr>, leave_cache (Some p) s))
      else (hv, s))"

definition HV_is_value_complete :: "HV \<Rightarrow> bool" where
  "HV_is_value_complete hv = value_complete hv"

definition HV_is_head_complete :: "HV \<Rightarrow> bool" where
  "HV_is_head_complete hv = head_complete hv"

definition HV_is_complete :: "HV \<Rightarrow> bool" where
  "HV_is_complete hv = (HV_is_head_complete hv \<and> HV_is_value_complete hv)"

definition HV_head_completed :: "HV \<Rightarrow> HV" where
  "HV_head_completed hv =
     (if head_complete hv = False then
        (let hv = hv\<lparr>head_complete := True,
                     hv_header := \<lparr>hdr_id = ntohl (hdr_id (hv_header hv)),
                                   hdr_length = ntohl (hdr_length (hv_header hv))\<rparr>\<rparr>
         in if hdr_length (hv_header hv) < DEFAULT_MAX_MEMORY_CACHE
            then hv\<lparr>hv_to := TO_MEM\<rparr> else hv\<lparr>hv_to := TO_FILE\<rparr>)
      else hv)"

definition HV_value_completed :: "HV \<Rightarrow> HV" where
  "HV_value_completed hv =
     (if value_complete hv = False then hv\<lparr>value_complete := True\<rparr> else hv)"

text \<open>The values of \<open>storage_to\<close> by number, for members that were never initialised.\<close>

definition storage_of_byte :: "byte \<Rightarrow> storage_to" where
  "storage_of_byte b =
     (if b = 0 then TO_AUTO else if b = 1 then TO_MEM else if b = 2 then TO_SHM else TO_FILE)"

text \<open>A unit whose memory was overwritten: every field is what the environment says.\<close>

definition wild_HV :: "os \<Rightarrow> 'a sys_scheme \<Rightarrow> nat \<Rightarrow> HV" where
  "wild_HV os s j =
     (let w = os_wild os (trace s) (ub s) j in
      \<lparr>hv_to = storage_of_byte (of_nat (w 0)),
       hv_header = \<lparr>hdr_id = of_nat (w 1), hdr_length = of_nat (w 2)\<rparr>,
       hv_value = (if w 3 = 0 then None else Some (w 3 - 1)),
       hlen = int_of_u32 (of_nat (w 4)), head_complete = (w 5 \<noteq> 0), vlen = of_nat (w 6),
       value_complete = (w 7 \<noteq> 0)\<rparr>)"

text \<open>\<open>memcpy(&this->header + this->hlen, p_data, wlen)\<close>.\<close>

definition memcpy_header :: "os \<Rightarrow> HV \<Rightarrow> byte list \<Rightarrow> 'a sys_scheme \<Rightarrow> HV \<times> 'a sys_scheme" where
  "memcpy_header os hv src s =
     (let off = hlen hv * sizeof_Header in
      if 0 \<le> off \<and> in_block (nat off) (length src) (header_bytes (hv_header hv))
      then (hv\<lparr>hv_header := header_of_bytes (overwrite (nat off) src (header_bytes (hv_header hv)))\<rparr>, s)
      else (wild_HV os s 0, fault OutOfBounds s))"

definition HV_write_head ::
  "os \<Rightarrow> HV \<Rightarrow> byte list option \<Rightarrow> int \<Rightarrow> 'a sys_scheme \<Rightarrow> int \<times> HV \<times> 'a sys_scheme"
where
  "HV_write_head os hv p_data data_len s =
     (case p_data of
        None \<Rightarrow> (0, hv, s)
      | Some d \<Rightarrow>
          if data_len \<le> 0 then (0, hv, s)
          else if hlen hv < sizeof_Header then
            (let wlen = sizeof_Header - hlen hv;
                 wlen = (if wlen > data_len then data_len else wlen);
                 s = (if in_block 0 (nat wlen) d then s else fault OutOfBounds s);
                 (hv, s) = memcpy_header os hv (take (nat wlen) d) s;
                 hv = hv\<lparr>hlen := hlen hv + wlen\<rparr>;
                 hv = (if hlen hv = sizeof_Header then HV_head_completed hv else hv)
             in (wlen, hv, s))
          else (0, hv, s))"

definition HV_write_value ::
  "os \<Rightarrow> HV \<Rightarrow> byte list option \<Rightarrow> int \<Rightarrow> 'a cstate_scheme \<Rightarrow> int \<times> HV \<times> 'a cstate_scheme"
where
  "HV_write_value os hv p_data data_len s =
     (case p_data of
        None \<Rightarrow> (0, hv, s)
      | Some d \<Rightarrow>
          if data_len \<le> 0 then (0, hv, s)
          else if HV_is_head_complete hv = False then (0, hv, s)
          else
            (let (hv, s) =
               (case hv_value hv of
                  Some p \<Rightarrow> (hv, s)
                | None \<Rightarrow>
                    (let (q, s) = create_cache os None (ucast (hdr_length (hv_header hv))) TO_FILE s
                     in (hv\<lparr>hv_value := q\<rparr>, s)))
             in case hv_value hv of
                  None \<Rightarrow> (-1, hv, s)
                | Some p \<Rightarrow>
                    (let (ret, s) = cache_push os p d (u32_of_int data_len) s;
                         wlen = u32_of_int ret;
                         hv = (if cache_full (Some p) s then HV_value_completed hv else hv)
                     in (int_of_u32 wlen, hv, s))))"

definition HV_write ::
  "os \<Rightarrow> HV \<Rightarrow> byte list option \<Rightarrow> int \<Rightarrow> 'a cstate_scheme \<Rightarrow> int \<times> HV \<times> 'a cstate_scheme"
where
  "HV_write os hv p_data data_len s =
     (let (ret, hv, s) = HV_write_head os hv p_data data_len s in
      if ret = -1 then (-1, hv, s)
      else
        (let offset = ret;
             (ret, hv, s) =
               HV_write_value os hv (map_option (drop (nat offset)) p_data) (data_len - offset) s
         in if ret = -1 then (-1, hv, s) else (offset + ret, hv, s)))"

text \<open>The overload that fills a response: header in network order, value in memory.\<close>

definition HV_write_message ::
  "os \<Rightarrow> HV \<Rightarrow> Header option \<Rightarrow> byte list option \<Rightarrow> 'a cstate_scheme \<Rightarrow> int \<times> HV \<times> 'a cstate_scheme"
where
  "HV_write_message os hv header value s =
     (let hv = (case header of
                  None \<Rightarrow> hv
                | Some h \<Rightarrow> hv\<lparr>hv_header := \<lparr>hdr_id = htonl (hdr_id h), hdr_length = htonl (hdr_length h)\<rparr>\<rparr>)
      in case value of
           None \<Rightarrow> (0, hv, s)
         | Some v \<Rightarrow>
             (let s = (case hv_value hv of
                         None \<Rightarrow> s
                       | Some p \<Rightarrow> leave_cache (Some p) (delete_cache (Some p) s));
                  hv = hv\<lparr>hv_value := None\<rparr>
              in case header of
                   None \<Rightarrow> (-1, hv, fault NullDeref s)
                 | Some h \<Rightarrow>
                     (let (q, s) = create_cache os None (ucast (hdr_length h)) TO_MEM s in
                      case q of
                        None \<Rightarrow> (-1, hv, s)
                      | Some p \<Rightarrow>
                          (let (n, s) = cache_push os p v (hdr_length h) s in
                           if size_of_int n \<noteq> ucast (hdr_length h)
                           then (-1, hv, leave_cache (Some p) (delete_cache (Some p) s))
                           else (0, hv\<lparr>hv_value := Some p\<rparr>, s)))))"

subsection \<open>Well-formed units\<close>

definition hv_inv :: "HV \<Rightarrow> bool" where
  "hv_inv hv =
     (0 \<le> hlen hv \<and> hlen hv \<le> sizeof_Header \<and> (head_complete hv \<longleftrightarrow> hlen hv = sizeof_Header) \<and>
      (value_complete hv \<longrightarrow> head_complete hv))"

text \<open>
  A unit that holds no part of a header: the next message starts at the start of the header, or
  the header is whole. From here \<open>write_head\<close> copies inside the header.
\<close>

definition hv_aligned :: "HV \<Rightarrow> bool" where
  "hv_aligned hv = (hlen hv = 0 \<or> hlen hv = sizeof_Header)"

text \<open>
  A unit that has its header and the first bytes \<open>got\<close> of the value, and one that has taken
  its whole value. The value is in a file cache; before its first byte there is none.
\<close>

definition hv_reading :: "HV \<Rightarrow> 'a cstate_scheme \<Rightarrow> byte list \<Rightarrow> bool" where
  "hv_reading hv s got =
     (hlen hv = sizeof_Header \<and> head_complete hv \<and> \<not> value_complete hv \<and>
      length got < unat (hdr_length (hv_header hv)) \<and>
      (case hv_value hv of
         None \<Rightarrow> got = []
       | Some p \<Rightarrow> file_invar p s \<and> cache_cap p s = unat (hdr_length (hv_header hv)) \<and>
                   cache_content p s = got))"

definition hv_received :: "HV \<Rightarrow> 'a cstate_scheme \<Rightarrow> byte list \<Rightarrow> bool" where
  "hv_received hv s body =
     (hlen hv = sizeof_Header \<and> HV_is_complete hv \<and>
      length body = unat (hdr_length (hv_header hv)) \<and>
      (case hv_value hv of
         None \<Rightarrow> False
       | Some p \<Rightarrow> file_invar p s \<and> cache_cap p s = unat (hdr_length (hv_header hv)) \<and>
                   cache_content p s = body))"

lemmas hv_status = HV_is_complete_def HV_is_head_complete_def HV_is_value_complete_def

lemma HV_write_head_done [simp]:
  "hlen hv = sizeof_Header \<Longrightarrow> HV_write_head os hv q n s = (0, hv, s)"
  by (auto simp: HV_write_head_def split: option.splits)

lemma HV_write_head_whole:
  assumes "hlen hv = 0" "\<not> head_complete hv" "d = net_header i n @ r"
  shows "HV_write_head os hv (Some d) (int (length d)) s =
    (8, hv\<lparr>hv_header := \<lparr>hdr_id = i, hdr_length = n\<rparr>, hlen := 8, head_complete := True,
           hv_to := (if n < DEFAULT_MAX_MEMORY_CACHE then TO_MEM else TO_FILE)\<rparr>, s)"
  using assms
  by (simp add: HV_write_head_def memcpy_header_def in_block_def sizeof_Header_def Let_def
      overwrite_0 net_header_host HV_head_completed_def header_of_bytes_inverse [of _ "[]", simplified])

lemma u32_of_int_of_nat [simp]: "u32_of_int (int k) = of_nat k"
  by (simp add: u32_of_int_def)

lemma int_of_u32_of_nat: "k < 2 ^ 31 \<Longrightarrow> int_of_u32 (of_nat k) = int k"
  using int_of_u32_u32_of_int [of "int k"] by simp

text \<open>One write of value bytes into a unit that already has its cache.\<close>

lemma HV_write_value_cached:
  assumes hv: "head_complete hv" "hv_value hv = Some p"
    and inv: "file_invar p s" and d: "d \<noteq> []" "length d < 2 ^ 31"
  shows "HV_write_value os hv (Some d) (int (length d)) s =
    (int (fst (push_bytes os p d s)),
     (if cache_full (Some p) (snd (push_bytes os p d s)) then HV_value_completed hv else hv),
     snd (push_bytes os p d s))"
proof -
  have "fst (push_bytes os p d s) < 2 ^ 31"
    using file_sink.push_bound [OF inv d(2), of os] d(2) by simp
  then show ?thesis
    using hv d by (simp add: HV_write_value_def HV_is_head_complete_def file_push_ret [OF inv d(2)]
        int_of_u32_of_nat)
qed

text \<open>\<open>write_value\<close> works on a file cache for the body, which the first call creates.\<close>

lemma HV_value_cache:
  assumes rd: "hv_reading hv s got" and d: "d \<noteq> []" and env: "disk_ok os" "alloc_ok os"
  obtains s1 p where "file_invar p s1" "cache_cap p s1 = unat (hdr_length (hv_header hv))"
      "cache_content p s1 = got" "ub s1 = ub s" "heap_wf s \<Longrightarrow> heap_wf s1"
      "\<And>q. heap_wf s \<Longrightarrow> mem_invar q s \<Longrightarrow> caches s1 q = caches s q"
      "HV_write_value os hv (Some d) (int (length d)) s =
        HV_write_value os (hv\<lparr>hv_value := Some p\<rparr>) (Some d) (int (length d)) s1"
proof (cases "hv_value hv")
  case None
  obtain s1 where cr: "create_cache os None (ucast (hdr_length (hv_header hv))) TO_FILE s = (Some (next_cache s), s1)"
    using create_cache_file_succeeds [OF env] by blast
  have "unat (ucast (hdr_length (hv_header hv)) :: size_t) < 2 ^ 63"
    using unat_bound [of "hdr_length (hv_header hv)"] by simp
  note v = create_cache_file_views [OF this cr] and fr = create_cache_file_frame [OF this cr]
  have "heap_wf s \<Longrightarrow> mem_invar q s \<Longrightarrow> q \<noteq> next_cache s" for q
    by (auto simp: heap_wf_def mem_invar_def)
  with v fr have "\<And>q. heap_wf s \<Longrightarrow> mem_invar q s \<Longrightarrow> caches s1 q = caches s q" by blast
  then show ?thesis
    using rd None v fr cr d
    by (intro that [of "next_cache s" s1]) (simp_all add: hv_reading_def HV_write_value_def HV_is_head_complete_def)
next
  case (Some p)
  then have "hv\<lparr>hv_value := Some p\<rparr> = hv" by simp
  note this [simp]
  show ?thesis using rd Some by (intro that [of p s]) (simp_all add: hv_reading_def)
qed

lemma HV_write_value_step:
  assumes rd: "hv_reading hv s got" and d: "d \<noteq> []" "length d < 2 ^ 31"
    and env: "disk_ok os" "alloc_ok os"
  defines "k \<equiv> min (length d) (unat (hdr_length (hv_header hv)) - length got)"
  shows "\<exists>hv' s'. HV_write_value os hv (Some d) (int (length d)) s = (int k, hv', s')
    \<and> hv_header hv' = hv_header hv \<and> hv_to hv' = hv_to hv \<and> ub s' = ub s
    \<and> (if length got + k = unat (hdr_length (hv_header hv))
       then hv_received hv' s' (got @ take k d) else hv_reading hv' s' (got @ take k d))
    \<and> (heap_wf s \<longrightarrow> heap_wf s' \<and> (\<forall>q. mem_invar q s \<longrightarrow> caches s' q = caches s q))"
proof -
  let ?n = "unat (hdr_length (hv_header hv))"
  obtain s1 p where one: "file_invar p s1" "cache_cap p s1 = ?n" "cache_content p s1 = got" "ub s1 = ub s"
    and fr1: "heap_wf s \<Longrightarrow> heap_wf s1" "\<And>q. heap_wf s \<Longrightarrow> mem_invar q s \<Longrightarrow> caches s1 q = caches s q"
    and eq: "HV_write_value os hv (Some d) (int (length d)) s =
      HV_write_value os (hv\<lparr>hv_value := Some p\<rparr>) (Some d) (int (length d)) s1"
    by (rule HV_value_cache [OF rd d(1) env]) blast
  have fr2: "heap_wf s \<Longrightarrow> heap_wf (snd (push_bytes os p d s1))"
    using file_push_frame(3) [OF one(1) d(2)] fr1(1) by blast
  have fr3: "caches (snd (push_bytes os p d s1)) q = caches s q" if "heap_wf s" "mem_invar q s" for q
    using mem_file_disjoint [OF mem_views_cong(1) [OF fr1(2) [OF that] that(2)] one(1)]
      file_push_frame(1) [OF one(1) d(2)] fr1(2) [OF that] by simp
  have hd: "head_complete (hv\<lparr>hv_value := Some p\<rparr>)" using rd by (simp add: hv_reading_def)
  note w = HV_write_value_cached [OF hd _ one(1) d, of os, simplified]
  have k: "fst (push_bytes os p d s1) = k"
    using file_push_eager [OF one(1) d(2) env(1)] one(2,3) by (simp add: k_def)
  have got: "cache_content p (snd (push_bytes os p d s1)) = got @ take k d"
    using file_sink.push_content [OF one(1) d(2), of os] one(3) k by simp
  have inv: "file_invar p (snd (push_bytes os p d s1))"
    "cache_cap p (snd (push_bytes os p d s1)) = ?n"
    using file_sink.push_invar [OF one(1) d(2), of os] file_sink.push_cap [OF one(1) d(2), of os] one(2)
    by simp_all
  have full: "cache_full (Some p) (snd (push_bytes os p d s1)) \<longleftrightarrow> length got + k = ?n"
    using file_full_iff [OF inv(1)] got inv(2) by (simp add: k_def)
  have ub: "ub (snd (push_bytes os p d s1)) = ub s"
    using file_push_ub [OF one(1) d(2)] one(4) by simp
  have le: "length got + k \<le> ?n" using rd by (auto simp: k_def hv_reading_def)
  have lk: "length (take k d) = k" by (simp add: k_def)
  show ?thesis
    unfolding eq w k
    using rd one got inv full ub le lk fr2 fr3
    by (auto simp: hv_reading_def hv_received_def hv_status HV_value_completed_def)
qed

lemma HV_write_reading:
  assumes "hlen hv = sizeof_Header"
  shows "HV_write os hv (Some d) n s = HV_write_value os hv (Some d) n s"
  using assms by (auto simp: HV_write_def split: prod.splits)

text \<open>A buffer that starts with a whole header, into a unit that is empty.\<close>

lemma HV_write_first:
  assumes hv: "hlen hv = 0" "\<not> head_complete hv" "\<not> value_complete hv" "hv_value hv = None"
    and d: "d = net_header i n @ r" "length d < 2 ^ 31" and n: "0 < unat n"
    and env: "disk_ok os" "alloc_ok os"
  defines "k \<equiv> min (length r) (unat n)"
  shows "\<exists>hv' s'. HV_write os hv (Some d) (int (length d)) s = (8 + int k, hv', s')
    \<and> hv_header hv' = \<lparr>hdr_id = i, hdr_length = n\<rparr>
    \<and> hv_to hv' = (if n < DEFAULT_MAX_MEMORY_CACHE then TO_MEM else TO_FILE) \<and> ub s' = ub s
    \<and> (if k = unat n then hv_received hv' s' (take k r) else hv_reading hv' s' (take k r))
    \<and> (heap_wf s \<longrightarrow> heap_wf s' \<and> (\<forall>q. mem_invar q s \<longrightarrow> caches s' q = caches s q))"
proof -
  define hv1 where "hv1 = hv\<lparr>hv_header := \<lparr>hdr_id = i, hdr_length = n\<rparr>, hlen := 8,
      head_complete := True,
      hv_to := (if n < DEFAULT_MAX_MEMORY_CACHE then TO_MEM else TO_FILE)\<rparr>"
  have rd: "hv_reading hv1 s []"
    using hv n by (simp add: hv1_def hv_reading_def sizeof_Header_def)
  have flds: "hv_header hv1 = \<lparr>hdr_id = i, hdr_length = n\<rparr>"
    "hv_to hv1 = (if n < DEFAULT_MAX_MEMORY_CACHE then TO_MEM else TO_FILE)"
    by (simp_all add: hv1_def)
  have head: "HV_write_head os hv (Some d) (int (length d)) s = (8, hv1, s)"
    unfolding hv1_def by (rule HV_write_head_whole [OF hv(1,2) d(1)])
  have rest: "drop 8 d = r" "int (length d) - 8 = int (length r)" by (simp_all add: d(1))
  show ?thesis
  proof (cases "r = []")
    case True
    then have "HV_write_value os hv1 (Some r) (int (length r)) s = (0, hv1, s)"
      by (simp add: HV_write_value_def)
    with head rest rd flds True n show ?thesis by (simp add: HV_write_def k_def)
  next
    case False
    have "length r < 2 ^ 31" using d by simp
    moreover have "min (length r) (unat (hdr_length (hv_header hv1)) - length []) = k"
      by (simp add: flds k_def)
    ultimately obtain hv' s' where
      "HV_write_value os hv1 (Some r) (int (length r)) s = (int k, hv', s')"
      "hv_header hv' = hv_header hv1" "hv_to hv' = hv_to hv1" "ub s' = ub s"
      "if k = unat n then hv_received hv' s' (take k r) else hv_reading hv' s' (take k r)"
      "heap_wf s \<longrightarrow> heap_wf s' \<and> (\<forall>q. mem_invar q s \<longrightarrow> caches s' q = caches s q)"
      using HV_write_value_step [OF rd False _ env] by (auto simp: flds cong: if_cong)
    with head rest flds show ?thesis by (simp add: HV_write_def)
  qed
qed

text \<open>Clearing a large unit closes its file and leaves an empty unit.\<close>

lemma HV_clear_large:
  assumes "hv_to hv = TO_FILE" "hv_value hv = Some p" "file_invar p s"
  shows "\<exists>f. HV_clear hv s =
    (hv\<lparr>hlen := 0, vlen := 0, head_complete := False, value_complete := False, hv_value := None\<rparr>,
     s\<lparr>streams := (streams s)(f := None), caches := (caches s)(p := None)\<rparr>)"
proof -
  from assms(3) obtain c f st where "caches s p = Some c" "wfp (p_priv c) = Some f"
    "streams s f = Some st"
    by (rule file_invarE)
  then show ?thesis
    using assms by (intro exI [of _ f]) (simp add: HV_clear_def leave_cache_def fclose_def Let_def)
qed

text \<open>Clearing a small unit keeps its cache.\<close>

lemma HV_clear_small:
  assumes "hv_to hv = TO_MEM \<or> hv_to hv = TO_AUTO"
  shows "HV_clear hv s =
    (hv\<lparr>hlen := 0, vlen := 0, head_complete := False, value_complete := False\<rparr>, s)"
  using assms by (auto simp: HV_clear_def Let_def)

text \<open>A response: header in network order, the value in a new memory cache.\<close>

lemma mem_push_all:
  assumes inv: "mem_invar p s" "cache_content p s = []" "cache_pending p s = []"
    and cap: "cache_cap p s = length v" "length v < 2 ^ 31"
  shows "\<exists>s'. cache_push os p v (of_nat (length v)) s = (int (length v), s') \<and> mem_invar p s' \<and>
    cache_pending p s' = v \<and> ub s' = ub s \<and> s' = s\<lparr>caches := caches s'\<rparr> \<and>
    (\<forall>q. q \<noteq> p \<longrightarrow> caches s' q = caches s q)"
proof -
  from inv(1) obtain c b where c: "caches s p = Some c" "buf c = Some b" "mem_ok c"
    by (rule mem_invarE)
  have n: "unat (of_nat (length v) :: u32) = length v"
    using cap(2) by (intro unat_of_nat_u32) simp
  note views = mem_push_views [OF inv(1) cap(2), of os]
  have all: "fst (push_bytes os p v s) = length v"
    using views(1) inv(2) cap(1) by simp
  have "\<exists>s'. cache_push os p v (of_nat (length v)) s = (int (fst (push_bytes os p v s)), s') \<and>
      s' = s\<lparr>caches := caches s'\<rparr> \<and> (\<forall>q. q \<noteq> p \<longrightarrow> caches s' q = caches s q)"
    using mem_push_step [OF c, of "of_nat (length v)" v os, unfolded n, OF order_refl cap(2)]
    by (auto simp: push_bytes_def set_cache_def)
  then obtain s' where s': "cache_push os p v (of_nat (length v)) s = (int (length v), s')"
    "s' = s\<lparr>caches := caches s'\<rparr>" "\<forall>q. q \<noteq> p \<longrightarrow> caches s' q = caches s q"
    unfolding all by blast
  moreover from s'(1) have "snd (push_bytes os p v s) = s'" by (simp add: push_bytes_def)
  ultimately show ?thesis
    using views all inv cap mem_push_ub [OF inv(1) cap(2), of os] by (intro exI [of _ s']) simp
qed

lemma HV_write_message_ok:
  assumes hv: "hv_value hv = None" and v: "unat (hdr_length h) = length v" "length v < 2 ^ 31"
    and env: "alloc_ok os"
  shows "\<exists>s'. HV_write_message os hv (Some h) (Some v) s =
      (0, hv\<lparr>hv_header := \<lparr>hdr_id = htonl (hdr_id h), hdr_length = htonl (hdr_length h)\<rparr>,
             hv_value := Some (next_cache s)\<rparr>, s')
    \<and> mem_invar (next_cache s) s' \<and> cache_pending (next_cache s) s' = v \<and> ub s' = ub s
    \<and> files s' = files s \<and> streams s' = streams s \<and> next_fp s' = next_fp s
    \<and> next_cache s' = Suc (next_cache s) \<and> (\<forall>q. q \<noteq> next_cache s \<longrightarrow> caches s' q = caches s q)"
proof -
  let ?p = "next_cache s"
  obtain s1 where cr: "create_cache os None (ucast (hdr_length h)) TO_MEM s = (Some ?p, s1)"
    using create_cache_mem_succeeds [OF env] by blast
  note c = create_cache_mem_views [OF cr]
  obtain t C where s1: "s1 = s\<lparr>trace := t, caches := C, next_cache := Suc ?p\<rparr>"
    using create_cache_mem_new (2) [OF cr] by blast
  have n: "hdr_length h = of_nat (length v)" by (simp flip: v(1))
  obtain s2 where push: "cache_push os ?p v (hdr_length h) s1 = (int (length v), s2)"
    and s2: "mem_invar ?p s2" "cache_pending ?p s2 = v" "ub s2 = ub s1" "s2 = s1\<lparr>caches := caches s2\<rparr>"
      "\<forall>q. q \<noteq> ?p \<longrightarrow> caches s2 q = caches s1 q"
    using mem_push_all [OF c(1-3), of v os] c(4) v by (auto simp: n)
  have sz: "size_of_int (int (length v)) = ucast (hdr_length h)"
  proof (rule word_unat_eq_iff [THEN iffD2])
    show "unat (size_of_int (int (length v))) = unat (ucast (hdr_length h) :: size_t)"
      using v unat_of_nat_size [of "length v"] by (simp add: size_of_int_def)
  qed
  have "files s2 = files s" "streams s2 = streams s" "next_fp s2 = next_fp s" "next_cache s2 = Suc ?p"
    by (subst s2(4), simp add: s1)+
  moreover have "HV_write_message os hv (Some h) (Some v) s =
      (0, hv\<lparr>hv_header := \<lparr>hdr_id = htonl (hdr_id h), hdr_length = htonl (hdr_length h)\<rparr>,
             hv_value := Some ?p\<rparr>, s2)"
    using hv cr push sz by (simp add: HV_write_message_def Let_def)
  ultimately show ?thesis using s2 c by auto
qed

lemma cstate_frame_hv [frame_simps]:
  "cstate.more (snd (HV_clear hv s)) = cstate.more s"
  "cstate.more (snd (snd (HV_write_head os hv d n s))) = cstate.more s"
  "cstate.more (snd (snd (HV_write_value os hv d n s))) = cstate.more s"
  "cstate.more (snd (snd (HV_write_message os hv h v s))) = cstate.more s"
  by (simp_all add: HV_clear_def HV_write_head_def HV_write_value_def HV_write_message_def
      memcpy_header_def Let_def case_prod_beta cstate_frame_cache cstate_frame_create split: option.splits)

lemma cstate_frame_write [frame_simps]:
  "cstate.more (snd (snd (HV_write os hv d n s))) = cstate.more s"
  by (simp add: HV_write_def Let_def case_prod_beta cstate_frame_hv)

lemma sent_on_hv [frame_simps]:
  "sent_on k (trace (snd (HV_clear hv s))) = sent_on k (trace s)"
  "sent_on k (trace (snd (snd (HV_write_head os hv d n s)))) = sent_on k (trace s)"
  "sent_on k (trace (snd (snd (HV_write_value os hv d n s)))) = sent_on k (trace s)"
  "sent_on k (trace (snd (snd (HV_write_message os hv h v s)))) = sent_on k (trace s)"
  by (simp_all add: HV_clear_def HV_write_head_def HV_write_value_def HV_write_message_def
      memcpy_header_def Let_def case_prod_beta sent_on_cache sent_on_create split: option.splits)

lemma sent_on_write [frame_simps]:
  "sent_on k (trace (snd (snd (HV_write os hv d n s)))) = sent_on k (trace s)"
  by (simp add: HV_write_def Let_def case_prod_beta sent_on_hv)

subsection \<open>Properties of the unit\<close>

text \<open>
  C15. One \<open>HV::write\<close> of a whole message into an empty unit takes all of it: the unit is complete,
  its header holds the id and the length in host order, and its cache holds the body.
\<close>

theorem HV_write_stores_message:
  assumes hv: "hlen hv = 0" "\<not> head_complete hv" "\<not> value_complete hv" "hv_value hv = None"
    and b: "body \<noteq> []" "length body + 8 < 2 ^ 31" and env: "disk_ok os" "alloc_ok os"
  shows "\<exists>hv' s' p. HV_write os hv (Some (message i body)) (8 + int (length body)) s = (8 + int (length body), hv', s')
    \<and> HV_is_complete hv' \<and> hv_header hv' = \<lparr>hdr_id = i, hdr_length = of_nat (length body)\<rparr>
    \<and> hv_value hv' = Some p \<and> cache_content p s' = body \<and> ub s' = ub s"
proof -
  let ?n = "of_nat (length body) :: u32"
  have n: "unat ?n = length body" using b(2) by (intro unat_of_nat_u32) simp
  have d: "message i body = net_header i ?n @ body" "length (message i body) < 2 ^ 31"
    "int (length (message i body)) = 8 + int (length body)"
    using b(2) by (simp_all add: message_def)
  have pos: "0 < unat ?n" using n b(1) by simp
  obtain hv' s' where w: "HV_write os hv (Some (message i body)) (8 + int (length body)) s = (8 + int (length body), hv', s')"
    "hv_header hv' = \<lparr>hdr_id = i, hdr_length = ?n\<rparr>" "ub s' = ub s" "hv_received hv' s' body"
    using HV_write_first [OF hv d(1,2) pos env, of s] n unfolding d(3) by auto
  then show ?thesis by (auto simp: hv_received_def split: option.splits)
qed

theorem HV_write_stores_message_witness:
  "\<exists>hv' s' p. HV_write good_os (HV_new TO_AUTO \<lparr>hdr_id = 0, hdr_length = 0\<rparr>) (Some (message 3 [8, 9])) 10 start_cstate =
      (10, hv', s') \<and> HV_is_complete hv' \<and> hv_value hv' = Some p \<and> cache_content p s' = [8, 9] \<and> ub s' = []"
  using HV_write_stores_message [of "HV_new TO_AUTO \<lparr>hdr_id = 0, hdr_length = 0\<rparr>" "[8, 9]" good_os 3 start_cstate] good_os_ok
  by (auto simp: HV_new_def start_cstate_def)

end
