(* ===== verification/Virus_Session.thy ===== *)
theory Virus_Session
  imports Hv
begin

text \<open>
  \<^bold>\<open>src/virus_handler.cpp\<close>, the request and response state of one connection: the members
  \<open>req\<close>, \<open>resp\<close> and \<open>state\<close> of \<open>VirusHandler\<close>, the methods \<open>request\<close> and \<open>response\<close>, and the
  loop of \<open>handle_read\<close> that follows its \<open>recv\<close>. The loop is \<open>while (true)\<close> and need not end
  (a disk that takes no byte keeps it going forever), so it takes fuel; \<open>None\<close> is a loop that
  has not ended within the fuel.

  The abstract receiver \<open>rx_parse\<close> says what the stream of requests means: messages of at
  least 1024 bytes whose headers do not straddle two buffers. The refinement theorem shows
  that the loop implements it; for any other bytes every read is shown to end without undefined
  behaviour as long as no buffer ends inside a header, and the first fault to be the write that
  continues such a header outside it.
\<close>

record session =
  req :: HV
  resp :: "HV list"
  vstate :: State

text \<open>\<open>vc::HV resp;\<close> with the uninitialised members taken from the stack.\<close>

definition HV_uninit :: "os \<Rightarrow> 'a sys_scheme \<Rightarrow> HV" where
  "HV_uninit os s =
     HV_new (storage_of_byte (os_junk os (trace s)))
       (header_of_bytes (replicate 8 (os_junk os (trace s))))"

definition VH_request :: "HV \<Rightarrow> 'a cstate_scheme \<Rightarrow> HV \<times> 'a cstate_scheme" where
  "VH_request r s = HV_clear r s"

definition VH_response ::
  "os \<Rightarrow> session \<Rightarrow> HV \<Rightarrow> State \<Rightarrow> 'a cstate_scheme \<Rightarrow> session \<times> 'a cstate_scheme"
where
  "VH_response os v r st s =
     (let header = \<lparr>hdr_id = hdr_id (hv_header r), hdr_length = sizeof_State\<rparr>;
          (_, rsp, s) = HV_write_message os (HV_uninit os s) (Some header) (Some (state_bytes st)) s
      in (v\<lparr>resp := resp v @ [rsp]\<rparr>, s))"

text \<open>
  The queue after a call of \<open>req.write\<close>. \<open>resp\<close> follows \<open>req\<close> in the object, so the copy of
  \<open>write_head\<close> that lies outside the header of \<open>req\<close> can hit it: then the queue, like the unit,
  is what the environment says. Otherwise the call does not touch it.
\<close>

definition wild_resp :: "os \<Rightarrow> 'a sys_scheme \<Rightarrow> HV list" where
  "wild_resp os s = map (\<lambda>j. wild_HV os s (Suc j)) [0..<os_wild os (trace s) (ub s) 0 8]"

definition resp_after_write :: "os \<Rightarrow> session \<Rightarrow> int \<Rightarrow> 'a sys_scheme \<Rightarrow> session" where
  "resp_after_write os v nread s =
     (if 0 < nread \<and> hlen (req v) \<noteq> 0 \<and> hlen (req v) < sizeof_Header
      then v\<lparr>resp := wild_resp os s\<rparr> else v)"

fun VH_read_loop ::
  "nat \<Rightarrow> os \<Rightarrow> byte list \<Rightarrow> int \<Rightarrow> session \<Rightarrow> 'a cstate_scheme \<Rightarrow> (session \<times> 'a cstate_scheme) option"
where
  "VH_read_loop 0 os p_buf nread v s = None"
| "VH_read_loop (Suc fuel) os p_buf nread v s =
     (let v = resp_after_write os v nread s;
          (wlen, r, s) = HV_write os (req v) (Some p_buf) nread s
      in
      if wlen = -1 then
        (let (r, s) = HV_clear r s;
             v = v\<lparr>req := r, vstate := INTERNAL_ERROR\<rparr>
         in Some (VH_response os v r INTERNAL_ERROR s))
      else
        (let p_buf = drop (nat wlen) p_buf;
             nread = nread - wlen;
             (v, s) =
               (if HV_is_complete r then
                  (let (r, s) = VH_request r s
                   in VH_response os (v\<lparr>req := r, vstate := OK\<rparr>) r OK s)
                else (v\<lparr>req := r\<rparr>, s))
         in if nread = 0 then Some (v, s)
            else VH_read_loop fuel os p_buf nread v s))"

declare VH_read_loop.simps(2) [simp del]

text \<open>The loop is entered after \<open>recv\<close> returned the bytes \<open>d\<close>.\<close>

definition VH_received :: "nat \<Rightarrow> os \<Rightarrow> byte list \<Rightarrow> session \<Rightarrow> 'a cstate_scheme \<Rightarrow> (session \<times> 'a cstate_scheme) option" where
  "VH_received fuel os d v s = VH_read_loop fuel os d (int (length d)) v s"

subsection \<open>The abstract receiver\<close>

datatype rx = Rx_idle | Rx_body u32 u32 "byte list"

fun rx_rank :: "rx \<Rightarrow> nat" where
  "rx_rank Rx_idle = 0"
| "rx_rank (Rx_body i n got) = 1"

text \<open>
  \<open>rx_parse a inp\<close>: the requests completed by the bytes \<open>inp\<close> and the state after them;
  \<open>None\<close> when \<open>inp\<close> ends inside a header or announces a value of less than 1024 bytes.
\<close>

function rx_parse :: "rx \<Rightarrow> byte list \<Rightarrow> ((u32 \<times> byte list) list \<times> rx) option" where
  "rx_parse Rx_idle inp =
     (if inp = [] then Some ([], Rx_idle)
      else if length inp < 8 then None
      else
        (let i = ntohl (un_le32 inp); n = ntohl (un_le32 (drop 4 inp)) in
         if n < DEFAULT_MAX_MEMORY_CACHE then None else rx_parse (Rx_body i n []) (drop 8 inp)))"
| "rx_parse (Rx_body i n got) inp =
     (let k = unat n - length got in
      if length inp < k then Some ([], Rx_body i n (got @ inp))
      else map_option (\<lambda>(ms, a). ((i, got @ take k inp) # ms, a)) (rx_parse Rx_idle (drop k inp)))"
  by pat_completeness auto
termination
  by (relation "measure (\<lambda>(a, inp). 2 * length inp + rx_rank a)") auto

declare rx_parse.simps [simp del]

text \<open>The response to a request, as the client receives it.\<close>

definition response_wire :: "u32 \<Rightarrow> State \<Rightarrow> byte list" where
  "response_wire i st = net_header i sizeof_State @ state_bytes st"

text \<open>The bytes of a queued response: its header and what its cache still holds.\<close>

definition resp_wire :: "HV \<Rightarrow> 'a cstate_scheme \<Rightarrow> byte list" where
  "resp_wire h s =
     (case hv_value h of
        None \<Rightarrow> []
      | Some p \<Rightarrow> header_bytes (hv_header h) @ cache_pending p s)"

definition resp_ok :: "HV \<Rightarrow> 'a cstate_scheme \<Rightarrow> bool" where
  "resp_ok h s = (case hv_value h of None \<Rightarrow> False | Some p \<Rightarrow> mem_invar p s)"

text \<open>When the session implements a state of the abstract receiver.\<close>

fun rx_sim :: "HV \<Rightarrow> 'a cstate_scheme \<Rightarrow> rx \<Rightarrow> bool" where
  "rx_sim r s Rx_idle =
     (hlen r = 0 \<and> \<not> head_complete r \<and> \<not> value_complete r \<and> hv_value r = None)"
| "rx_sim r s (Rx_body i n got) =
     (hv_header r = \<lparr>hdr_id = i, hdr_length = n\<rparr> \<and> hv_to r = TO_FILE \<and> hv_reading r s got)"

subsection \<open>Lemmas on the session\<close>

definition session_ok :: "session \<Rightarrow> 'a cstate_scheme \<Rightarrow> bool" where
  "session_ok v s = ((\<forall>h \<in> set (resp v). resp_ok h s) \<and> distinct (map hv_value (resp v)))"

definition wires :: "session \<Rightarrow> 'a cstate_scheme \<Rightarrow> byte list list" where
  "wires v s = map (\<lambda>h. resp_wire h s) (resp v)"

text \<open>A sequence of buffers, each delivered by one \<open>recv\<close>, and the abstract receiver on it.\<close>

fun VH_run :: "nat \<Rightarrow> os \<Rightarrow> byte list list \<Rightarrow> session \<Rightarrow> 'a cstate_scheme \<Rightarrow> (session \<times> 'a cstate_scheme) option" where
  "VH_run fuel os [] v s = Some (v, s)"
| "VH_run fuel os (b # bs) v s =
     (case VH_received fuel os b v s of None \<Rightarrow> None | Some (v, s) \<Rightarrow> VH_run fuel os bs v s)"

fun rx_run :: "rx \<Rightarrow> byte list list \<Rightarrow> ((u32 \<times> byte list) list \<times> rx) option" where
  "rx_run a [] = Some ([], a)"
| "rx_run a (b # bs) =
     (case rx_parse a b of
        None \<Rightarrow> None
      | Some (ms, a') \<Rightarrow> map_option (\<lambda>(ms', c). (ms @ ms', c)) (rx_run a' bs))"

fun rx_wf :: "rx \<Rightarrow> bool" where
  "rx_wf Rx_idle = True"
| "rx_wf (Rx_body i n got) = (length got < unat n)"

text \<open>A request that may hold a cache left behind by an earlier one.\<close>

definition req_wf :: "HV \<Rightarrow> 'a cstate_scheme \<Rightarrow> bool" where
  "req_wf r s = (hv_inv r \<and> (case hv_value r of None \<Rightarrow> True | Some p \<Rightarrow> file_invar p s))"

text \<open>The queued responses only depend on their memory caches.\<close>

lemma session_cong:
  assumes "\<forall>q. mem_invar q s \<longrightarrow> caches s' q = caches s q" "session_ok v s" "resp v' = resp v"
  shows "session_ok v' s'" "wires v' s' = wires v s"
proof -
  have "resp_ok h s' \<and> resp_wire h s' = resp_wire h s" if "h \<in> set (resp v)" for h
    using that assms(1,2) mem_views_cong [of s' _ s]
    by (auto simp: session_ok_def resp_ok_def resp_wire_def split: option.splits)
  with assms(2,3) show "session_ok v' s'" "wires v' s' = wires v s"
    by (auto simp: session_ok_def wires_def)
qed

lemma VH_response_ok:
  assumes env: "alloc_ok os" and wf: "heap_wf s" and ok: "session_ok v s"
  shows "\<exists>rsp s'. VH_response os v r st s = (v\<lparr>resp := resp v @ [rsp]\<rparr>, s')
    \<and> wires (v\<lparr>resp := resp v @ [rsp]\<rparr>) s' = wires v s @ [response_wire (hdr_id (hv_header r)) st]
    \<and> session_ok (v\<lparr>resp := resp v @ [rsp]\<rparr>) s' \<and> heap_wf s' \<and> ub s' = ub s
    \<and> files s' = files s \<and> streams s' = streams s
    \<and> (\<forall>q. caches s q \<noteq> None \<longrightarrow> caches s' q = caches s q)"
proof -
  let ?h = "\<lparr>hdr_id = hdr_id (hv_header r), hdr_length = sizeof_State\<rparr>"
  have new: "hv_value (HV_uninit os s) = None" "unat (hdr_length ?h) = length (state_bytes st)"
    by (simp_all add: HV_uninit_def HV_new_def sizeof_State_def)
  obtain rsp s' where w: "HV_write_message os (HV_uninit os s) (Some ?h) (Some (state_bytes st)) s =
      (0, rsp, s')" and rsp: "hv_header rsp = \<lparr>hdr_id = htonl (hdr_id ?h), hdr_length = htonl sizeof_State\<rparr>"
      "hv_value rsp = Some (next_cache s)"
    and c: "mem_invar (next_cache s) s'" "cache_pending (next_cache s) s' = state_bytes st"
      "ub s' = ub s" "files s' = files s" "streams s' = streams s" "next_fp s' = next_fp s"
      "next_cache s' = Suc (next_cache s)" "\<forall>q. q \<noteq> next_cache s \<longrightarrow> caches s' q = caches s q"
    using HV_write_message_ok [OF new _ env, of s] by (auto simp: HV_uninit_def HV_new_def)
  have free: "caches s (next_cache s) = None" using wf by (simp add: heap_wf_def)
  then have keep: "\<forall>q. caches s q \<noteq> None \<longrightarrow> caches s' q = caches s q" using c(8) by metis
  then have "\<forall>q. mem_invar q s \<longrightarrow> caches s' q = caches s q"
    by (auto simp: mem_invar_def split: option.splits)
  from session_cong [OF this ok, of v] have old: "session_ok v s'" "wires v s' = wires v s" by simp_all
  have "resp_wire rsp s' = response_wire (hdr_id (hv_header r)) st" "resp_ok rsp s'"
    using rsp c by (simp_all add: resp_wire_def response_wire_def net_header_host resp_ok_def)
  moreover have "hv_value h \<noteq> hv_value rsp" if "h \<in> set (resp v)" for h
  proof -
    have "resp_ok h s" using that ok by (simp add: session_ok_def)
    then show ?thesis using free rsp(2) by (auto simp: resp_ok_def mem_invar_def)
  qed
  then have "hv_value rsp \<notin> hv_value ` set (resp v)" by (metis imageE)
  moreover have "heap_wf s'" using wf c by (auto simp: heap_wf_def)
  ultimately show ?thesis
    using w old keep c
    by (intro exI [of _ rsp] exI [of _ s'])
      (simp add: VH_response_def Let_def wires_def session_ok_def)
qed

lemma VH_request_large:
  assumes "hv_received r s body" "hv_to r = TO_FILE" "heap_wf s"
  shows "\<exists>r' s'. VH_request r s = (r', s') \<and> rx_sim r' s' Rx_idle \<and> hv_header r' = hv_header r
    \<and> heap_wf s' \<and> ub s' = ub s \<and> files s' = files s
    \<and> (\<forall>q. mem_invar q s \<longrightarrow> caches s' q = caches s q)"
proof -
  from assms(1) obtain p where p: "hv_value r = Some p" "file_invar p s"
    by (auto simp: hv_received_def split: option.splits)
  from HV_clear_large [OF assms(2) p] obtain f where
    clear: "HV_clear r s =
      (r\<lparr>hlen := 0, vlen := 0, head_complete := False, value_complete := False, hv_value := None\<rparr>,
       s\<lparr>streams := (streams s)(f := None), caches := (caches s)(p := None)\<rparr>)" by blast
  show ?thesis
    using assms(3) mem_file_disjoint [OF _ p(2)]
    by (auto simp: VH_request_def clear heap_wf_def)
qed

subsection \<open>The loop implements the abstract receiver\<close>

text \<open>
  One call of \<open>HV::write\<close> brings the unit into the body of the message at hand (through a
  whole header when it was idle) and takes as much of the value as the buffer holds.
\<close>

text \<open>
  What one call of \<open>write\<close> does to a request: it takes \<open>c\<close> bytes for the header and \<open>k\<close> for the body of the
  message \<open>i\<close> of length \<open>n\<close>, of which \<open>got\<close> was there.
\<close>

definition wrote ::
  "os \<Rightarrow> HV \<Rightarrow> byte list \<Rightarrow> 'a cstate_scheme \<Rightarrow> u32 \<Rightarrow> u32 \<Rightarrow> byte list \<Rightarrow> nat \<Rightarrow> nat \<Rightarrow> HV \<Rightarrow> 'a cstate_scheme \<Rightarrow> bool"
where
  "wrote os r inp s i n got c k r' s' \<longleftrightarrow>
     HV_write os r (Some inp) (int (length inp)) s = (int (c + k), r', s') \<and>
     c \<le> length inp \<and> k = min (length (drop c inp)) (unat n - length got) \<and> 0 < c + k \<and> length got < unat n \<and>
     hv_header r' = \<lparr>hdr_id = i, hdr_length = n\<rparr> \<and> hv_to r' = TO_FILE \<and> ub s' = ub s \<and> heap_wf s' \<and>
     (\<forall>q. mem_invar q s \<longrightarrow> caches s' q = caches s q) \<and>
     (if length got + k = unat n then hv_received r' s' (got @ take k (drop c inp))
      else hv_reading r' s' (got @ take k (drop c inp)))"

lemma rx_write_idle:
  assumes sim: "rx_sim r s Rx_idle" and parse: "rx_parse Rx_idle inp = Some x"
    and inp: "inp \<noteq> []" "length inp < 2 ^ 31" and env: "disk_ok os" "alloc_ok os" and wf: "heap_wf s"
  shows "\<exists>i n k r' s'. rx_parse Rx_idle inp = rx_parse (Rx_body i n []) (drop 8 inp) \<and> wrote os r inp s i n [] 8 k r' s'"
proof -
  define i where "i = ntohl (un_le32 inp)"
  define n where "n = ntohl (un_le32 (drop 4 inp))"
  from parse inp have p: "length inp \<ge> 8" "\<not> n < DEFAULT_MAX_MEMORY_CACHE"
    "rx_parse Rx_idle inp = rx_parse (Rx_body i n []) (drop 8 inp)"
    by (auto simp: rx_parse.simps(1) i_def n_def Let_def not_less split: if_splits)
  then have pos: "0 < unat n" by (auto simp: DEFAULT_MAX_MEMORY_CACHE_def word_less_nat_alt)
  have d: "inp = net_header i n @ drop 8 inp"
    using take_header [OF p(1)] append_take_drop_id [of 8 inp] by (simp add: i_def n_def)
  have st: "hlen r = 0" "\<not> head_complete r" "\<not> value_complete r" "hv_value r = None" using sim by simp_all
  define k where "k = min (length (drop 8 inp)) (unat n)"
  obtain r' s' where w: "HV_write os r (Some inp) (int (length inp)) s = (8 + int k, r', s')"
    "hv_header r' = \<lparr>hdr_id = i, hdr_length = n\<rparr>" "hv_to r' = TO_FILE" "ub s' = ub s"
    "heap_wf s'" "\<forall>q. mem_invar q s \<longrightarrow> caches s' q = caches s q"
    "if k = unat n then hv_received r' s' (take k (drop 8 inp)) else hv_reading r' s' (take k (drop 8 inp))"
    using HV_write_first [OF st d inp(2) pos env, of s, folded k_def] p(2) wf by auto
  have "wrote os r inp s i n [] 8 k r' s'"
    using w p(1) pos k_def by (simp add: wrote_def split del: if_split cong: if_cong)
  with p(3) show ?thesis by blast
qed

lemma rx_write_body:
  assumes sim: "rx_sim r s (Rx_body i n got)" and inp: "inp \<noteq> []" "length inp < 2 ^ 31"
    and env: "disk_ok os" "alloc_ok os" and wf: "heap_wf s"
  shows "\<exists>k r' s'. wrote os r inp s i n got 0 k r' s'"
proof -
  have st: "hv_reading r s got" "hv_header r = \<lparr>hdr_id = i, hdr_length = n\<rparr>" "hv_to r = TO_FILE"
    using sim by simp_all
  then have len: "hlen r = sizeof_Header" "length got < unat n" by (simp_all add: hv_reading_def)
  define k where "k = min (length inp) (unat n - length got)"
  then have pos: "0 < k" using inp len by simp
  obtain r' s' where w: "HV_write_value os r (Some inp) (int (length inp)) s = (int k, r', s')"
    "hv_header r' = \<lparr>hdr_id = i, hdr_length = n\<rparr>" "hv_to r' = TO_FILE" "ub s' = ub s"
    "heap_wf s'" "\<forall>q. mem_invar q s \<longrightarrow> caches s' q = caches s q"
    "if length got + k = unat n then hv_received r' s' (got @ take k inp) else hv_reading r' s' (got @ take k inp)"
    using HV_write_value_step [OF st(1) inp env] st(2,3) wf by (auto simp: k_def cong: if_cong)
  have "wrote os r inp s i n got 0 k r' s'"
    using w len pos k_def by (simp add: wrote_def HV_write_reading split del: if_split cong: if_cong)
  then show ?thesis by blast
qed

lemma rx_write:
  assumes "rx_sim r s a" "rx_parse a inp = Some x" "inp \<noteq> []" "length inp < 2 ^ 31" "disk_ok os" "alloc_ok os" "heap_wf s"
  obtains i n got c k r' s' where
    "rx_parse a inp = rx_parse (Rx_body i n got) (drop c inp)" "wrote os r inp s i n got c k r' s'"
proof (cases a)
  case Rx_idle
  with rx_write_idle [of r s inp x os] assms that show ?thesis by blast
next
  case (Rx_body i n got)
  with rx_write_body [of r s i n got inp os] assms that [of i n got 0] show ?thesis by auto
qed

lemma VH_finish_request:
  assumes rec: "hv_received r s body" "hv_to r = TO_FILE"
    and env: "alloc_ok os" and wf: "heap_wf s" and ok: "session_ok v s"
  obtains v' s' where
    "(let (r, s) = VH_request r s in VH_response os (v\<lparr>req := r, vstate := OK\<rparr>) r OK s) = (v', s')"
    "rx_sim (req v') s' Rx_idle" "heap_wf s'" "session_ok v' s'" "ub s' = ub s"
    "wires v' s' = wires v s @ [response_wire (hdr_id (hv_header r)) OK]"
proof -
  obtain r2 s2 where rq: "VH_request r s = (r2, s2)" "rx_sim r2 s2 Rx_idle"
    "hv_header r2 = hv_header r" "heap_wf s2" "ub s2 = ub s"
    "\<forall>q. mem_invar q s \<longrightarrow> caches s2 q = caches s q"
    using VH_request_large [OF rec wf] by blast
  let ?v = "v\<lparr>req := r2, vstate := OK\<rparr>"
  have ok2: "session_ok ?v s2" "wires ?v s2 = wires v s"
    using session_cong [OF rq(6) ok, of ?v] by simp_all
  obtain rsp s3 where rs: "VH_response os ?v r2 OK s2 = (?v\<lparr>resp := resp ?v @ [rsp]\<rparr>, s3)"
    "wires (?v\<lparr>resp := resp ?v @ [rsp]\<rparr>) s3 = wires ?v s2 @ [response_wire (hdr_id (hv_header r2)) OK]"
    "session_ok (?v\<lparr>resp := resp ?v @ [rsp]\<rparr>) s3" "heap_wf s3" "ub s3 = ub s2"
    using VH_response_ok [OF env rq(4) ok2(1), of r2 OK] by blast
  show ?thesis
    by (rule that [of "?v\<lparr>resp := resp ?v @ [rsp]\<rparr>" s3]) (use rq rs ok2 in simp_all)
qed

text \<open>A write that does not continue a header leaves the queue alone.\<close>

lemma resp_after_write_aligned [simp]: "hv_aligned (req v) \<Longrightarrow> resp_after_write os v n s = v"
  by (auto simp: resp_after_write_def hv_aligned_def)

lemma req_after_write [simp]: "req (resp_after_write os v n s) = req v"
  by (simp add: resp_after_write_def)

lemma rx_sim_aligned: "rx_sim r s a \<Longrightarrow> hv_aligned r"
  by (cases a) (simp_all add: hv_aligned_def hv_reading_def)

text \<open>One iteration that completes a request.\<close>

lemma VH_read_loop_complete:
  assumes al: "hv_aligned (req v)" and w: "HV_write os (req v) (Some inp) (int (length inp)) s = (int m, r, s1)"
    and compl: "HV_is_complete r" and m: "m \<le> length inp"
    and fin: "(let (r, s) = VH_request r s1 in VH_response os (v\<lparr>req := r, vstate := OK\<rparr>) r OK s) = (v2, s2)"
  shows "VH_read_loop (Suc f) os inp (int (length inp)) v s =
    (if drop m inp = [] then Some (v2, s2)
     else VH_read_loop f os (drop m inp) (int (length (drop m inp))) v2 s2)"
  using assms by (simp add: VH_read_loop.simps(2) of_nat_diff)

text \<open>One iteration that leaves the request incomplete.\<close>

lemma VH_read_loop_partial:
  assumes "hv_aligned (req v)" "HV_write os (req v) (Some inp) (int (length inp)) s = (int m, r, s1)"
    and "\<not> HV_is_complete r" "m \<le> length inp"
  shows "VH_read_loop (Suc f) os inp (int (length inp)) v s =
    (if drop m inp = [] then Some (v\<lparr>req := r\<rparr>, s1)
     else VH_read_loop f os (drop m inp) (int (length (drop m inp))) (v\<lparr>req := r\<rparr>) s1)"
  using assms by (simp add: VH_read_loop.simps(2) of_nat_diff)

text \<open>A buffer that ends within a body: the receiver waits for the rest of it.\<close>

lemma VH_read_loop_waits:
  assumes al: "hv_aligned (req v)" and w: "wrote os (req v) inp s i n got c k r' s1" "length got + k \<noteq> unat n"
    and parse: "rx_parse (Rx_body i n got) (drop c inp) = Some (ms, a')" and ok: "session_ok v s"
  shows "VH_read_loop (Suc f) os inp (int (length inp)) v s = Some (v\<lparr>req := r'\<rparr>, s1)
    \<and> rx_sim r' s1 a' \<and> ms = [] \<and> session_ok (v\<lparr>req := r'\<rparr>) s1 \<and> wires (v\<lparr>req := r'\<rparr>) s1 = wires v s"
proof -
  have k: "k = length (drop c inp)" "length (drop c inp) < unat n - length got" "c \<le> length inp"
    using w by (auto simp: wrote_def)
  then have a': "a' = Rx_body i n (got @ drop c inp)" "ms = []" using parse by (simp_all add: rx_parse.simps(2))
  have "hv_reading r' s1 (got @ take k (drop c inp))" using w unfolding wrote_def by argo
  with k(1) have rd: "hv_reading r' s1 (got @ drop c inp)" by simp
  then have nc: "\<not> HV_is_complete r'" by (simp add: hv_reading_def hv_status)
  have all: "c + k = length inp" using k by simp
  have "HV_write os (req v) (Some inp) (int (length inp)) s = (int (length inp), r', s1)"
    using w(1) by (simp add: wrote_def all)
  note step = VH_read_loop_partial [OF al this nc order.refl, of f, simplified]
  have keep: "\<forall>q. mem_invar q s \<longrightarrow> caches s1 q = caches s q" using w(1) by (simp add: wrote_def)
  show ?thesis using step session_cong [OF keep ok, of "v\<lparr>req := r'\<rparr>"] rd a' w(1) by (simp add: wrote_def)
qed

lemma VH_read_loop_refines:
  assumes "rx_parse a inp = Some (ms, a')" "rx_sim (req v) s a"
    and "disk_ok os" "alloc_ok os" "heap_wf s" "session_ok v s"
    and "length inp < 2 ^ 31" "length inp < fuel" "inp \<noteq> []"
  shows "\<exists>v' s'. VH_read_loop fuel os inp (int (length inp)) v s = Some (v', s')
    \<and> rx_sim (req v') s' a' \<and> heap_wf s' \<and> session_ok v' s' \<and> ub s' = ub s
    \<and> wires v' s' = wires v s @ map (\<lambda>(i, body). response_wire i OK) ms"
  using assms
proof (induction "length inp" arbitrary: inp a v s ms fuel rule: less_induct)
  case less
  note env = less.prems(3,4) and ok = less.prems(6) and al = rx_sim_aligned [OF less.prems(2)]
  obtain i n got c k r' s1 where parse: "rx_parse a inp = rx_parse (Rx_body i n got) (drop c inp)"
    and w: "wrote os (req v) inp s i n got c k r' s1"
    by (rule rx_write [OF less.prems(2,1,9,7) env less.prems(5)])
  note w' = w [unfolded wrote_def]
  obtain f where fuel: "fuel = Suc f" using less.prems(8) by (cases fuel) auto
  show ?case
  proof (cases "length got + k = unat n")
    case False
    from VH_read_loop_waits [OF al w False less.prems(1) [unfolded parse] ok, of f] w' show ?thesis by (simp add: fuel)
  next
    case True
    then have rec: "hv_received r' s1 (got @ take k (drop c inp))" "HV_is_complete r'" and kn: "k = unat n - length got"
      and le: "k \<le> length (drop c inp)" "c + k \<le> length inp"
      using w' by (auto simp: hv_received_def)
    have pos: "0 < c + k" using w' by blast
    note s1 = session_cong [OF _ ok, of s1]
    obtain v2 s2 where run: "(let (r, s) = VH_request r' s1 in
          VH_response os (v\<lparr>req := r, vstate := OK\<rparr>) r OK s) = (v2, s2)"
      and v2: "rx_sim (req v2) s2 Rx_idle" "heap_wf s2" "session_ok v2 s2" "ub s2 = ub s"
        "wires v2 s2 = wires v s @ [response_wire i OK]"
      using VH_finish_request [OF rec(1) _ env(2) _ s1(1) [of v]] s1(2) [of v] w' by auto
    have "HV_write os (req v) (Some inp) (int (length inp)) s = (int (c + k), r', s1)" using w' by blast
    note step = VH_read_loop_complete [OF al this rec(2) le(2) run, of f, folded fuel]
    obtain ms' where ms: "rx_parse Rx_idle (drop (c + k) inp) = Some (ms', a')" "ms = (i, got @ take k (drop c inp)) # ms'"
      using less.prems(1) parse kn le by (auto simp: rx_parse.simps(2) [of i] Let_def not_less add.commute)
    show ?thesis
    proof (cases "drop (c + k) inp = []")
      case True
      then have "ms' = []" "a' = Rx_idle" using ms(1) by (simp_all add: rx_parse.simps(1))
      then show ?thesis using step True v2 ms(2) by simp
    next
      case False
      have lt: "length (drop (c + k) inp) < length inp" "length (drop (c + k) inp) < f"
        unfolding length_drop using pos le(2) less.prems(8) fuel by linarith+
      then show ?thesis
        using less.hyps [OF lt(1) ms(1) v2(1) env v2(2,3) _ lt(2) False] less.prems(7) step False v2 ms(2) by simp
    qed
  qed
qed

subsection \<open>The abstract receiver on messages and on buffers\<close>

lemma rx_parse_append:
  assumes "rx_parse a x = Some (ms, b)"
  shows "rx_parse a (x @ y) = map_option (\<lambda>(ms', c). (ms @ ms', c)) (rx_parse b y)"
  using assms
proof (induction a x arbitrary: ms b rule: rx_parse.induct)
  case (1 inp)
  show ?case
  proof (cases "inp = []")
    case True
    with "1.prems" show ?thesis
      by (cases "rx_parse Rx_idle y") (auto simp: rx_parse.simps(1) [of "[]"])
  next
    case False
    then have h: "\<not> length inp < 8"
      "\<not> ntohl (un_le32 (drop 4 inp)) < DEFAULT_MAX_MEMORY_CACHE"
      "rx_parse (Rx_body (ntohl (un_le32 inp)) (ntohl (un_le32 (drop 4 inp))) []) (drop 8 inp) = Some (ms, b)"
      using "1.prems" by (auto simp: rx_parse.simps(1) [of inp] Let_def split: if_splits)
    have "un_le32 (inp @ y) = un_le32 inp" "un_le32 (drop 4 (inp @ y)) = un_le32 (drop 4 inp)"
      using h(1) un_le32_take [of "length inp" "inp @ y"] un_le32_take [of "length (drop 4 inp)" "drop 4 inp @ y"]
      by simp_all
    with False h "1.IH" [OF False h(1) refl refl h(2,3)] show ?thesis
      by (simp add: rx_parse.simps(1) [of "inp @ y"])
  qed
next
  case (2 i n got inp)
  show ?case
  proof (cases "length inp < unat n - length got")
    case True
    then have b: "ms = []" "b = Rx_body i n (got @ inp)"
      using "2.prems" by (simp_all add: rx_parse.simps(2) [of i n got inp])
    have cond: "length (inp @ y) < unat n - length got \<longleftrightarrow> length y < unat n - length (got @ inp)"
      using True by auto
    with True show ?thesis
      by (simp add: b rx_parse.simps(2) [of i n got "inp @ y"] rx_parse.simps(2) [of i n "got @ inp" y] Let_def
          option.map_ident)
  next
    case False
    then obtain ms' where m: "rx_parse Rx_idle (drop (unat n - length got) inp) = Some (ms', b)"
      "ms = (i, got @ take (unat n - length got) inp) # ms'"
      using "2.prems" by (auto simp: rx_parse.simps(2) [of i n got inp] Let_def)
    from "2.IH" [OF refl False m(1)] False m(2) show ?thesis
      by (simp add: rx_parse.simps(2) [of i n got "inp @ y"] Let_def option.map_comp comp_def case_prod_beta)
  qed
qed

lemma rx_parse_message:
  assumes "1024 \<le> length body" "length body < 2 ^ 32"
  shows "rx_parse Rx_idle (message i body) = Some ([(i, body)], Rx_idle)"
proof -
  let ?n = "of_nat (length body) :: u32"
  have n: "unat ?n = length body" using assms(2) by (rule unat_of_nat_u32)
  have "\<not> ?n < DEFAULT_MAX_MEMORY_CACHE"
    using assms(1) n by (simp add: DEFAULT_MAX_MEMORY_CACHE_def word_less_nat_alt)
  moreover have "ntohl (un_le32 (message i body)) = i" "ntohl (un_le32 (drop 4 (message i body))) = ?n"
    by (simp_all add: message_def net_header_host header_bytes_def)
  moreover have "length (message i body) = 8 + length body" "drop 8 (message i body) = body"
    by (simp_all add: message_def)
  moreover from this have "message i body \<noteq> []" by auto
  ultimately show ?thesis
    using n by (simp add: rx_parse.simps(1) [of "message i body"] Let_def
        rx_parse.simps(2) rx_parse.simps(1) [of "[]"])
qed

lemma rx_parse_messages:
  assumes "\<forall>(i, body) \<in> set ms. 1024 \<le> length body \<and> length body < 2 ^ 32"
  shows "rx_parse Rx_idle (concat (map (\<lambda>(i, body). message i body) ms)) = Some (ms, Rx_idle)"
  using assms
proof (induction ms)
  case Nil
  then show ?case by (simp add: rx_parse.simps(1))
next
  case (Cons m ms)
  obtain i body where m: "m = (i, body)" by (cases m)
  with Cons.prems have "rx_parse Rx_idle (message i body) = Some ([m], Rx_idle)"
    using rx_parse_message by simp
  from rx_parse_append [OF this] Cons m show ?case by simp
qed

lemma rx_parse_wf: "rx_parse a x = Some (ms, b) \<Longrightarrow> rx_wf b"
proof (induction a x arbitrary: ms b rule: rx_parse.induct)
  case (1 inp)
  then show ?case
    by (auto simp: rx_parse.simps(1) [of inp] Let_def split: if_splits)
next
  case (2 i n got inp)
  then show ?case
    by (auto simp: rx_parse.simps(2) [of i n got inp] Let_def split: if_splits)
qed

lemma rx_run_concat:
  assumes "rx_run a bufs = Some (ms, b)" "rx_wf a"
  shows "rx_parse a (concat bufs) = Some (ms, b)"
  using assms
proof (induction bufs arbitrary: a ms)
  case Nil
  then show ?case by (cases a) (auto simp: rx_parse.simps)
next
  case (Cons x bufs)
  then obtain m1 a1 m2 where p: "rx_parse a x = Some (m1, a1)" "rx_run a1 bufs = Some (m2, b)"
    "ms = m1 @ m2"
    by (auto split: option.splits)
  from Cons.IH [OF p(2) rx_parse_wf [OF p(1)]] rx_parse_append [OF p(1)] p(3) show ?case by simp
qed

lemma VH_run_refines:
  assumes "rx_run a bufs = Some (ms, a')" "rx_sim (req v) s a"
    and "disk_ok os" "alloc_ok os" "heap_wf s" "session_ok v s"
    and "\<forall>b \<in> set bufs. b \<noteq> [] \<and> length b < 2 ^ 31 \<and> length b < fuel"
  shows "\<exists>v' s'. VH_run fuel os bufs v s = Some (v', s')
    \<and> rx_sim (req v') s' a' \<and> heap_wf s' \<and> session_ok v' s' \<and> ub s' = ub s
    \<and> wires v' s' = wires v s @ map (\<lambda>(i, body). response_wire i OK) ms"
  using assms
proof (induction bufs arbitrary: a v s ms)
  case Nil
  then show ?case by simp
next
  case (Cons x bufs)
  then obtain m1 a1 m2 where p: "rx_parse a x = Some (m1, a1)" "rx_run a1 bufs = Some (m2, a')"
    "ms = m1 @ m2"
    by (auto split: option.splits)
  obtain v1 s1 where one: "VH_received fuel os x v s = Some (v1, s1)" "rx_sim (req v1) s1 a1"
    "heap_wf s1" "session_ok v1 s1" "ub s1 = ub s"
    "wires v1 s1 = wires v s @ map (\<lambda>(i, body). response_wire i OK) m1"
    using VH_read_loop_refines [OF p(1) Cons.prems(2-6), of fuel] Cons.prems(7)
    by (auto simp: VH_received_def)
  with Cons.IH [OF p(2) one(2) Cons.prems(3,4) one(3,4)] Cons.prems(7) p(3) show ?case by auto
qed

subsection \<open>Arbitrary bytes\<close>

text \<open>A step without a fault that leaves the memory caches of the queued responses alone.\<close>

definition clean :: "'a cstate_scheme \<Rightarrow> 'a cstate_scheme \<Rightarrow> bool" where
  "clean s s' = (ub s' = ub s \<and> (\<forall>q. mem_invar q s \<longrightarrow> caches s' q = caches s q))"

lemma cleanI: "ub s' = ub s \<Longrightarrow> (\<And>q. mem_invar q s \<Longrightarrow> caches s' q = caches s q) \<Longrightarrow> clean s s'"
  by (simp add: clean_def)

lemma clean_trans [trans]: "clean s s1 \<Longrightarrow> clean s1 s2 \<Longrightarrow> clean s s2"
  using mem_views_cong(1) [of s1 _ s] by (simp add: clean_def)

lemma clean_refl: "clean s s"
  by (simp add: clean_def)

lemma file_push_clean:
  assumes "file_invar p s" "length d < 2 ^ 31"
  shows "clean s (snd (push_bytes os p d s))"
  using file_push_ub [OF assms, of os] file_push_frame(1) [OF assms, of _ os] mem_file_disjoint [OF _ assms(1)]
  by (intro cleanI) auto

lemma HV_write_value_progress:
  assumes r: "head_complete r" "req_wf r s" and d: "d \<noteq> []" "length d < 2 ^ 31"
    and env: "disk_ok os" "alloc_ok os" and wf: "heap_wf s"
  shows "\<exists>w r' s'. HV_write_value os r (Some d) (int (length d)) s = (int w, r', s') \<and> w \<le> length d
    \<and> (0 < w \<or> HV_is_complete r') \<and> req_wf r' s' \<and> heap_wf s' \<and> clean s s' \<and> hlen r' = hlen r"
proof -
  obtain r1 s1 p where one: "r1 = r\<lparr>hv_value := Some p\<rparr>" "file_invar p s1" "heap_wf s1" "clean s s1"
    and eq: "HV_write_value os r (Some d) (int (length d)) s =
      HV_write_value os r1 (Some d) (int (length d)) s1"
  proof (cases "hv_value r")
    case None
    obtain s1 where cr: "create_cache os None (ucast (hdr_length (hv_header r))) TO_FILE s =
        (Some (next_cache s), s1)"
      using create_cache_file_succeeds [OF env] by blast
    have "unat (ucast (hdr_length (hv_header r)) :: size_t) < 2 ^ 63"
      using unat_bound [of "hdr_length (hv_header r)"] by simp
    note v = create_cache_file_views(1,4,5) [OF this cr] create_cache_file_frame [OF this cr wf]
    have "mem_invar q s \<Longrightarrow> q \<noteq> next_cache s" for q
      using wf by (auto simp: heap_wf_def mem_invar_def)
    then have "clean s s1" using v by (intro cleanI) auto
    with v None r cr d show ?thesis
      by (intro that [of "r\<lparr>hv_value := Some (next_cache s)\<rparr>" "next_cache s" s1])
        (simp_all add: HV_write_value_def HV_is_head_complete_def)
  next
    case (Some p)
    then show ?thesis using r wf clean_refl by (intro that [of r p s]) (simp_all add: req_wf_def)
  qed
  have hd: "head_complete r1" "hv_value r1 = Some p" using r one(1) by simp_all
  note push = file_push_eager [OF one(2) d(2) env(1)] file_sink.push_content [OF one(2) d(2), of os]
    file_sink.push_cap [OF one(2) d(2), of os] file_content_bound [OF one(2)]
  have inv: "file_invar p (snd (push_bytes os p d s1))" "heap_wf (snd (push_bytes os p d s1))"
    using file_sink.push_invar [OF one(2) d(2)] file_push_frame(3) [OF one(2) d(2)] one(3) by blast+
  have "cache_full (Some p) (snd (push_bytes os p d s1)) \<or> 0 < fst (push_bytes os p d s1)"
    using file_full_iff [OF inv(1)] push d by auto
  moreover have "clean s (snd (push_bytes os p d s1))"
    by (rule clean_trans [OF one(4) file_push_clean [OF one(2) d(2)]])
  ultimately show ?thesis
    unfolding eq HV_write_value_cached [OF hd one(2) d]
    using r one inv push(1)
    by (auto simp: req_wf_def hv_inv_def hv_status HV_value_completed_def)
qed

text \<open>The first bytes of a header go to its start.\<close>

lemma HV_write_head_start:
  assumes h: "hlen r = 0" "\<not> head_complete r" and d: "d \<noteq> []"
  defines "w \<equiv> min 8 (length d)"
  shows "\<exists>r1. HV_write_head os r (Some d) (int (length d)) s = (int w, r1, s)
    \<and> hlen r1 = int w \<and> (head_complete r1 \<longleftrightarrow> w = 8)
    \<and> hv_value r1 = hv_value r \<and> value_complete r1 = value_complete r"
proof -
  have "(if sizeof_Header > int (length d) then int (length d) else sizeof_Header) = int w"
    by (simp add: w_def sizeof_Header_def)
  then show ?thesis
    using h d by (auto simp: HV_write_head_def memcpy_header_def in_block_def Let_def HV_head_completed_def
        sizeof_Header_def w_def)
qed

lemma HV_write_value_rest:
  assumes "req_wf r s" "d \<noteq> [] \<Longrightarrow> head_complete r" "length d < 2 ^ 31" "disk_ok os" "alloc_ok os" "heap_wf s"
  obtains k r' s' where "HV_write_value os r (Some d) (int (length d)) s = (int k, r', s')"
    "k \<le> length d" "req_wf r' s'" "heap_wf s'" "clean s s'" "hlen r' = hlen r"
proof (cases "d = []")
  case True
  then show ?thesis
    using assms(1,6) by (intro that [of 0 r s]) (simp_all add: HV_write_value_def clean_refl)
next
  case False
  from HV_write_value_progress [OF assms(2) [OF this] assms(1) this assms(3-6)] show ?thesis
    by (auto intro: that)
qed

text \<open>A write into an empty unit: the header, then what follows it.\<close>

lemma HV_write_from_start:
  assumes h: "hlen r = 0" "\<not> head_complete r" and d: "d \<noteq> []"
  obtains w r1 where "w = min 8 (length d)"
    "HV_write_head os r (Some d) (int (length d)) s = (int w, r1, s)"
    "HV_write os r (Some d) (int (length d)) s =
      (let (ret, r', s') = HV_write_value os r1 (Some (drop w d)) (int (length (drop w d))) s
       in if ret = -1 then (-1, r', s') else (int w + ret, r', s'))"
    "hlen r1 = int w" "head_complete r1 \<longleftrightarrow> w = 8" "hv_value r1 = hv_value r" "value_complete r1 = value_complete r"
proof -
  define w where "w = min 8 (length d)"
  obtain r1 where head: "HV_write_head os r (Some d) (int (length d)) s = (int w, r1, s)"
    and r1: "hlen r1 = int w" "head_complete r1 \<longleftrightarrow> w = 8" "hv_value r1 = hv_value r" "value_complete r1 = value_complete r"
    using HV_write_head_start [OF assms, of os s] unfolding w_def by blast
  have rest: "int (length (drop w d)) = int (length d) - int w" by (simp add: w_def)
  have "HV_write os r (Some d) (int (length d)) s =
      (let (ret, r', s') = HV_write_value os r1 (Some (drop w d)) (int (length (drop w d))) s
       in if ret = -1 then (-1, r', s') else (int w + ret, r', s'))"
    unfolding rest by (simp add: HV_write_def head Let_def)
  with head r1 show ?thesis by (intro that [of w r1]) (simp_all add: w_def)
qed

lemma HV_write_progress:
  assumes r: "req_wf r s" "hv_aligned r" and d: "d \<noteq> []" "length d < 2 ^ 31"
    and env: "disk_ok os" "alloc_ok os" and wf: "heap_wf s"
  shows "\<exists>w r' s'. HV_write os r (Some d) (int (length d)) s = (int w, r', s') \<and> w \<le> length d
    \<and> (0 < w \<or> HV_is_complete r' \<and> hlen r = sizeof_Header) \<and> req_wf r' s' \<and> heap_wf s' \<and> clean s s'
    \<and> (w < length d \<longrightarrow> hv_aligned r')"
proof (cases "hlen r = sizeof_Header")
  case True
  then show ?thesis
    using HV_write_value_progress [OF _ r(1) d env wf] r
    by (auto simp: HV_write_reading req_wf_def hv_inv_def hv_aligned_def)
next
  case False
  then have h: "hlen r = 0" "\<not> head_complete r" "\<not> value_complete r"
    using r by (auto simp: req_wf_def hv_inv_def hv_aligned_def)
  obtain w r1 where w: "w = min 8 (length d)"
    and eq: "HV_write os r (Some d) (int (length d)) s =
      (let (ret, r', s') = HV_write_value os r1 (Some (drop w d)) (int (length (drop w d))) s
       in if ret = -1 then (-1, r', s') else (int w + ret, r', s'))"
    and r1: "hlen r1 = int w" "head_complete r1 \<longleftrightarrow> w = 8" "hv_value r1 = hv_value r" "value_complete r1 = value_complete r"
    by (rule HV_write_from_start [OF h(1,2) d(1)])
  have req1: "req_wf r1 s"
    using r r1 w h by (auto simp: req_wf_def hv_inv_def sizeof_Header_def split: option.splits)
  have rest: "drop w d \<noteq> [] \<Longrightarrow> head_complete r1" "length (drop w d) < 2 ^ 31"
    using w r1(2) d(2) by auto
  obtain k r' s' where v: "HV_write_value os r1 (Some (drop w d)) (int (length (drop w d))) s = (int k, r', s')"
    "k \<le> length (drop w d)" "req_wf r' s'" "heap_wf s'" "clean s s'" "hlen r' = hlen r1"
    by (rule HV_write_value_rest [OF req1 rest env wf])
  moreover have "w + k < length d \<Longrightarrow> hv_aligned r'" using w v(6) r1(1) by (auto simp: hv_aligned_def sizeof_Header_def)
  moreover have "0 < w" "w \<le> length d" using w d(1) by auto
  ultimately show ?thesis
    using eq by (intro exI [of _ "w + k"] exI [of _ r'] exI [of _ s']) auto
qed

lemma VH_request_wf:
  assumes "HV_is_complete r" "req_wf r s" "heap_wf s"
  shows "\<exists>r' s'. VH_request r s = (r', s') \<and> req_wf r' s' \<and> heap_wf s' \<and> hlen r' = 0
    \<and> \<not> HV_is_complete r' \<and> clean s s'"
proof (cases "(hv_to r = TO_FILE \<or> hv_to r = TO_SHM) \<and> hv_value r \<noteq> None")
  case True
  then obtain p where p: "hv_value r = Some p" "file_invar p s"
    using assms(2) by (auto simp: req_wf_def)
  then obtain c f st where "caches s p = Some c" "wfp (p_priv c) = Some f" "streams s f = Some st"
    by (auto elim: file_invarE)
  moreover have "mem_invar q s \<Longrightarrow> q \<noteq> p" for q using mem_file_disjoint [OF _ p(2)] by blast
  ultimately show ?thesis
    using p True assms
    by (auto intro!: cleanI simp: VH_request_def HV_clear_def Let_def leave_cache_def fclose_def heap_wf_def req_wf_def
        hv_inv_def hv_status sizeof_Header_def)
next
  case False
  with assms show ?thesis
    by (auto simp: VH_request_def HV_clear_def Let_def req_wf_def hv_inv_def hv_status sizeof_Header_def clean_refl)
qed

lemma VH_response_wf:
  assumes "req_wf (req v) s" "alloc_ok os" "heap_wf s" "session_ok v s"
  shows "\<exists>rsp s'. VH_response os v r st s = (v\<lparr>resp := resp v @ [rsp]\<rparr>, s')
    \<and> req_wf (req v) s' \<and> heap_wf s' \<and> session_ok (v\<lparr>resp := resp v @ [rsp]\<rparr>) s' \<and> clean s s'"
proof -
  from VH_response_ok [OF assms(2,3,4), of r st] obtain rsp s' where
    s': "VH_response os v r st s = (v\<lparr>resp := resp v @ [rsp]\<rparr>, s')" "heap_wf s'"
      "files s' = files s" "streams s' = streams s" "\<forall>q. caches s q \<noteq> None \<longrightarrow> caches s' q = caches s q"
      "session_ok (v\<lparr>resp := resp v @ [rsp]\<rparr>) s'" "ub s' = ub s"
    by auto
  have "clean s s'" using s'(5,7) by (intro cleanI) (auto simp: mem_invar_def split: option.splits)
  have "file_invar p s \<Longrightarrow> file_invar p s'" for p
    using s'(3-5) by (auto simp: file_invar_def file_ok_def split: option.splits)
  then have "req_wf (req v) s'" using assms(1) by (auto simp: req_wf_def split: option.splits)
  with s' \<open>clean s s'\<close> show ?thesis by blast
qed

text \<open>Answering a completed request.\<close>

lemma VH_answer_wf:
  assumes "HV_is_complete r" "req_wf r s" "heap_wf s" "alloc_ok os" "session_ok v s"
  obtains v' s' where
    "(let (r, s) = VH_request r s in VH_response os (v\<lparr>req := r, vstate := OK\<rparr>) r OK s) = (v', s')"
    "req_wf (req v') s'" "heap_wf s'" "session_ok v' s'" "clean s s'" "hlen (req v') = 0" "\<exists>new. resp v' = resp v @ new"
proof -
  obtain r2 s2 where rq: "VH_request r s = (r2, s2)" "req_wf r2 s2" "heap_wf s2" "hlen r2 = 0" "clean s s2"
    using VH_request_wf [OF assms(1-3)] by blast
  let ?v = "v\<lparr>req := r2, vstate := OK\<rparr>"
  have "session_ok ?v s2" using session_cong(1) [OF _ assms(5), of s2 ?v] rq(5) by (simp add: clean_def)
  then obtain rsp s3 where rs: "VH_response os ?v r2 OK s2 = (?v\<lparr>resp := resp ?v @ [rsp]\<rparr>, s3)"
    "req_wf r2 s3" "heap_wf s3" "session_ok (?v\<lparr>resp := resp ?v @ [rsp]\<rparr>) s3" "clean s2 s3"
    using VH_response_wf [of ?v, OF _ assms(4) rq(3), of r2 OK] rq(2) by auto
  show ?thesis
    by (rule that [of "?v\<lparr>resp := resp ?v @ [rsp]\<rparr>" s3]) (use rq rs clean_trans [OF rq(5) rs(5)] in simp_all)
qed

lemma VH_read_loop_total:
  assumes "req_wf (req v) s" "disk_ok os" "alloc_ok os" "heap_wf s" "session_ok v s"
    and "inp \<noteq> []" "length inp < 2 ^ 31" "hv_aligned (req v)"
    and "2 * length inp + (if hlen (req v) = sizeof_Header then 1 else 0) < fuel"
  shows "\<exists>v' s'. VH_read_loop fuel os inp (int (length inp)) v s = Some (v', s')
    \<and> req_wf (req v') s' \<and> heap_wf s' \<and> session_ok v' s' \<and> clean s s' \<and> (\<exists>new. resp v' = resp v @ new)"
  using assms
proof (induction fuel arbitrary: inp v s)
  case 0
  then show ?case by simp
next
  case (Suc fuel)
  note env = Suc.prems(2,3)
  obtain w r s1 where w: "HV_write os (req v) (Some inp) (int (length inp)) s = (int w, r, s1)"
    "w \<le> length inp" "0 < w \<or> HV_is_complete r \<and> hlen (req v) = sizeof_Header" "req_wf r s1" "heap_wf s1"
    "clean s s1" "w < length inp \<longrightarrow> hv_aligned r"
    using HV_write_progress [OF Suc.prems(1,8,6,7) env Suc.prems(4)] by blast
  have len: "length (drop w inp) < 2 ^ 31" using Suc.prems(7) by simp
  have ses: "session_ok (v\<lparr>req := x, vstate := y\<rparr>) t" if "clean s t" for t x y
    using session_cong(1) [OF _ Suc.prems(5), of t] that by (simp add: clean_def)
  show ?case
  proof (cases "HV_is_complete r")
    case False
    then have m: "2 * length (drop w inp) + (if hlen (req (v\<lparr>req := r\<rparr>)) = sizeof_Header then 1 else 0) < fuel"
      using w(2,3) Suc.prems(9) by auto
    have ok: "session_ok (v\<lparr>req := r\<rparr>) s1" using ses [OF w(6), where x = r and y = "vstate v"] by simp
    show ?thesis
      unfolding VH_read_loop_partial [OF Suc.prems(8) w(1) False w(2)]
      using Suc.IH [of "v\<lparr>req := r\<rparr>" s1 "drop w inp", OF _ env w(5) ok _ len _ m] w(4,6,7) ok w(5)
      by (auto intro: clean_trans)
  next
    case True
    have ok: "session_ok v s1" using ses [OF w(6), where x = "req v" and y = "vstate v"] by simp
    obtain u s2 where fin: "(let (r, s) = VH_request r s1 in VH_response os (v\<lparr>req := r, vstate := OK\<rparr>) r OK s) = (u, s2)"
      and u: "req_wf (req u) s2" "heap_wf s2" "session_ok u s2" "clean s1 s2" "hlen (req u) = 0" "\<exists>new. resp u = resp v @ new"
      by (rule VH_answer_wf [OF True w(4,5) env(2) ok])
    have al: "hv_aligned (req u)" using u(5) by (simp add: hv_aligned_def)
    have m: "2 * length (drop w inp) + (if hlen (req u) = sizeof_Header then 1 else 0) < fuel"
      using w(2,3) Suc.prems(9) u(5) by (auto simp: sizeof_Header_def)
    show ?thesis
      unfolding VH_read_loop_complete [OF Suc.prems(8) w(1) True w(2) fin]
      using Suc.IH [of u s2 "drop w inp", OF u(1) env u(2,3) _ len _ m] u al clean_trans [OF w(6) u(4)]
        clean_trans [OF clean_trans [OF w(6) u(4)]]
      by auto
  qed
qed

lemma cstate_frame_response [frame_simps]:
  "cstate.more (snd (VH_response os v r st s)) = cstate.more s"
  by (simp add: VH_response_def Let_def case_prod_beta cstate_frame_hv)

lemma VH_read_loop_frame:
  "VH_read_loop fuel os d n v s = Some (v', s') \<Longrightarrow> cstate.more s' = cstate.more s"
proof (induction fuel arbitrary: d n v s)
  case (Suc fuel)
  from Suc.prems show ?case
    by (auto simp: VH_read_loop.simps(2) Let_def case_prod_beta VH_request_def frame_simps
        dest!: Suc.IH split: if_splits)
       (metis cstate_frame_response cstate_frame_hv(1) cstate_frame_write snd_conv)+
qed simp

lemma sent_on_response [frame_simps]:
  "sent_on k (trace (snd (VH_response os v r st s))) = sent_on k (trace s)"
  by (simp add: VH_response_def Let_def case_prod_beta sent_on_hv)

lemma VH_read_loop_sends_nothing:
  "VH_read_loop fuel os d n v s = Some (v', s') \<Longrightarrow> sent_on k (trace s') = sent_on k (trace s)"
proof (induction fuel arbitrary: d n v s)
  case (Suc fuel)
  from Suc.prems show ?case
    by (auto simp: VH_read_loop.simps(2) Let_def case_prod_beta VH_request_def frame_simps
        dest!: Suc.IH split: if_splits)
       (metis sent_on_response sent_on_hv(1) sent_on_write snd_conv)+
qed simp

lemma rx_sim_cong:
  assumes "caches s' = caches s" "files s' = files s" "streams s' = streams s"
  shows "rx_sim r s' a = rx_sim r s a" "session_ok v s' = session_ok v s" "wires v s' = wires v s"
proof -
  have eqs: "file_invar p s' = file_invar p s" "mem_invar p s' = mem_invar p s" "cache_cap p s' = cache_cap p s"
    "cache_content p s' = cache_content p s" "cache_pending p s' = cache_pending p s" for p
    using assms by (auto simp: file_invar_def file_ok_def mem_invar_def cache_cap_def cache_content_def
        cache_pending_def split: option.splits)
  show "rx_sim r s' a = rx_sim r s a"
    by (cases a) (auto simp: hv_reading_def eqs split: option.splits)
  show "session_ok v s' = session_ok v s" "wires v s' = wires v s"
    by (simp_all add: session_ok_def resp_ok_def wires_def resp_wire_def eqs split: option.split)
qed

subsection \<open>Properties of the session\<close>

text \<open>A session that has received nothing, for the concrete instances.\<close>

definition idle_session :: session where
  "idle_session = \<lparr>req = HV_new TO_AUTO \<lparr>hdr_id = 0, hdr_length = 0\<rparr>, resp = [], vstate = OK\<rparr>"

lemma idle_session_ok:
  "rx_sim (req idle_session) s Rx_idle" "session_ok idle_session s" "heap_wf start_cstate"
  "req_wf (req idle_session) s" "hlen (req idle_session) = 0" "wires idle_session s = []"
  by (simp_all add: idle_session_def HV_new_def session_ok_def heap_wf_def start_cstate_def req_wf_def hv_inv_def
      sizeof_Header_def wires_def)

text \<open>
  C6. The loop of \<open>handle_read\<close> implements the abstract receiver: from a session in the state
  \<open>a\<close>, a buffer the receiver accepts takes the session to the receiver's next state and queues
  one OK response for each request the buffer completes, in order, without undefined behaviour.
\<close>

theorem session_refines_receiver:
  assumes "rx_parse a d = Some (ms, a')" "rx_sim (req v) s a" "disk_ok os" "alloc_ok os" "heap_wf s"
    "session_ok v s" "length d < 2 ^ 31" "length d < fuel" "d \<noteq> []"
  shows "\<exists>v' s'. VH_received fuel os d v s = Some (v', s') \<and> rx_sim (req v') s' a' \<and> heap_wf s'
    \<and> session_ok v' s' \<and> ub s' = ub s
    \<and> wires v' s' = wires v s @ map (\<lambda>(i, body). net_header i 4 @ state_bytes OK) ms"
  using VH_read_loop_refines [OF assms] by (simp add: VH_received_def response_wire_def sizeof_State_def)

theorem session_refines_receiver_witness:
  "\<exists>v' s'. VH_received 2000 good_os (message 9 (replicate 1024 1)) idle_session start_cstate = Some (v', s')
    \<and> ub s' = [] \<and> wires v' s' = [net_header 9 4 @ state_bytes OK]"
proof -
  let ?d = "message 9 (replicate 1024 (1 :: byte))"
  have d: "length ?d = 1032" by (simp add: message_def)
  then have ne: "?d \<noteq> []" by (metis list.size(3) zero_neq_numeral)
  have p: "rx_parse Rx_idle ?d = Some ([(9, replicate 1024 1)], Rx_idle)" by (rule rx_parse_message) simp_all
  show ?thesis
    using session_refines_receiver [OF p idle_session_ok(1) good_os_ok idle_session_ok(3,2) _ _ ne, where fuel = 2000]
      d idle_session_ok(6) by (auto simp: start_cstate_def)
qed



text \<open>
  The bytes of a header that arrive after its first ones are copied outside it.
\<close>

lemma HV_write_head_overrun:
  assumes h: "0 < hlen hv" "hlen hv < 8" and d: "d \<noteq> []"
  obtains hv2 where "HV_write_head os hv (Some d) (int (length d)) s =
    (min (8 - hlen hv) (int (length d)), hv2, s\<lparr>ub := ub s @ [OutOfBounds]\<rparr>)"
proof -
  let ?w = "min (8 - hlen hv) (int (length d))"
  have w: "0 < ?w" "?w \<le> int (length d)" using assms by auto
  have "8 \<le> nat (hlen hv * 8)" using h(1) by simp
  moreover have "0 < length (take (nat ?w) d)" using w d by simp
  ultimately have off: "\<not> in_block (nat (hlen hv * 8)) (length (take (nat ?w) d)) (header_bytes (hv_header hv))"
    unfolding in_block_def length_header_bytes by linarith
  have eq: "(if 8 - hlen hv > int (length d) then int (length d) else 8 - hlen hv) = ?w" by simp
  show ?thesis
    using h d w off eq that
    by (auto simp: HV_write_head_def memcpy_header_def in_block_def [of 0] sizeof_Header_def Let_def)
qed

text \<open>
  A run over the buffers \<open>bs\<close> that has no fault, and one that has none up to a buffer that ends inside
  a header: the next buffer is the first thing to be written outside it.
\<close>

definition handled :: "nat \<Rightarrow> os \<Rightarrow> byte list list \<Rightarrow> session \<Rightarrow> 'a cstate_scheme \<Rightarrow> session \<Rightarrow> 'a cstate_scheme \<Rightarrow> bool" where
  "handled fuel os bs v s v' s' =
     (VH_run fuel os bs v s = Some (v', s') \<and> session_ok v' s' \<and> (\<exists>new. resp v' = resp v @ new) \<and> ub s' = ub s)"

definition header_split :: "os \<Rightarrow> byte list \<Rightarrow> session \<Rightarrow> 'a cstate_scheme \<Rightarrow> bool" where
  "header_split os b v s =
     (0 < hlen (req v) \<and> hlen (req v) < 8 \<and>
      ub (snd (snd (HV_write_head os (req v) (Some b) (int (length b)) s))) = ub s @ [OutOfBounds])"

lemma handled_Cons:
  assumes "VH_received fuel os b v s = Some (v1, s1)" "clean s s1" "\<exists>new. resp v1 = resp v @ new"
    and "handled fuel os bs v1 s1 v' s'"
  shows "handled fuel os (b # bs) v s v' s'"
  using assms by (auto simp: handled_def clean_def)

lemma VH_run_until_split:
  assumes "req_wf (req v) s" "disk_ok os" "alloc_ok os" "heap_wf s" "session_ok v s"
    and "\<forall>b \<in> set bs. b \<noteq> [] \<and> length b < 2 ^ 31 \<and> 2 * length b + 1 < fuel"
  shows "(\<exists>v' s'. handled fuel os bs v s v' s')
    \<or> (\<exists>bs1 b bs2 v1 s1. bs = bs1 @ b # bs2 \<and> handled fuel os bs1 v s v1 s1 \<and> header_split os b v1 s1)"
  using assms
proof (induction bs arbitrary: v s)
  case Nil
  then show ?case by (simp add: handled_def)
next
  case (Cons b bs)
  show ?case
  proof (cases "hv_aligned (req v)")
    case False
    then have "0 < hlen (req v)" "hlen (req v) < 8"
      using Cons.prems(1) by (auto simp: hv_aligned_def req_wf_def hv_inv_def sizeof_Header_def)
    moreover obtain hv2 where "HV_write_head os (req v) (Some b) (int (length b)) s =
        (min (8 - hlen (req v)) (int (length b)), hv2, s\<lparr>ub := ub s @ [OutOfBounds]\<rparr>)"
      using HV_write_head_overrun [OF calculation, of b os s] Cons.prems(6) by auto
    ultimately have "header_split os b v s" by (simp add: header_split_def)
    moreover have "handled fuel os [] v s v s" using Cons.prems(5) by (simp add: handled_def)
    ultimately show ?thesis by (metis append_Nil)
  next
    case True
    have "2 * length b + (if hlen (req v) = sizeof_Header then 1 else 0) < fuel" using Cons.prems(6) by simp
    from VH_read_loop_total [OF Cons.prems(1-5) _ _ True this] Cons.prems(6) obtain v1 s1 where
      one: "VH_received fuel os b v s = Some (v1, s1)" "req_wf (req v1) s1" "heap_wf s1" "session_ok v1 s1"
        "clean s s1" "\<exists>new. resp v1 = resp v @ new"
      by (auto simp: VH_received_def)
    have "\<forall>b \<in> set bs. b \<noteq> [] \<and> length b < 2 ^ 31 \<and> 2 * length b + 1 < fuel" using Cons.prems(6) by simp
    from Cons.IH [OF one(2) Cons.prems(2,3) one(3,4) this] handled_Cons [OF one(1,5,6)] show ?thesis
      by (metis append_Cons)
  qed
qed

text \<open>
  C8. Whatever bytes a client sends, in whatever buffers, on a disk that takes what it is given: either
  every \<open>handle_read\<close> ends without undefined behaviour, the queue only growing and staying sendable,
  or this holds up to a buffer that ends inside a header, and the first undefined behaviour is
  the write of the next buffer outside that header. Nothing is said of what follows it.
\<close>

theorem any_stream_is_handled:
  assumes "req_wf (req v) s" "disk_ok os" "alloc_ok os" "heap_wf s" "session_ok v s"
    and "\<forall>b \<in> set bs. b \<noteq> [] \<and> length b < 2 ^ 31 \<and> 2 * length b + 1 < fuel"
  shows "(\<exists>v' s' new. VH_run fuel os bs v s = Some (v', s') \<and> session_ok v' s' \<and> resp v' = resp v @ new \<and> ub s' = ub s)
    \<or> (\<exists>bs1 b bs2 v1 s1 new. bs = bs1 @ b # bs2 \<and> VH_run fuel os bs1 v s = Some (v1, s1) \<and> session_ok v1 s1
        \<and> resp v1 = resp v @ new \<and> ub s1 = ub s \<and> 0 < hlen (req v1) \<and> hlen (req v1) < 8
        \<and> ub (snd (snd (HV_write_head os (req v1) (Some b) (int (length b)) s1))) = ub s @ [OutOfBounds])"
  using VH_run_until_split [OF assms] unfolding handled_def header_split_def by (elim disjE exE conjE) (blast, metis)

theorem any_stream_is_handled_witness:
  "(\<exists>v' s'. VH_run 20 good_os [[0, 0, 0, 1, 0, 0, 0, 2], [4]] idle_session start_cstate = Some (v', s') \<and> ub s' = [])
    \<or> (\<exists>bs1 b bs2 v1 s1. [[0, 0, 0, 1, 0, 0, 0, 2], [4]] = bs1 @ b # bs2
        \<and> VH_run 20 good_os bs1 idle_session start_cstate = Some (v1, s1) \<and> ub s1 = [] \<and> hlen (req v1) \<in> {1..7})"
  using any_stream_is_handled [OF idle_session_ok(4) good_os_ok idle_session_ok(3,2),
      of "[[0, 0, 0, 1, 0, 0, 0, 2], [4]]" 20]
  unfolding start_cstate_def by force

subsection \<open>A full disk\<close>

definition disk_full :: "os \<Rightarrow> bool" where
  "disk_full os = (\<forall>h f n. os_fwrite os h f n = 0)"

lemma file_push_full:
  assumes "file_invar p s" "length d < 2 ^ 31" "disk_full os"
  shows "fst (push_bytes os p d s) = 0"
proof -
  from assms(1) obtain c where c: "caches s p = Some c" by (rule file_invarE)
  have n: "unat (of_nat (length d) :: u32) = length d" using assms(2) by (intro unat_of_nat_u32) simp
  show ?thesis
    using file_push_step [OF assms(1) c, of "of_nat (length d)" d os] assms(2,3) n
    by (auto simp: push_bytes_def disk_full_def)
qed

text \<open>
  C23. On a full disk the loop of \<open>handle_read\<close> never ends: with the value of a large request
  still incomplete, \<open>fwrite\<close> takes nothing, \<open>HV::write\<close> returns 0 and the loop tries the same
  bytes again, for any number of iterations.
\<close>

theorem handle_read_diverges_on_full_disk:
  assumes "hv_reading (req v) s got" "hv_value (req v) = Some p" "disk_full os" "d \<noteq> []" "length d < 2 ^ 31"
  shows "VH_received fuel os d v s = None"
proof -
  have "VH_read_loop fuel os d (int (length d)) v s = None"
    using assms(1,2)
  proof (induction fuel arbitrary: v s)
    case (Suc fuel)
    let ?r = "req v" and ?s = "snd (push_bytes os p d s)"
    have st: "head_complete ?r" "file_invar p s" "hlen ?r = sizeof_Header" "\<not> value_complete ?r"
      "cache_cap p s = unat (hdr_length (hv_header ?r))" "cache_content p s = got"
      "length got < unat (hdr_length (hv_header ?r))"
      using Suc.prems by (simp_all add: hv_reading_def)
    note none = file_push_full [OF st(2) assms(5,3)]
    have inv: "file_invar p ?s" "cache_content p ?s = got" "cache_cap p ?s = cache_cap p s"
      using file_sink.push_invar [OF st(2) assms(5)] file_sink.push_content [OF st(2) assms(5), of os]
        file_sink.push_cap [OF st(2) assms(5), of os] none st(6) by simp_all
    have "HV_write os ?r (Some d) (int (length d)) s = (0, ?r, ?s)"
      using HV_write_value_cached [OF st(1) Suc.prems(2) st(2) assms(4,5), of os] none file_full_iff [OF inv(1)]
        inv st by (simp add: HV_write_reading)
    moreover have "\<not> HV_is_complete ?r" "hv_aligned ?r" using st(3,4) by (simp_all add: hv_status hv_aligned_def)
    moreover have "hv_reading (req v) ?s got" using Suc.prems inv by (simp add: hv_reading_def)
    ultimately show ?case
      using Suc.IH [of v ?s] Suc.prems(2) assms(4) by (simp add: VH_read_loop.simps(2))
  qed simp
  then show ?thesis by (simp add: VH_received_def)
qed

theorem handle_read_diverges_on_full_disk_witness:
  "\<exists>v s. VH_received 1000000 (good_os\<lparr>os_fwrite := \<lambda>h f n. 0\<rparr>) [1] v (s :: cstate) = None"
proof -
  obtain s where cr: "create_cache good_os None (ucast (2048 :: u32)) TO_FILE start_cstate = (Some 0, s)"
    using create_cache_file_succeeds [OF good_os_ok, of "ucast (2048 :: u32)" start_cstate]
    by (auto simp: start_cstate_def)
  let ?r = "\<lparr>hv_to = TO_FILE, hv_header = \<lparr>hdr_id = 1, hdr_length = 2048\<rparr>, hv_value = Some 0,
      hlen = sizeof_Header, head_complete = True, vlen = 0, value_complete = False\<rparr>"
  have "hv_reading ?r s []"
    using create_cache_file_views(1-3) [OF _ cr] by (simp add: hv_reading_def)
  then show ?thesis
    using handle_read_diverges_on_full_disk [of "\<lparr>req = ?r, resp = [], vstate = OK\<rparr>" s "[]" 0
        "good_os\<lparr>os_fwrite := \<lambda>h f n. 0\<rparr>" "[1]" 1000000]
    by (auto simp: disk_full_def)
qed

subsection \<open>Requests the code does not handle\<close>

text \<open>
  C22. A header that arrives in two buffers: the second part is copied to
  \<open>&this->header + hlen\<close>, which is \<open>8 * hlen\<close> bytes past the header, so \<open>memcpy\<close> writes outside it.
\<close>

theorem split_header_out_of_bounds:
  assumes hv: "hlen hv = 0" "\<not> head_complete hv" and d: "d1 \<noteq> []" "length d1 < 8" "d2 \<noteq> []"
  shows "\<exists>hv1 hv2. HV_write_head os hv (Some d1) (int (length d1)) s = (int (length d1), hv1, s)
    \<and> HV_write_head os hv1 (Some d2) (int (length d2)) s =
       (min (8 - int (length d1)) (int (length d2)), hv2, s\<lparr>ub := ub s @ [OutOfBounds]\<rparr>)"
proof -
  obtain hv1 where one: "HV_write_head os hv (Some d1) (int (length d1)) s = (int (length d1), hv1, s)"
    "hlen hv1 = int (length d1)"
    using HV_write_head_start [OF hv d(1), of os s] d(2) by auto
  then have "0 < hlen hv1" "hlen hv1 < 8" using d by auto
  with HV_write_head_overrun [OF this d(3), of os s] one show ?thesis by metis
qed

theorem split_header_out_of_bounds_witness:
  "\<exists>hv1 hv2. HV_write_head good_os (HV_new TO_AUTO \<lparr>hdr_id = 0, hdr_length = 0\<rparr>) (Some [0, 0, 0]) 3 start_cstate =
      (3, hv1, start_cstate)
    \<and> HV_write_head good_os hv1 (Some [0, 1]) 2 start_cstate = (2, hv2, start_cstate\<lparr>ub := [OutOfBounds]\<rparr>)"
  using split_header_out_of_bounds [of "HV_new TO_AUTO \<lparr>hdr_id = 0, hdr_length = 0\<rparr>" "[0, 0, 0]" "[0, 1]" good_os start_cstate]
  by (simp add: HV_new_def start_cstate_def)

text \<open>
  C21. After a request of less than 1024 bytes the session is out of step: \<open>clear\<close> keeps the full
  cache of that request, so the next request counts as complete as soon as its header has
  been read. Its body is not taken, and the loop reads it as the next header.
\<close>

theorem small_request_desyncs:
  assumes rec: "hv_received r s body" and small: "hv_to r = TO_MEM"
    and x: "x \<noteq> []" "length x + 8 < 2 ^ 31"
  shows "\<exists>r2 r3 s3. VH_request r s = (r2, s)
    \<and> HV_write os r2 (Some (net_header i n @ x)) (int (length (net_header i n @ x))) s = (8, r3, s3)
    \<and> HV_is_complete r3 \<and> hdr_id (hv_header r3) = i"
proof -
  obtain p where p: "hv_value r = Some p" "file_invar p s" "length (cache_content p s) = cache_cap p s"
    using rec by (auto simp: hv_received_def split: option.splits)
  define r2 where "r2 = r\<lparr>hlen := 0, vlen := 0, head_complete := False, value_complete := False\<rparr>"
  have req: "VH_request r s = (r2, s)" using small by (simp add: VH_request_def HV_clear_small r2_def)
  define r3 where "r3 = r2\<lparr>hv_header := \<lparr>hdr_id = i, hdr_length = n\<rparr>, hlen := 8, head_complete := True,
      hv_to := (if n < DEFAULT_MAX_MEMORY_CACHE then TO_MEM else TO_FILE)\<rparr>"
  have head: "HV_write_head os r2 (Some (net_header i n @ x)) (int (length (net_header i n @ x))) s = (8, r3, s)"
    unfolding r3_def by (rule HV_write_head_whole) (simp_all add: r2_def)
  have x2: "length x < 2 ^ 31" using x(2) by simp
  note push = file_sink.push_bound [OF p(2) x2, of os] file_sink.push_content [OF p(2) x2, of os]
    file_sink.push_cap [OF p(2) x2, of os] file_sink.push_invar [OF p(2) x2, of os]
  have full: "fst (push_bytes os p x s) = 0" "cache_full (Some p) (snd (push_bytes os p x s))"
    using push p(3) file_full_iff [OF push(4)] by simp_all
  have "HV_write_value os r3 (Some x) (int (length x)) s = (0, HV_value_completed r3, snd (push_bytes os p x s))"
    using HV_write_value_cached [of r3 p s x os] p(1,2) x(1) x2 full by (simp add: r3_def r2_def)
  with head req show ?thesis
    by (intro exI [of _ r2] exI [of _ "HV_value_completed r3"] exI [of _ "snd (push_bytes os p x s)"])
      (simp add: HV_write_def hv_status HV_value_completed_def r3_def)
qed

theorem small_request_desyncs_witness:
  "\<exists>r s r2 r3 s3. hv_received r (s :: cstate) [5] \<and> VH_request r s = (r2, s)
    \<and> HV_write good_os r2 (Some (net_header 2 4096 @ [0])) 9 s = (8, r3, s3) \<and> HV_is_complete r3"
proof -
  obtain s1 where cr: "create_cache good_os None (ucast (1 :: u32)) TO_FILE start_cstate = (Some 0, s1)"
    using create_cache_file_succeeds [OF good_os_ok, of "ucast (1 :: u32)" start_cstate]
    by (auto simp: start_cstate_def)
  have v: "file_invar 0 s1" "cache_content 0 s1 = []" "cache_cap 0 s1 = 1"
    using create_cache_file_views(1-3) [OF _ cr] by simp_all
  let ?s = "snd (push_bytes good_os 0 [5] s1)"
  let ?r = "\<lparr>hv_to = TO_MEM, hv_header = \<lparr>hdr_id = 1, hdr_length = 1\<rparr>, hv_value = Some 0,
      hlen = sizeof_Header, head_complete = True, vlen = 0, value_complete = True\<rparr>"
  have "hv_received ?r ?s [5]"
    using file_push_eager [OF v(1) _ good_os_ok(1), of "[5]"] file_sink.push_content [OF v(1), of "[5]" good_os]
      file_sink.push_cap [OF v(1), of "[5]" good_os] file_sink.push_invar [OF v(1), of "[5]" good_os] v(2,3)
    by (simp add: hv_received_def hv_status)
  with small_request_desyncs [OF this, of "[0]" good_os 2 4096] have
    "\<exists>r2 r3 s3. hv_received ?r ?s [5] \<and> VH_request ?r ?s = (r2, ?s)
      \<and> HV_write good_os r2 (Some (net_header 2 4096 @ [0])) 9 ?s = (8, r3, s3) \<and> HV_is_complete r3"
    by auto
  then show ?thesis by blast
qed

subsection \<open>Bounds on what a write takes\<close>

lemma HV_write_value_range:
  assumes r: "req_wf hv s" and d: "length d < 2 ^ 31" and env: "alloc_ok os"
    and w: "HV_write_value os hv (Some d) (int (length d)) s = (r, hv', s')"
  shows "-1 \<le> r \<and> r \<le> int (length d) \<and> req_wf hv' s' \<and> ub s' = ub s"
proof (cases "d = [] \<or> \<not> head_complete hv")
  case True
  then have "HV_write_value os hv (Some d) (int (length d)) s = (0, hv, s)"
    by (elim disjE) (simp_all add: HV_write_value_def HV_is_head_complete_def)
  then show ?thesis using w r by simp
next
  case False
  then have ne: "d \<noteq> []" "head_complete hv" by simp_all
  have cached: ?thesis
    if h: "req_wf h t" "hv_value h = Some p" "head_complete h" "ub t = ub s"
      and eq: "HV_write_value os h (Some d) (int (length d)) t = (r, hv', s')" for h p t
  proof -
    have inv: "file_invar p t" using h(1,2) by (simp add: req_wf_def)
    have "file_invar p (snd (push_bytes os p d t))" using file_sink.push_invar [OF inv d] .
    then show ?thesis
      using h eq file_sink.push_bound [OF inv d, of os] file_push_ub [OF inv d, of os]
      unfolding HV_write_value_cached [OF h(3,2) inv ne(1) d]
      by (auto simp: req_wf_def hv_inv_def HV_value_completed_def)
  qed
  show ?thesis
  proof (cases "hv_value hv")
    case (Some p)
    show ?thesis by (rule cached [OF r Some ne(2) refl w])
  next
    case None
    obtain q s1 where cr: "create_cache os None (ucast (hdr_length (hv_header hv))) TO_FILE s = (q, s1)"
      by (rule prod.exhaust)
    let ?h = "hv\<lparr>hv_value := q\<rparr>"
    have inv: "hv_inv ?h" using r by (auto simp: req_wf_def hv_inv_def)
    show ?thesis
    proof (cases q)
      case None
      then show ?thesis
        using w cr \<open>hv_value hv = None\<close> ne inv create_cache_file_failed [OF env, of _ s s1]
        by (auto simp: HV_write_value_def HV_is_head_complete_def req_wf_def)
    next
      case (Some p)
      have "unat (ucast (hdr_length (hv_header hv)) :: size_t) < 2 ^ 63"
        using unat_bound [of "hdr_length (hv_header hv)"] by simp
      note v = create_cache_file_views(1,4) [OF this cr [unfolded Some]]
      show ?thesis
      proof (rule cached [of ?h s1 p])
        show "req_wf ?h s1" using inv v(1) Some by (simp add: req_wf_def)
        show "HV_write_value os ?h (Some d) (int (length d)) s1 = (r, hv', s')"
          using w cr \<open>hv_value hv = None\<close> ne Some by (simp add: HV_write_value_def HV_is_head_complete_def)
      qed (use v ne Some in simp_all)
    qed
  qed
qed

text \<open>
  C18. Whatever the disk does, \<open>HV::write\<close> into a well-formed unit that holds no part of a header (it is
  at the start of one, or has it whole) returns -1 or the number of bytes it took, never more than
  it was given, reaches no undefined behaviour and keeps the unit well-formed: \<open>hlen\<close> within the
  header, \<open>head_complete\<close> exactly when the header is whole, no complete value without it, and a value,
  if there is one, that is a live file cache. The allocator does not fail.
\<close>

theorem HV_write_range:
  assumes inv: "req_wf hv s" "hlen hv = 0 \<or> hlen hv = 8" and d: "length d < 2 ^ 31" and env: "alloc_ok os"
    and w: "HV_write os hv (Some d) (int (length d)) s = (r, hv', s')"
  shows "-1 \<le> r \<and> r \<le> int (length d) \<and> req_wf hv' s' \<and> ub s' = ub s"
proof (cases "hlen hv = sizeof_Header \<or> d = []")
  case True
  then have "HV_write_head os hv (Some d) (int (length d)) s = (0, hv, s)"
    by (auto simp: HV_write_head_def)
  with w HV_write_value_range [OF inv(1) d env] show ?thesis
    by (auto simp: HV_write_def Let_def split: prod.splits if_splits)
next
  case False
  then have h: "hlen hv = 0" "\<not> head_complete hv" "\<not> value_complete hv" "d \<noteq> []"
    using inv by (auto simp: req_wf_def hv_inv_def sizeof_Header_def)
  obtain m h1 where m: "m = min 8 (length d)"
    and eq: "HV_write os hv (Some d) (int (length d)) s =
      (let (ret, r', s') = HV_write_value os h1 (Some (drop m d)) (int (length (drop m d))) s
       in if ret = -1 then (-1, r', s') else (int m + ret, r', s'))"
    and h1: "hlen h1 = int m" "head_complete h1 \<longleftrightarrow> m = 8" "hv_value h1 = hv_value hv" "value_complete h1 = value_complete hv"
    by (rule HV_write_from_start [OF h(1,2,4)])
  have req1: "req_wf h1 s" using inv(1) h h1 m by (auto simp: req_wf_def hv_inv_def sizeof_Header_def split: option.splits)
  obtain n h2 s2 where v: "HV_write_value os h1 (Some (drop m d)) (int (length (drop m d))) s = (n, h2, s2)"
    by (rule prod_cases3)
  have len: "length (drop m d) < 2 ^ 31" "int m + int (length (drop m d)) = int (length d)" using m d by simp_all
  note range = HV_write_value_range [OF req1 len(1) env v]
  have "r = (if n = -1 then -1 else int m + n)" "hv' = h2" "s' = s2" using w unfolding eq v by (auto split: if_splits)
  then show ?thesis using range len(2) by auto
qed

theorem HV_write_range_witness:
  "\<exists>r hv' s'. HV_write (good_os\<lparr>os_fwrite := \<lambda>h f n. 0\<rparr>) (req idle_session) (Some (net_header 1 9 @ [1])) 9 start_cstate = (r, hv', s')
    \<and> r \<le> 9 \<and> hv_inv hv' \<and> ub s' = []"
proof -
  let ?os = "good_os\<lparr>os_fwrite := \<lambda>h f n. 0\<rparr>" and ?d = "net_header 1 9 @ [1]"
  obtain r hv' s' where w: "HV_write ?os (req idle_session) (Some ?d) (int (length ?d)) start_cstate = (r, hv', s')"
    by (rule prod_cases3)
  have "alloc_ok ?os" using good_os_ok(2) by (simp add: alloc_ok_def)
  from HV_write_range [OF idle_session_ok(4) _ _ this w] w idle_session_ok(5) show ?thesis
    by (auto simp: req_wf_def start_cstate_def)
qed

text \<open>
  A request whose header announces no body is not answered when it arrives: the unit has its
  header, but a value is only checked for completeness when there are bytes to write to it.
\<close>

theorem empty_request_unanswered:
  assumes "rx_sim (req v) s Rx_idle"
  shows "\<exists>r. VH_received (Suc fuel) os (net_header i 0) v s = Some (v\<lparr>req := r\<rparr>, s)
    \<and> head_complete r \<and> hdr_length (hv_header r) = 0 \<and> \<not> HV_is_complete r"
proof -
  have r: "hlen (req v) = 0" "\<not> head_complete (req v)" "\<not> value_complete (req v)" using assms by simp_all
  define r1 where "r1 = (req v)\<lparr>hv_header := \<lparr>hdr_id = i, hdr_length = 0\<rparr>, hlen := 8, head_complete := True,
      hv_to := (if 0 < DEFAULT_MAX_MEMORY_CACHE then TO_MEM else TO_FILE)\<rparr>"
  have "HV_write_head os (req v) (Some (net_header i 0)) 8 s = (8, r1, s)"
    using HV_write_head_whole [OF r(1,2), of "net_header i 0" i 0 "[]" os s] by (simp add: r1_def)
  then have "HV_write os (req v) (Some (net_header i 0)) 8 s = (8, r1, s)"
    by (simp add: HV_write_def HV_write_value_def)
  moreover have "\<not> HV_is_complete r1" "hv_aligned (req v)" using r by (simp_all add: hv_status hv_aligned_def r1_def)
  ultimately show ?thesis
    by (intro exI [of _ r1]) (simp add: VH_received_def VH_read_loop.simps(2) r1_def)
qed

theorem empty_request_unanswered_witness:
  "\<exists>r. VH_received 1 good_os (net_header 7 0) idle_session start_cstate = Some (idle_session\<lparr>req := r\<rparr>, start_cstate)
    \<and> \<not> HV_is_complete r"
  using empty_request_unanswered [OF idle_session_ok(1), of 0 good_os 7 start_cstate] by auto

end
