(* ===== verification/Base_Socket.thy ===== *)
theory Base_Socket
  imports Cp_Socket Ss_Map Virus_Session
begin

text \<open>
  \<^bold>\<open>inc/base_socket.h\<close>, \<^bold>\<open>src/base_socket.cpp\<close> up to the event loop: the socket objects, the
  maps that own them, and the methods of \<open>BaseSocket\<close>.

  Objects live in a store \<open>objs\<close> indexed by address. A map entry is the only owner of the
  object it points to (\<open>add_channel\<close> wraps \<open>this\<close> in a fresh \<open>shared_ptr\<close>), so erasing the
  entry deletes the object: its \<open>o_alive\<close> becomes false and every later access is recorded
  as \<open>UseAfterFree\<close>, after which the model goes on with the contents the freed memory still
  has. Maps are indexed by address too; address 0 is \<open>g_handlers\<close>.

  A method that calls a virtual method of \<open>this\<close> takes it as an argument (\<open>v_close\<close>, \<open>v_expt\<close>,
  ...); the theory of the event loop ties the knot with the dispatch on the class of the
  object. \<open>debug_print\<close> is not modelled; \<open>log\<close> is an event of the history.
\<close>

subsection \<open>Data\<close>

datatype sock_class = Cls_BaseSocket | Cls_SocketHandler | Cls_VirusHandler | Cls_TCPServerImpl

type_synonym ss_addr_t = "string \<times> u16"

text \<open>\<open>o_session\<close> holds the members \<open>VirusHandler\<close> adds.\<close>

record obj =
  o_class :: sock_class
  o_alive :: bool
  o_sock :: cp_socket_t
  o_family_type :: "int \<times> int"
  o_addr :: ss_addr_t
  o_handlers :: "nat option"
  o_connected :: bool
  o_connecting :: bool
  o_accepting :: bool
  o_closing :: bool
  o_debug :: bool
  o_session :: session

record world = cstate +
  objs :: "nat \<Rightarrow> obj"
  next_obj :: nat
  maps :: "nat \<Rightarrow> (cp_socket_t, nat) ss_map"

definition g_handlers :: nat where "g_handlers = 0"

definition touch :: "nat \<Rightarrow> world \<Rightarrow> world" where
  "touch this s = (if o_alive (objs s this) then s else fault (UseAfterFree this) s)"

definition upd_obj :: "nat \<Rightarrow> (obj \<Rightarrow> obj) \<Rightarrow> world \<Rightarrow> world" where
  "upd_obj this f s = (touch this s)\<lparr>objs := (objs s)(this := f (objs s this))\<rparr>"

text \<open>\<open>delete this\<close>, by the \<open>shared_ptr\<close> that owns the object.\<close>

definition delete_obj :: "nat \<Rightarrow> world \<Rightarrow> world" where
  "delete_obj this s = upd_obj this (\<lambda>x. x\<lparr>o_alive := False\<rparr>) s"

definition channel_erase :: "nat \<Rightarrow> cp_socket_t \<Rightarrow> world \<Rightarrow> world" where
  "channel_erase mp k s =
     (case map_find k (maps s mp) of
        None \<Rightarrow> s
      | Some p \<Rightarrow> delete_obj p (s\<lparr>maps := (maps s)(mp := map_erase k (maps s mp))\<rparr>))"

subsection \<open>Registration\<close>

definition BaseSocket_add_channel :: "nat \<Rightarrow> nat option \<Rightarrow> world \<Rightarrow> world" where
  "BaseSocket_add_channel this p_handlers s =
     (let s = touch this s in
      case p_handlers of
        None \<Rightarrow> fault NullDeref s
      | Some mp \<Rightarrow>
          (let s = touch this (channel_erase mp (o_sock (objs s this)) s)
           in s\<lparr>maps := (maps s)(mp := map_insert (o_sock (objs s this)) this (maps s mp))\<rparr>))"

definition BaseSocket_del_channel :: "nat \<Rightarrow> nat option \<Rightarrow> world \<Rightarrow> world" where
  "BaseSocket_del_channel this p_handlers s =
     (let s = touch this s in
      case p_handlers of
        None \<Rightarrow> fault NullDeref s
      | Some mp \<Rightarrow> channel_erase mp (o_sock (objs s this)) s)"

definition BaseSocket_set_socket :: "nat \<Rightarrow> cp_socket_t \<Rightarrow> nat option \<Rightarrow> world \<Rightarrow> world" where
  "BaseSocket_set_socket this k p_handlers s =
     BaseSocket_add_channel this p_handlers (upd_obj this (\<lambda>x. x\<lparr>o_sock := k\<rparr>) s)"

definition BaseSocket_create_socket :: "os \<Rightarrow> nat \<Rightarrow> int \<Rightarrow> int \<Rightarrow> world \<Rightarrow> int \<times> world" where
  "BaseSocket_create_socket os this af type s =
     (let s = upd_obj this (\<lambda>x. x\<lparr>o_family_type := (af, type)\<rparr>) s;
          s = (if type = SOCK_STREAM then
                 (let (k, s) = cp_socket_tcp os AF_INET SOCK_STREAM IPPROTO_TCP s
                  in upd_obj this (\<lambda>x. x\<lparr>o_sock := k\<rparr>) s)
               else if type = SOCK_DGRAM then
                 (let (k, s) = cp_socket_udp os AF_INET SOCK_DGRAM IPPROTO_UDP s
                  in upd_obj this (\<lambda>x. x\<lparr>o_sock := k\<rparr>) s)
               else s);
          k = o_sock (objs s this)
      in if cp_socket_valid k then
           (let (_, s) = cp_setblocking os k False s
            in (0, BaseSocket_set_socket this k (o_handlers (objs s this)) s))
         else (-1, s))"

definition BaseSocket_set_reuse_addr :: "nat \<Rightarrow> world \<Rightarrow> world" where
  "BaseSocket_set_reuse_addr this s = s"

subsection \<open>Construction\<close>

text \<open>The contents of memory before the constructor runs, where nothing reads them.\<close>

definition blank_session :: session where
  "blank_session =
     \<lparr>req = HV_new TO_AUTO \<lparr>hdr_id = 0, hdr_length = 0\<rparr>, resp = [], vstate = OK\<rparr>"

definition blank_obj :: "sock_class \<Rightarrow> obj" where
  "blank_obj cls =
     \<lparr>o_class = cls, o_alive = False, o_sock = INVALID_SOCKET, o_family_type = (0, 0),
      o_addr = ('''', 0), o_handlers = None, o_connected = False, o_connecting = False,
      o_accepting = False, o_closing = False, o_debug = False, o_session = blank_session\<rparr>"

definition new_obj :: "sock_class \<Rightarrow> world \<Rightarrow> nat \<times> world" where
  "new_obj cls s =
     (next_obj s,
      s\<lparr>objs := (objs s)(next_obj s := (blank_obj cls)\<lparr>o_alive := True\<rparr>),
        next_obj := Suc (next_obj s)\<rparr>)"

definition BaseSocket_ctor :: "os \<Rightarrow> nat \<Rightarrow> cp_socket_t \<Rightarrow> nat option \<Rightarrow> world \<Rightarrow> world" where
  "BaseSocket_ctor os this k p_handlers s =
     (let s = upd_obj this (\<lambda>x. x\<lparr>o_sock := k, o_handlers := p_handlers, o_connected := False,
                o_connecting := False, o_accepting := False, o_closing := False, o_debug := True\<rparr>) s;
          s = (if o_handlers (objs s this) = None
               then upd_obj this (\<lambda>x. x\<lparr>o_handlers := Some g_handlers\<rparr>) s else s)
      in if cp_socket_valid k then
           (let (_, s) = cp_setblocking os k False s;
                s = BaseSocket_set_socket this k p_handlers s;
                s = upd_obj this (\<lambda>x. x\<lparr>o_connected := True\<rparr>) s;
                (ret, sin, s) = cp_getpeername os k (stack_sockaddr os 0 0 s) s
            in if ret = 0 then
                 (case fst (cp_inet_ntop os (Some sin) (Some '''') 16) of
                    None \<Rightarrow> fault NullDeref s
                  | Some peer_host \<Rightarrow>
                      upd_obj this (\<lambda>x. x\<lparr>o_addr := (peer_host, ntohs (sin_port sin))\<rparr>) s)
               else if errno s = EINVAL \<or> errno s = ENOTCONN then
                 upd_obj this (\<lambda>x. x\<lparr>o_connected := False\<rparr>) s
               else BaseSocket_del_channel this (o_handlers (objs s this)) s)
         else s)"

subsection \<open>Queries\<close>

definition BaseSocket_socket :: "nat \<Rightarrow> world \<Rightarrow> cp_socket_t" where
  "BaseSocket_socket this s = o_sock (objs s this)"

definition BaseSocket_address :: "nat \<Rightarrow> world \<Rightarrow> ss_addr_t" where
  "BaseSocket_address this s = o_addr (objs s this)"

definition BaseSocket_is_accepting :: "nat \<Rightarrow> world \<Rightarrow> bool" where
  "BaseSocket_is_accepting this s = o_accepting (objs s this)"

definition BaseSocket_readable :: "nat \<Rightarrow> world \<Rightarrow> bool" where
  "BaseSocket_readable this s = cp_socket_valid (BaseSocket_socket this s)"

definition BaseSocket_writable :: "nat \<Rightarrow> world \<Rightarrow> bool" where
  "BaseSocket_writable this s = cp_socket_valid (BaseSocket_socket this s)"

subsection \<open>Socket operations\<close>

definition host_ptr :: "ss_addr_t \<Rightarrow> string option" where
  "host_ptr a = (if fst a = [] then None else Some (fst a))"

definition BaseSocket_listen :: "os \<Rightarrow> nat \<Rightarrow> int \<Rightarrow> world \<Rightarrow> int \<times> world" where
  "BaseSocket_listen os this maxn s =
     (let s = upd_obj this (\<lambda>x. x\<lparr>o_accepting := True\<rparr>) s
      in cp_listen os (o_sock (objs s this)) maxn s)"

definition BaseSocket_bind :: "os \<Rightarrow> nat \<Rightarrow> ss_addr_t \<Rightarrow> int \<Rightarrow> world \<Rightarrow> int \<times> world" where
  "BaseSocket_bind os this a af s =
     (let s = upd_obj this (\<lambda>x. x\<lparr>o_addr := a\<rparr>) s
      in cp_bind os (o_sock (objs s this)) af (host_ptr a) (snd a) s)"

definition BaseSocket_accept ::
  "os \<Rightarrow> nat \<Rightarrow> world \<Rightarrow> cp_socket_t \<times> ss_addr_t option \<times> world"
where
  "BaseSocket_accept os this s =
     (let s = touch this s;
          (k, sin_addr, s) = cp_accept os (o_sock (objs s this)) (stack_sockaddr os 0 0 s) s
      in if cp_socket_valid k then
           (let ip = snd (cp_inet_ntop os (Some sin_addr) (Some '''') 16)
            in (k, Some (case ip of None \<Rightarrow> '''' | Some str \<Rightarrow> str, ntohs (sin_port sin_addr)), s))
         else if errno s = EAGAIN \<or> errno s = EWOULDBLOCK \<or> errno s = ECONNABORTED
         then (INVALID_SOCKET, None, s)
         else (k, None, s))"

definition BaseSocket_send ::
  "os \<Rightarrow> (nat \<Rightarrow> world \<Rightarrow> world) \<Rightarrow> nat \<Rightarrow> byte list \<Rightarrow> size_t \<Rightarrow> world \<Rightarrow> int \<times> world"
where
  "BaseSocket_send os v_close this b n s =
     (let s = touch this s;
          (ret, s) = cp_send os (o_sock (objs s this)) (Some b) (int_of_size n) 0 s
      in if ret = SOCKET_ERROR then
           (if errno s = EAGAIN \<or> errno s = EWOULDBLOCK then (0, s) else (ret, v_close this s))
         else (ret, s))"

definition BaseSocket_recv ::
  "os \<Rightarrow> (nat \<Rightarrow> world \<Rightarrow> world) \<Rightarrow> (nat \<Rightarrow> world \<Rightarrow> world) \<Rightarrow> nat \<Rightarrow> size_t \<Rightarrow> world \<Rightarrow>
    int \<times> byte list \<times> world"
where
  "BaseSocket_recv os v_close v_expt this n s =
     (let s = touch this s;
          (ret, d, s) = cp_recv os (o_sock (objs s this)) True (size_of_int (int_of_size n)) 0 s;
          s = (if ret = 0 then v_close this s
               else if ret = SOCKET_ERROR then v_expt this s else s)
      in (ret, d, s))"

definition BaseSocket_close :: "nat \<Rightarrow> world \<Rightarrow> world" where
  "BaseSocket_close this s =
     (let s = upd_obj this (\<lambda>x. x\<lparr>o_connected := False, o_connecting := False, o_accepting := False\<rparr>) s;
          s = BaseSocket_del_channel this (o_handlers (objs s this)) s;
          s = touch this s
      in cp_close_socket (o_sock (objs s this)) s)"

definition BaseSocket_log :: "string \<Rightarrow> world \<Rightarrow> world" where
  "BaseSocket_log messg s = emit (Ev_log messg) s"

definition BaseSocket_log_warning :: "string \<Rightarrow> world \<Rightarrow> world" where
  "BaseSocket_log_warning msg s = BaseSocket_log (''WARNING: '' @ msg) s"

definition BaseSocket_log_info :: "string \<Rightarrow> world \<Rightarrow> world" where
  "BaseSocket_log_info msg s = BaseSocket_log (''INFO: '' @ msg) s"

subsection \<open>Events\<close>

text \<open>\<open>getsockopt(sock, SOL_SOCKET, SO_ERROR, nullptr, nullptr)\<close>.\<close>

definition sys_getsockopt :: "os \<Rightarrow> cp_socket_t \<Rightarrow> world \<Rightarrow> int \<times> world" where
  "sys_getsockopt os k s =
     (let r = os_getsockopt os (trace s) k
      in (r, (if r = -1 then set_errno EFAULT else id) (emit (Ev_getsockopt k r) s)))"

definition BaseSocket_handle_connect_event ::
  "os \<Rightarrow> (nat \<Rightarrow> world \<Rightarrow> world) \<Rightarrow> (nat \<Rightarrow> world \<Rightarrow> world) \<Rightarrow> nat \<Rightarrow> world \<Rightarrow> world"
where
  "BaseSocket_handle_connect_event os v_error v_connect this s =
     (let s = touch this s;
          (err, s) = sys_getsockopt os (o_sock (objs s this)) s
      in if err \<noteq> 0 then v_error this s
         else upd_obj this (\<lambda>x. x\<lparr>o_connected := True, o_connecting := False\<rparr>) (v_connect this s))"

definition BaseSocket_connect ::
  "os \<Rightarrow> (nat \<Rightarrow> world \<Rightarrow> world) \<Rightarrow> (nat \<Rightarrow> world \<Rightarrow> world) \<Rightarrow> nat \<Rightarrow> ss_addr_t \<Rightarrow> int \<Rightarrow> world \<Rightarrow> int \<times> world"
where
  "BaseSocket_connect os v_error v_connect this a af s =
     (let s = upd_obj this (\<lambda>x. x\<lparr>o_connected := False, o_connecting := True\<rparr>) s;
          (ret, s) = cp_connect os (o_sock (objs s this)) af (host_ptr a) (snd a) s
      in if ret = 0 \<or> errno s = EISCONN then
           (0, BaseSocket_handle_connect_event os v_error v_connect this
                 (upd_obj this (\<lambda>x. x\<lparr>o_addr := a\<rparr>) s))
         else if errno s = EALREADY \<or> errno s = EINPROGRESS then
           (-1, upd_obj this (\<lambda>x. x\<lparr>o_addr := a\<rparr>) s)
         else (-1, s))"

text \<open>Handlers that may run forever return \<open>None\<close> when they do.\<close>

definition BaseSocket_handle_read_event ::
  "os \<Rightarrow> (nat \<Rightarrow> world \<Rightarrow> world) \<Rightarrow> (nat \<Rightarrow> world \<Rightarrow> world) \<Rightarrow> (nat \<Rightarrow> world \<Rightarrow> world) \<Rightarrow>
    (nat \<Rightarrow> world \<Rightarrow> world option) \<Rightarrow> nat \<Rightarrow> world \<Rightarrow> world option"
where
  "BaseSocket_handle_read_event os v_error v_connect v_accept v_read this s =
     (let s = touch this s in
      if o_accepting (objs s this) then Some (v_accept this s)
      else if \<not> o_connected (objs s this) then
        v_read this
          (if o_connecting (objs s this)
           then BaseSocket_handle_connect_event os v_error v_connect this s else s)
      else v_read this s)"

definition BaseSocket_handle_write_event ::
  "os \<Rightarrow> (nat \<Rightarrow> world \<Rightarrow> world) \<Rightarrow> (nat \<Rightarrow> world \<Rightarrow> world) \<Rightarrow> (nat \<Rightarrow> world \<Rightarrow> world option) \<Rightarrow>
    nat \<Rightarrow> world \<Rightarrow> world option"
where
  "BaseSocket_handle_write_event os v_error v_connect v_write this s =
     (let s = touch this s in
      if o_accepting (objs s this) then Some s
      else
        v_write this
          (if \<not> o_connected (objs s this) \<and> o_connecting (objs s this)
           then BaseSocket_handle_connect_event os v_error v_connect this s else s))"

definition BaseSocket_handle_expt_event ::
  "os \<Rightarrow> (nat \<Rightarrow> world \<Rightarrow> world) \<Rightarrow> (nat \<Rightarrow> world \<Rightarrow> world) \<Rightarrow> nat \<Rightarrow> world \<Rightarrow> world"
where
  "BaseSocket_handle_expt_event os v_expt v_close this s =
     (let s = touch this s;
          (err, s) = sys_getsockopt os (o_sock (objs s this)) s
      in if err = 0 then v_expt this s else v_close this s)"

subsection \<open>Default handlers\<close>

definition BaseSocket_handle_error :: "(nat \<Rightarrow> world \<Rightarrow> world) \<Rightarrow> nat \<Rightarrow> world \<Rightarrow> world" where
  "BaseSocket_handle_error v_close this s =
     v_close this (BaseSocket_log_warning (''unhandled error'' @ [CHR 0x0A]) s)"

definition BaseSocket_handle_expt :: "nat \<Rightarrow> world \<Rightarrow> world" where
  "BaseSocket_handle_expt this s = BaseSocket_log_warning (''unhandled exception'' @ [CHR 0x0A]) s"

definition BaseSocket_handle_read :: "nat \<Rightarrow> world \<Rightarrow> world" where
  "BaseSocket_handle_read this s = BaseSocket_log_warning (''unhandled read'' @ [CHR 0x0A]) s"

definition BaseSocket_handle_write :: "nat \<Rightarrow> world \<Rightarrow> world" where
  "BaseSocket_handle_write this s = BaseSocket_log_warning (''unhandled write'' @ [CHR 0x0A]) s"

definition BaseSocket_handle_connect :: "nat \<Rightarrow> world \<Rightarrow> world" where
  "BaseSocket_handle_connect this s = BaseSocket_log_warning (''unhandled connect'' @ [CHR 0x0A]) s"

definition BaseSocket_handle_accept :: "nat \<Rightarrow> world \<Rightarrow> world" where
  "BaseSocket_handle_accept this s = BaseSocket_log_warning (''unhandled accept'' @ [CHR 0x0A]) s"

definition BaseSocket_handle_close :: "nat \<Rightarrow> world \<Rightarrow> world" where
  "BaseSocket_handle_close this s =
     BaseSocket_close this (BaseSocket_log_warning (''unhandled close'' @ [CHR 0x0A]) s)"

subsection \<open>Frames\<close>

text \<open>A system call changes the history, \<open>errno\<close> and the undefined behaviours, and nothing else.\<close>

lemma sys_frame [frame_simps]:
  "sys.more (snd (cp_setblocking os k b s)) = sys.more s"
  "sys.more (snd (cp_socket_tcp os af ty pr s)) = sys.more s"
  "sys.more (snd (cp_socket_udp os af ty pr s)) = sys.more s"
  "sys.more (snd (cp_listen os k n s)) = sys.more s"
  "sys.more (snd (cp_bind os k af h port s)) = sys.more s"
  "sys.more (snd (cp_connect os k af h port s)) = sys.more s"
  "sys.more (snd (snd (cp_accept os k a s))) = sys.more s"
  "sys.more (snd (snd (cp_getpeername os k a s))) = sys.more s"
  "sys.more (snd (cp_send os k bf n fl s)) = sys.more s"
  "sys.more (snd (snd (cp_recv os k nn sz fl s))) = sys.more s"
  "sys.more (snd (snd (sys_select os i r w e t s))) = sys.more s"
  "sys.more (snd (FD_SET k fds s)) = sys.more s"
  "sys.more (cp_close_socket k s) = sys.more s"
  by (auto simp: cp_setblocking_def sys_getfl_def sys_setfl_def cp_socket_tcp_def cp_socket_udp_def cp_socket_def sys_socket_def
      cp_listen_def sys_listen_def cp_bind_def sys_bind_def cp_connect_def sys_connect_def
      cp_accept_def sys_accept_def cp_getpeername_def sys_getpeername_def cp_send_def sys_send_def
      read_block_def cp_recv_def sys_recv_def sys_select_def FD_SET_def cp_close_socket_def Let_def
      split: sum.splits option.splits prod.splits)

lemma world_of_sys:
  assumes "sys.more s' = sys.more s"
  shows "objs s' = objs s" "maps s' = maps s" "next_obj s' = next_obj s" "caches s' = caches s"
    "files s' = files s" "streams s' = streams s" "next_cache s' = next_cache s" "next_fp s' = next_fp s"
  using assms by (cases s; cases s'; simp)+

lemma world_of_cstate:
  assumes "cstate.more s' = cstate.more s"
  shows "objs s' = objs s" "maps s' = maps s" "next_obj s' = next_obj s"
  using assms by (cases s; cases s'; simp)+

subsection \<open>The registry\<close>

text \<open>
  Every entry of a map points to a live object that holds the key as its socket and the map
  as its \<open>p_handlers\<close>: the map is the one owner of the object, under one key.
\<close>

definition reg_entry :: "world \<Rightarrow> nat \<Rightarrow> cp_socket_t \<Rightarrow> nat \<Rightarrow> bool" where
  "reg_entry s mp k p =
     (p < next_obj s \<and> o_alive (objs s p) \<and> o_sock (objs s p) = k \<and>
      o_handlers (objs s p) = Some mp \<and> cp_socket_valid k)"

definition reg_ok :: "world \<Rightarrow> bool" where
  "reg_ok s = (\<forall>mp. map_wf (maps s mp) \<and> (\<forall>k p. map_find k (maps s mp) = Some p \<longrightarrow> reg_entry s mp k p))"

definition registered :: "nat \<Rightarrow> world \<Rightarrow> bool" where
  "registered p s = (\<exists>mp k. map_find k (maps s mp) = Some p)"

lemma reg_ok_cong:
  assumes "objs s' = objs s" "maps s' = maps s" "next_obj s' = next_obj s"
  shows "reg_ok s' = reg_ok s"
  using assms by (simp add: reg_ok_def reg_entry_def)

lemma reg_ok_sys: "sys.more s' = sys.more s \<Longrightarrow> reg_ok s' = reg_ok s"
  by (intro reg_ok_cong world_of_sys)

lemma reg_ok_cstate: "cstate.more s' = cstate.more s \<Longrightarrow> reg_ok s' = reg_ok s"
  by (intro reg_ok_cong world_of_cstate)

lemma touch_frame [simp]:
  "objs (touch p s) = objs s" "maps (touch p s) = maps s" "next_obj (touch p s) = next_obj s"
  "trace (touch p s) = trace s" "caches (touch p s) = caches s" "errno (touch p s) = errno s"
  "reg_ok (touch p s) = reg_ok s"
  by (simp_all add: touch_def reg_ok_def reg_entry_def)

lemma touch_alive [simp]: "o_alive (objs s p) \<Longrightarrow> touch p s = s"
  by (simp add: touch_def)

lemma upd_obj_frame [simp]:
  "objs (upd_obj p f s) = (objs s)(p := f (objs s p))" "maps (upd_obj p f s) = maps s"
  "next_obj (upd_obj p f s) = next_obj s" "trace (upd_obj p f s) = trace s"
  "caches (upd_obj p f s) = caches s" "errno (upd_obj p f s) = errno s"
  by (simp_all add: upd_obj_def)

lemma reg_ok_upd:
  assumes "reg_ok s" "o_alive (f (objs s p)) = o_alive (objs s p)"
    "o_sock (f (objs s p)) = o_sock (objs s p)" "o_handlers (f (objs s p)) = o_handlers (objs s p)"
  shows "reg_ok (upd_obj p f s)"
  using assms by (auto simp: reg_ok_def reg_entry_def)

text \<open>An object is registered at most once, under its own socket.\<close>

lemma reg_ok_unique:
  assumes "reg_ok s" "map_find k (maps s mp) = Some p" "map_find k' (maps s mp') = Some p"
  shows "k' = k \<and> mp' = mp"
proof -
  from assms have "reg_entry s mp k p" "reg_entry s mp' k' p" by (auto simp: reg_ok_def)
  then show ?thesis by (simp add: reg_entry_def)
qed

lemma channel_erase_find:
  assumes "reg_ok s"
  shows "map_find j (maps (channel_erase mp k s) m) =
    (if m = mp \<and> j = k then None else map_find j (maps s m))"
  using assms
  by (auto simp: channel_erase_def delete_obj_def reg_ok_def ss_map.find_erase split: option.splits)

lemma reg_ok_channel_erase:
  assumes "reg_ok s"
  shows "reg_ok (channel_erase mp k s)"
proof (cases "map_find k (maps s mp)")
  case None
  then show ?thesis using assms by (simp add: channel_erase_def)
next
  case (Some p)
  have "map_wf (maps (channel_erase mp k s) m)" for m
    using assms Some by (simp add: channel_erase_def delete_obj_def reg_ok_def ss_map.invar_erase)
  moreover have "reg_entry (channel_erase mp k s) m j q"
    if "map_find j (maps (channel_erase mp k s) m) = Some q" for m j q
  proof -
    from that have q: "map_find j (maps s m) = Some q" "\<not> (m = mp \<and> j = k)"
      by (simp_all add: channel_erase_find [OF assms] split: if_splits)
    with reg_ok_unique [OF assms Some] have "q \<noteq> p" by blast
    with q(1) assms Some show ?thesis
      by (simp add: reg_ok_def reg_entry_def channel_erase_def delete_obj_def)
  qed
  ultimately show ?thesis by (simp add: reg_ok_def)
qed

lemma reg_ok_del_channel: "reg_ok s \<Longrightarrow> reg_ok (BaseSocket_del_channel p q s)"
  by (auto simp: BaseSocket_del_channel_def reg_ok_channel_erase reg_ok_sys [of "s\<lparr>ub := x\<rparr>" s for x]
      touch_def split: option.splits)

lemma reg_ok_close: "reg_ok s \<Longrightarrow> reg_ok (BaseSocket_close p s)"
  unfolding BaseSocket_close_def Let_def
  by (subst reg_ok_sys [OF sys_frame(13)]) (simp add: reg_ok_del_channel reg_ok_upd)

text \<open>Adding an object that no map owns yet.\<close>

lemma channel_erase_other:
  assumes "reg_ok s" "\<not> registered p s"
  shows "objs (channel_erase mp k s) p = objs s p" "next_obj (channel_erase mp k s) = next_obj s"
    "trace (channel_erase mp k s) = trace s"
  using assms by (auto simp: channel_erase_def delete_obj_def registered_def split: option.splits)

lemma reg_ok_add_channel:
  assumes reg: "reg_ok s" and p: "\<not> registered p s" "p < next_obj s" "o_alive (objs s p)"
    "o_handlers (objs s p) = Some mp" "cp_socket_valid (o_sock (objs s p))"
  defines "k \<equiv> o_sock (objs s p)" and "s' \<equiv> BaseSocket_add_channel p (Some mp) s"
  shows "reg_ok s'" "map_find j (maps s' m) = (if m = mp \<and> j = k then Some p else map_find j (maps s m))"
    "objs s' p = objs s p" "next_obj s' = next_obj s" "trace s' = trace s"
proof -
  let ?s = "channel_erase mp k s"
  note o = channel_erase_other [OF reg p(1), of mp k] and reg' = reg_ok_channel_erase [OF reg, of mp k]
  have s': "s' = ?s\<lparr>maps := (maps ?s)(mp := map_insert k p (maps ?s mp))\<rparr>"
    using p o by (simp add: s'_def k_def BaseSocket_add_channel_def)
  show objs: "objs s' p = objs s p" "next_obj s' = next_obj s" "trace s' = trace s"
    using o by (simp_all add: s')
  show fnd: "map_find j (maps s' m) = (if m = mp \<and> j = k then Some p else map_find j (maps s m))" for j m
    using reg' channel_erase_find [OF reg] by (simp add: s' reg_ok_def ss_map.find_insert)
  have "map_wf (maps s' m)" for m
    using reg' by (simp add: s' reg_ok_def ss_map.invar_insert)
  moreover have "reg_entry s' m j q" if "map_find j (maps s' m) = Some q" for m j q
  proof (cases "m = mp \<and> j = k")
    case True
    then show ?thesis using that p fnd objs by (simp add: reg_entry_def k_def)
  next
    case False
    then have "map_find j (maps ?s m) = Some q" using that fnd channel_erase_find [OF reg] by (auto split: if_splits)
    then have "reg_entry ?s m j q" using reg' by (simp add: reg_ok_def)
    then show ?thesis by (simp add: reg_entry_def s')
  qed
  ultimately show "reg_ok s'" by (simp add: reg_ok_def)
qed

lemma reg_ok_upd_free:
  assumes "reg_ok s" "\<not> registered p s"
  shows "reg_ok (upd_obj p f s)"
proof -
  have "q \<noteq> p" if "map_find k (maps s mp) = Some q" for mp k q
    using that assms(2) by (auto simp: registered_def)
  with assms(1) show ?thesis by (simp add: reg_ok_def reg_entry_def)
qed

lemma BaseSocket_close_registered:
  assumes reg: "reg_ok s" and p: "map_find k (maps s mp) = Some p"
  defines "s' \<equiv> BaseSocket_close p s"
  shows "map_find j (maps s' m) = (if m = mp \<and> j = k then None else map_find j (maps s m))"
    "trace s' = trace s @ [Ev_close k]" "ub s' = ub s @ [UseAfterFree p]"
    "\<not> o_alive (objs s' p)" "caches s' = caches s" "q \<noteq> p \<Longrightarrow> objs s' q = objs s q"
proof -
  have e: "o_alive (objs s p)" "o_sock (objs s p) = k" "o_handlers (objs s p) = Some mp" "map_wf (maps s m)"
    for m
    using reg p by (auto simp: reg_ok_def reg_entry_def)
  note defs = s'_def BaseSocket_close_def BaseSocket_del_channel_def channel_erase_def delete_obj_def
    cp_close_socket_def touch_def upd_obj_def
  show "map_find j (maps s' m) = (if m = mp \<and> j = k then None else map_find j (maps s m))"
    using e p by (simp add: defs Let_def ss_map.find_erase)
  show "trace s' = trace s @ [Ev_close k]" "ub s' = ub s @ [UseAfterFree p]"
    "\<not> o_alive (objs s' p)" "caches s' = caches s" "q \<noteq> p \<Longrightarrow> objs s' q = objs s q"
    using e(1-3) p by (simp_all add: defs Let_def)
qed

lemma BaseSocket_set_socket_new:
  assumes reg: "reg_ok s" and p: "\<not> registered p s" "p < next_obj s" "o_alive (objs s p)"
    "o_handlers (objs s p) = Some mp" "cp_socket_valid k"
  defines "s' \<equiv> BaseSocket_set_socket p k (Some mp) s"
  shows "reg_ok s'" "map_find j (maps s' m) = (if m = mp \<and> j = k then Some p else map_find j (maps s m))"
    "objs s' p = (objs s p)\<lparr>o_sock := k\<rparr>" "next_obj s' = next_obj s" "trace s' = trace s"
proof -
  let ?s = "upd_obj p (\<lambda>x. x\<lparr>o_sock := k\<rparr>) s"
  have nr: "\<not> registered p ?s" using p(1) by (simp add: registered_def)
  have "reg_ok ?s"
    by (rule reg_ok_upd_free [OF reg p(1)])
  note add = reg_ok_add_channel [OF this nr, of mp]
  show "reg_ok s'" "map_find j (maps s' m) = (if m = mp \<and> j = k then Some p else map_find j (maps s m))"
    "objs s' p = (objs s p)\<lparr>o_sock := k\<rparr>" "next_obj s' = next_obj s" "trace s' = trace s"
    using add p by (simp_all add: s'_def BaseSocket_set_socket_def)
qed

lemma registered_cong: "maps s' = maps s \<Longrightarrow> registered p s' = registered p s"
  by (simp add: registered_def)

text \<open>
  Construction on a valid socket: the object ends up registered under it, or, when its peer
  cannot be named, deleted.
\<close>

lemma BaseSocket_ctor_valid:
  fixes mp :: nat and os :: os
  assumes reg: "reg_ok s" and p: "\<not> registered p s" "p < next_obj s" "o_alive (objs s p)"
    and k: "cp_socket_valid k"
  defines "s' \<equiv> BaseSocket_ctor os p k (Some mp) s"
  shows "reg_ok s'" "next_obj s' = next_obj s"
    "map_find j (maps s' m) =
       (if m = mp \<and> j = k then (if o_alive (objs s' p) then Some p else None) else map_find j (maps s m))"
proof -
  let ?s1 = "upd_obj p (\<lambda>x. x\<lparr>o_sock := k, o_handlers := Some mp, o_connected := False,
                o_connecting := False, o_accepting := False, o_closing := False, o_debug := True\<rparr>) s"
  let ?s2 = "snd (cp_setblocking os k False ?s1)"
  let ?s3 = "BaseSocket_set_socket p k (Some mp) ?s2"
  let ?s4 = "upd_obj p (\<lambda>x. x\<lparr>o_connected := True\<rparr>) ?s3"
  let ?s5 = "snd (snd (cp_getpeername os k (stack_sockaddr os 0 0 ?s4) ?s4))"
  note f2 = world_of_sys [OF sys_frame(1), of os k False ?s1]
  note f5 = world_of_sys [OF sys_frame(8), of os k "stack_sockaddr os 0 0 ?s4" ?s4]
  have "reg_ok ?s1"
    by (rule reg_ok_upd_free [OF reg p(1)])
  then have reg2: "reg_ok ?s2" by (simp add: reg_ok_sys [OF sys_frame(1)])
  have nr2: "\<not> registered p ?s2" using p(1) by (simp add: f2 registered_def)
  have r3: "reg_ok ?s3" "objs ?s3 p = (objs ?s2 p)\<lparr>o_sock := k\<rparr>" "next_obj ?s3 = next_obj s"
    "map_find j (maps ?s3 m) = (if m = mp \<and> j = k then Some p else map_find j (maps s m))" for j m
    using BaseSocket_set_socket_new [OF reg2 nr2, of mp k] p k by (simp_all add: f2)
  then have r5: "reg_ok ?s5" "o_alive (objs ?s5 p)" "o_sock (objs ?s5 p) = k"
    "o_handlers (objs ?s5 p) = Some mp" "next_obj ?s5 = next_obj s"
    "map_find j (maps ?s5 m) = (if m = mp \<and> j = k then Some p else map_find j (maps s m))" for j m
    using p by (simp_all add: reg_ok_sys [OF sys_frame(8)] reg_ok_upd f5 f2)
  have cases: "s' = fault NullDeref ?s5 \<or>
      (\<exists>f. s' = upd_obj p f ?s5 \<and> (\<forall>x. o_alive (f x) = o_alive x \<and> o_sock (f x) = o_sock x \<and> o_handlers (f x) = o_handlers x)) \<or>
      s' = channel_erase mp k ?s5"
    using k r5(2-4)
    by (auto simp: s'_def BaseSocket_ctor_def Let_def case_prod_beta BaseSocket_del_channel_def
        split: option.splits)
  have "reg_ok (fault NullDeref ?s5)" using r5(1) reg_ok_sys [of "?s5\<lparr>ub := x\<rparr>" ?s5 for x] by simp
  with cases r5(1) show "reg_ok s'" by (auto simp: reg_ok_upd reg_ok_channel_erase)
  show "next_obj s' = next_obj s" using cases r5(5)
    by (auto simp: channel_erase_def delete_obj_def split: option.splits)
  from cases show "map_find j (maps s' m) =
      (if m = mp \<and> j = k then (if o_alive (objs s' p) then Some p else None) else map_find j (maps s m))"
  proof (elim disjE exE conjE)
    assume s': "s' = channel_erase mp k ?s5"
    then have "\<not> o_alive (objs s' p)" using r5(6) [of k mp] by (simp add: channel_erase_def delete_obj_def)
    then show ?thesis using channel_erase_find [OF r5(1)] r5(6) by (simp add: s')
  qed (use r5(2,6) in simp_all)
qed

lemma BaseSocket_ctor_invalid:
  fixes mp :: nat and os :: os
  assumes reg: "reg_ok s" and p: "\<not> registered p s" "o_alive (objs s p)" and k: "\<not> cp_socket_valid k"
  defines "s' \<equiv> BaseSocket_ctor os p k (Some mp) s"
  shows "reg_ok s'" "maps s' = maps s" "next_obj s' = next_obj s" "o_alive (objs s' p)"
    "o_handlers (objs s' p) = Some mp" "\<not> registered p s'"
proof -
  let ?f = "\<lambda>x. x\<lparr>o_sock := k, o_handlers := Some mp, o_connected := False,
                o_connecting := False, o_accepting := False, o_closing := False, o_debug := True\<rparr>"
  have s': "s' = upd_obj p ?f s" using k by (simp add: s'_def BaseSocket_ctor_def Let_def)
  show "reg_ok s'"
    unfolding s' by (rule reg_ok_upd_free [OF reg p(1)])
  show "maps s' = maps s" "next_obj s' = next_obj s" "o_alive (objs s' p)"
    "o_handlers (objs s' p) = Some mp" "\<not> registered p s'"
    using p by (simp_all add: s' registered_def)
qed

lemma reg_ok_new_obj:
  assumes "reg_ok s"
  shows "reg_ok (snd (new_obj cls s))" "\<not> registered (next_obj s) (snd (new_obj cls s))"
  using assms by (auto simp: new_obj_def reg_ok_def reg_entry_def registered_def less_Suc_eq)

end
