(* ===== verification/Socket_Handler.thy ===== *)
theory Socket_Handler
  imports Base_Socket
begin

text \<open>
  \<^bold>\<open>inc/socket_handler.h\<close>, \<^bold>\<open>src/socket_handler.cpp\<close>: the handler of an accepted socket that
  reads and drops what the peer sends and closes on every exceptional event.
\<close>

definition SocketHandler_ctor :: "os \<Rightarrow> nat \<Rightarrow> cp_socket_t \<Rightarrow> nat option \<Rightarrow> world \<Rightarrow> world" where
  "SocketHandler_ctor os this k p_handlers s =
     snd (cp_setblocking os k True (BaseSocket_ctor os this k p_handlers s))"

definition SocketHandler_readable :: "nat \<Rightarrow> world \<Rightarrow> bool" where
  "SocketHandler_readable this s = cp_socket_valid (BaseSocket_socket this s)"

definition SocketHandler_writable :: "nat \<Rightarrow> world \<Rightarrow> bool" where
  "SocketHandler_writable this s = False"

definition SocketHandler_handle_read ::
  "os \<Rightarrow> (nat \<Rightarrow> world \<Rightarrow> world) \<Rightarrow> (nat \<Rightarrow> world \<Rightarrow> world) \<Rightarrow> nat \<Rightarrow> world \<Rightarrow> world"
where
  "SocketHandler_handle_read os v_close v_expt this s =
     (let (retv, d, s) = BaseSocket_recv os v_close v_expt this 4096 s in s)"

definition SocketHandler_handle_write :: "nat \<Rightarrow> world \<Rightarrow> world" where
  "SocketHandler_handle_write this s = s"

definition SocketHandler_handle_expt :: "(nat \<Rightarrow> world \<Rightarrow> world) \<Rightarrow> nat \<Rightarrow> world \<Rightarrow> world" where
  "SocketHandler_handle_expt v_close this s = v_close this s"

definition SocketHandler_handle_error :: "(nat \<Rightarrow> world \<Rightarrow> world) \<Rightarrow> nat \<Rightarrow> world \<Rightarrow> world" where
  "SocketHandler_handle_error v_close this s = v_close this s"

definition SocketHandler_handle_close :: "nat \<Rightarrow> world \<Rightarrow> world" where
  "SocketHandler_handle_close this s = BaseSocket_close this s"

end
