(* ===== verification/Virus_Handler.thy ===== *)
theory Virus_Handler
  imports Socket_Handler
begin

text \<open>
  \<^bold>\<open>inc/virus_handler.h\<close>, \<^bold>\<open>src/virus_handler.cpp\<close>: the handler of one client, around the session
  of \<open>Virus_Session\<close>. \<open>handle_read\<close> receives one buffer and runs the request loop on it;
  \<open>handle_write\<close> sends every queued response, header first, then its value in blocks of
  4096 bytes. Both loops take fuel, and \<open>None\<close> is a loop that has not ended within it. The
  constructor leaves the member \<open>state\<close> uninitialised; nothing reads it, and it starts as \<open>OK\<close> here.
\<close>

definition VirusHandler_ctor :: "os \<Rightarrow> nat \<Rightarrow> cp_socket_t \<Rightarrow> nat option \<Rightarrow> world \<Rightarrow> world" where
  "VirusHandler_ctor os this k p_handlers s =
     (let s = SocketHandler_ctor os this k p_handlers s
      in upd_obj this (\<lambda>x. x\<lparr>o_session := \<lparr>req = HV_uninit os s, resp = [], vstate = OK\<rparr>\<rparr>) s)"

definition VirusHandler_readable :: "nat \<Rightarrow> world \<Rightarrow> bool" where
  "VirusHandler_readable this s = cp_socket_valid (BaseSocket_socket this s)"

definition VirusHandler_writable :: "nat \<Rightarrow> world \<Rightarrow> bool" where
  "VirusHandler_writable this s = (resp (o_session (objs s this)) \<noteq> [])"

definition VirusHandler_handle_read ::
  "nat \<Rightarrow> os \<Rightarrow> (nat \<Rightarrow> world \<Rightarrow> world) \<Rightarrow> (nat \<Rightarrow> world \<Rightarrow> world) \<Rightarrow> nat \<Rightarrow> world \<Rightarrow> world option"
where
  "VirusHandler_handle_read fuel os v_close v_expt this s =
     (let (nread, d, s) = BaseSocket_recv os v_close v_expt this 65535 s in
      if nread = 0 then Some s
      else if nread = SOCKET_ERROR then Some s
      else
        (case VH_received fuel os d (o_session (objs s this)) (touch this s) of
           None \<Rightarrow> None
         | Some (v, s) \<Rightarrow> Some (upd_obj this (\<lambda>x. x\<lparr>o_session := v\<rparr>) s)))"

fun VirusHandler_send_value ::
  "nat \<Rightarrow> os \<Rightarrow> (nat \<Rightarrow> world \<Rightarrow> world) \<Rightarrow> nat \<Rightarrow> nat \<Rightarrow> world \<Rightarrow> world option"
where
  "VirusHandler_send_value 0 os v_close this p s = None"
| "VirusHandler_send_value (Suc fuel) os v_close this p s =
     (let (nread, b, s) = cache_pop p 4096 s in
      if nread > 0
      then VirusHandler_send_value fuel os v_close this p (snd (BaseSocket_send os v_close this b nread s))
      else Some s)"

fun VirusHandler_handle_write ::
  "nat \<Rightarrow> os \<Rightarrow> (nat \<Rightarrow> world \<Rightarrow> world) \<Rightarrow> nat \<Rightarrow> world \<Rightarrow> world option"
where
  "VirusHandler_handle_write 0 os v_close this s = None"
| "VirusHandler_handle_write (Suc fuel) os v_close this s =
     (let s = touch this s in
      case resp (o_session (objs s this)) of
        [] \<Rightarrow> Some s
      | r # rs \<Rightarrow>
          (let s = upd_obj this (\<lambda>x. x\<lparr>o_session := (o_session x)\<lparr>resp := rs\<rparr>\<rparr>) s in
           case hv_value r of
             None \<Rightarrow> VirusHandler_handle_write fuel os v_close this s
           | Some p \<Rightarrow>
               (let (_, s) = BaseSocket_send os v_close this (header_bytes (hv_header r))
                               (size_of_int sizeof_Header) s
                in case VirusHandler_send_value fuel os v_close this p s of
                     None \<Rightarrow> None
                   | Some s \<Rightarrow>
                       VirusHandler_handle_write fuel os v_close this
                         (leave_cache (Some p) (delete_cache (Some p) s)))))"

declare VirusHandler_send_value.simps(2) [simp del] VirusHandler_handle_write.simps(2) [simp del]

definition VirusHandler_handle_expt :: "(nat \<Rightarrow> world \<Rightarrow> world) \<Rightarrow> nat \<Rightarrow> world \<Rightarrow> world" where
  "VirusHandler_handle_expt v_close this s = v_close this s"

definition VirusHandler_handle_error :: "(nat \<Rightarrow> world \<Rightarrow> world) \<Rightarrow> nat \<Rightarrow> world \<Rightarrow> world" where
  "VirusHandler_handle_error v_close this s = v_close this s"

definition VirusHandler_handle_close :: "nat \<Rightarrow> world \<Rightarrow> world" where
  "VirusHandler_handle_close this s = BaseSocket_close this s"

subsection \<open>Sending the responses\<close>

text \<open>A socket whose kernel buffer takes everything that is offered.\<close>

definition send_ok :: "os \<Rightarrow> cp_socket_t \<Rightarrow> bool" where
  "send_ok os k = (\<forall>h bs. case os_send os h k bs 0 of Inl _ \<Rightarrow> False | Inr n \<Rightarrow> length bs \<le> n)"

lemma cp_send_ok:
  assumes "send_ok os k" "b \<noteq> []"
  shows "cp_send os k (Some b) (int (length b)) 0 s =
    (int (length b), s\<lparr>trace := trace s @ [Ev_send k b 0 (int (length b))]\<rparr>)"
proof -
  have "case os_send os (trace s) k b 0 of Inl _ \<Rightarrow> False | Inr n \<Rightarrow> length b \<le> n"
    using assms(1) by (simp add: send_ok_def)
  then show ?thesis
    using assms(2)
    by (auto simp: cp_send_def sys_send_def read_block_def in_block_def not_less Suc_le_eq Let_def split: sum.splits)
qed

lemma BaseSocket_send_ok:
  assumes "o_alive (objs s p)" "send_ok os (o_sock (objs s p))" "b \<noteq> []" "length b < 2 ^ 31"
    and n: "unat n = length b"
  shows "BaseSocket_send os vc p b n s =
    (int (length b), s\<lparr>trace := trace s @ [Ev_send (o_sock (objs s p)) b 0 (int (length b))]\<rparr>)"
proof -
  have "int_of_size n = int (length b)" using assms(4) n int_of_size_small [of n] by simp
  then show ?thesis
    using assms cp_send_ok [of os "o_sock (objs s p)" b s]
    by (simp add: BaseSocket_send_def SOCKET_ERROR_def)
qed

lemma mem_pop_block:
  assumes "mem_invar c s" and n: "unat n < 2 ^ 31"
  shows "\<exists>nread s'. cache_pop c n s = (nread, take (unat n) (cache_pending c s), s')
    \<and> unat nread = length (take (unat n) (cache_pending c s))
    \<and> s' = s\<lparr>caches := (caches s)(c := caches s' c)\<rparr> \<and> mem_invar c s'
    \<and> cache_pending c s' = drop (unat n) (cache_pending c s)"
proof -
  have w: "of_nat (unat n) = n" by simp
  note v = mem_pop_views [OF assms(1), of "unat n", OF n, unfolded pop_bytes_def w]
  from assms(1) obtain cc b where cc: "caches s c = Some cc" "buf cc = Some b" "mem_ok cc"
    and b: "length b = unat (capacity (p_priv cc))" "unat (widx (p_priv cc)) \<le> unat (capacity (p_priv cc))"
    by (rule mem_invarE)
  have "length (cache_pending c s) = unat (widx (p_priv cc)) - unat (ridx (p_priv cc))"
    using cc b by (simp add: cache_pending_def cache_content_def)
  with cc show ?thesis
    using mem_pop_step [OF cc, of n] v by (auto simp: Let_def case_prod_beta set_cache_def)
qed

text \<open>A history that goes on with calls of \<open>send\<close> on one socket.\<close>

definition only_sends :: "cp_socket_t \<Rightarrow> history \<Rightarrow> history \<Rightarrow> bool" where
  "only_sends k h h' = (\<exists>g. h' = h @ g \<and> (\<forall>e \<in> set g. \<exists>b n. e = Ev_send k b 0 n))"

lemma only_sends_refl [simp]: "only_sends k h h"
  by (simp add: only_sends_def)

lemma only_sends_trans: "only_sends k h h1 \<Longrightarrow> only_sends k h1 h2 \<Longrightarrow> only_sends k h h2"
  unfolding only_sends_def by (elim exE conjE) (rule exI, rule conjI, simp, auto)

lemma only_sends_snoc [simp]: "only_sends k h (h @ [Ev_send k b 0 n])"
  by (simp add: only_sends_def)

text \<open>The inner loop of \<open>handle_write\<close> sends what the cache holds, block by block.\<close>

text \<open>One turn of the loop that sends a value: a block is popped and sent.\<close>

lemma VirusHandler_send_block:
  assumes c: "mem_invar c s" "cache_pending c s \<noteq> []" and p: "o_alive (objs s p)" "send_ok os (o_sock (objs s p))"
  obtains h C where
    "VirusHandler_send_value (Suc fuel) os vc p c s =
       VirusHandler_send_value fuel os vc p c (s\<lparr>trace := h, caches := (caches s)(c := C)\<rparr>)"
    "mem_invar c (s\<lparr>trace := h, caches := (caches s)(c := C)\<rparr>)"
    "cache_pending c (s\<lparr>trace := h, caches := (caches s)(c := C)\<rparr>) = drop 4096 (cache_pending c s)"
    "sent_on (o_sock (objs s p)) h = sent_on (o_sock (objs s p)) (trace s) @ take 4096 (cache_pending c s)"
    "only_sends (o_sock (objs s p)) (trace s) h"
proof -
  let ?k = "o_sock (objs s p)" and ?b = "take 4096 (cache_pending c s)"
  have n: "unat (4096 :: size_t) = 4096" by simp
  obtain nread s1 where pop: "cache_pop c 4096 s = (nread, ?b, s1)" "unat nread = length ?b"
    and s1: "s1 = s\<lparr>caches := (caches s)(c := caches s1 c)\<rparr>" "mem_invar c s1"
    "cache_pending c s1 = drop 4096 (cache_pending c s)"
    using mem_pop_block [OF c(1), of 4096, unfolded n] by auto
  have eq: "objs s1 = objs s" "trace s1 = trace s" by (subst s1(1), simp)+
  define h where "h = trace s @ [Ev_send ?k ?b 0 (int (length ?b))]"
  have s2: "s\<lparr>trace := h, caches := (caches s)(c := caches s1 c)\<rparr> = s1\<lparr>trace := h\<rparr>" by (subst (2) s1(1)) simp
  have pos: "nread > 0" "?b \<noteq> []" using c(2) pop(2) by (auto simp: word_less_nat_alt)
  have send: "snd (BaseSocket_send os vc p ?b nread s1) = s1\<lparr>trace := h\<rparr>"
    using BaseSocket_send_ok [of s1 p os ?b nread vc] p pos(2) pop(2) eq by (simp add: h_def)
  have run: "VirusHandler_send_value (Suc fuel) os vc p c s = VirusHandler_send_value fuel os vc p c (s1\<lparr>trace := h\<rparr>)"
    using pos pop(1) send by (simp add: VirusHandler_send_value.simps(2))
  show ?thesis
    by (rule that [of "caches s1 c" h, unfolded s2, OF run])
      (use mem_views_cong [of "s1\<lparr>trace := h\<rparr>" c s1] s1(2,3) in \<open>simp_all add: h_def\<close>)
qed

lemma VirusHandler_send_value_ok:
  assumes "mem_invar c s" "o_alive (objs s p)" "send_ok os (o_sock (objs s p))"
    and "length (cache_pending c s) < fuel"
  shows "\<exists>h C. VirusHandler_send_value fuel os vc p c s = Some (s\<lparr>trace := h, caches := (caches s)(c := C)\<rparr>)
    \<and> sent_on (o_sock (objs s p)) h = sent_on (o_sock (objs s p)) (trace s) @ cache_pending c s
    \<and> mem_invar c (s\<lparr>trace := h, caches := (caches s)(c := C)\<rparr>) \<and> only_sends (o_sock (objs s p)) (trace s) h"
  using assms
proof (induction fuel arbitrary: s)
  case (Suc fuel)
  show ?case
  proof (cases "cache_pending c s = []")
    case True
    have n: "unat (4096 :: size_t) = 4096" by simp
    obtain nread s1 where pop: "cache_pop c 4096 s = (nread, [], s1)" "unat nread = 0"
      and s1: "s1 = s\<lparr>caches := (caches s)(c := caches s1 c)\<rparr>" "mem_invar c s1"
      using mem_pop_block [OF Suc.prems(1), of 4096, unfolded n] True by auto
    have same: "s\<lparr>trace := trace s, caches := (caches s)(c := caches s1 c)\<rparr> = s1"
      using s1(1) by (metis sys.surjective sys.update_convs(1) sys.select_convs(1))
    show ?thesis
      using True pop s1(2)
      by (intro exI [of _ "trace s"] exI [of _ "caches s1 c"], unfold same)
        (simp add: VirusHandler_send_value.simps(2) word_less_nat_alt)
  next
    case False
    let ?k = "o_sock (objs s p)"
    obtain h C where st: "VirusHandler_send_value (Suc fuel) os vc p c s =
        VirusHandler_send_value fuel os vc p c (s\<lparr>trace := h, caches := (caches s)(c := C)\<rparr>)"
      "mem_invar c (s\<lparr>trace := h, caches := (caches s)(c := C)\<rparr>)"
      "cache_pending c (s\<lparr>trace := h, caches := (caches s)(c := C)\<rparr>) = drop 4096 (cache_pending c s)"
      "sent_on ?k h = sent_on ?k (trace s) @ take 4096 (cache_pending c s)" "only_sends ?k (trace s) h"
      by (rule VirusHandler_send_block [OF Suc.prems(1) False Suc.prems(2,3)])
    have "0 < length (cache_pending c s)" using False by simp
    then have "length (drop 4096 (cache_pending c s)) < fuel" unfolding length_drop using Suc.prems(4) by linarith
    with Suc.IH [OF st(2)] Suc.prems(2,3) obtain h' C' where
      "VirusHandler_send_value (Suc fuel) os vc p c s = Some (s\<lparr>trace := h', caches := (caches s)(c := C')\<rparr>)"
      "sent_on ?k h' = sent_on ?k h @ drop 4096 (cache_pending c s)"
      "mem_invar c (s\<lparr>trace := h', caches := (caches s)(c := C')\<rparr>)" "only_sends ?k h h'"
      by (auto simp: st(1,3) simp del: fun_upd_apply)
    with st(4) only_sends_trans [OF st(5), of h'] show ?thesis by (intro exI [of _ h'] exI [of _ C']) (simp del: fun_upd_apply)
  qed
qed simp

lemma mem_release:
  assumes "mem_invar c s"
  shows "leave_cache (Some c) (delete_cache (Some c) s) = s\<lparr>caches := (caches s)(c := None)\<rparr>"
  using assms
  by (auto simp: mem_invar_def mem_ok_def delete_cache_def leave_cache_def set_cache_def split: option.splits)

text \<open>
  \<open>handle_write\<close> on a connection that takes everything: the queued responses go out in order,
  each header first, and their caches are released.
\<close>

lemma VirusHandler_write_one:
  assumes p: "o_alive (objs s p)" "send_ok os (o_sock (objs s p))" and q: "resp (o_session (objs s p)) = r # rs"
    and c: "hv_value r = Some c" "mem_invar c s" "length (cache_pending c s) < f"
  obtains h where "VirusHandler_handle_write (Suc f) os vc p s = VirusHandler_handle_write f os vc p
      (s\<lparr>trace := h, caches := (caches s)(c := None),
         objs := (objs s)(p := (objs s p)\<lparr>o_session := (o_session (objs s p))\<lparr>resp := rs\<rparr>\<rparr>)\<rparr>)"
    "sent_on (o_sock (objs s p)) h = sent_on (o_sock (objs s p)) (trace s) @ resp_wire r s"
    "only_sends (o_sock (objs s p)) (trace s) h"
proof -
  let ?k = "o_sock (objs s p)" and ?b = "header_bytes (hv_header r)"
  define s1 where "s1 = s\<lparr>objs := (objs s)(p := (objs s p)\<lparr>o_session := (o_session (objs s p))\<lparr>resp := rs\<rparr>\<rparr>)\<rparr>"
  define s2 where "s2 = s1\<lparr>trace := trace s @ [Ev_send ?k ?b 0 8]\<rparr>"
  have up: "upd_obj p (\<lambda>x. x\<lparr>o_session := (o_session x)\<lparr>resp := rs\<rparr>\<rparr>) s = s1" using p(1) by (simp add: upd_obj_def s1_def)
  have sz: "unat (size_of_int sizeof_Header) = length ?b"
    by (simp add: size_of_int_def sizeof_Header_def)
  have ne: "?b \<noteq> []" by (metis length_header_bytes list.size(3) zero_neq_numeral)
  have head: "BaseSocket_send os vc p ?b (size_of_int sizeof_Header) s1 = (8, s2)"
    using BaseSocket_send_ok [of s1 p os ?b, OF _ _ ne _ sz] p by (simp add: s2_def s1_def)
  have o2: "mem_invar c s2" "cache_pending c s2 = cache_pending c s" "o_alive (objs s2 p)"
    "o_sock (objs s2 p) = ?k" "caches s2 = caches s" "sent_on ?k (trace s2) = sent_on ?k (trace s) @ ?b"
    "only_sends ?k (trace s) (trace s2)"
    using mem_views_cong [of s2 c s] c(2) p(1) by (simp_all add: s2_def s1_def)
  obtain h C where sv: "VirusHandler_send_value f os vc p c s2 = Some (s2\<lparr>trace := h, caches := (caches s2)(c := C)\<rparr>)"
    "sent_on ?k h = sent_on ?k (trace s2) @ cache_pending c s"
    "mem_invar c (s2\<lparr>trace := h, caches := (caches s2)(c := C)\<rparr>)" "only_sends ?k (trace s2) h"
    using VirusHandler_send_value_ok [OF o2(1,3), of os f, unfolded o2(2,4), OF p(2) c(3)] by blast
  have rel: "leave_cache (Some c) (delete_cache (Some c) (s2\<lparr>trace := h, caches := (caches s2)(c := C)\<rparr>)) =
      s2\<lparr>trace := h, caches := (caches s)(c := None)\<rparr>"
    using mem_release [OF sv(3)] by (simp add: o2(5))
  have "VirusHandler_handle_write (Suc f) os vc p s =
      VirusHandler_handle_write f os vc p (s2\<lparr>trace := h, caches := (caches s)(c := None)\<rparr>)"
    using p(1) q c(1) head sv(1) rel by (simp add: VirusHandler_handle_write.simps(2) up)
  also have "s2\<lparr>trace := h, caches := (caches s)(c := None)\<rparr> = s\<lparr>trace := h, caches := (caches s)(c := None),
      objs := (objs s)(p := (objs s p)\<lparr>o_session := (o_session (objs s p))\<lparr>resp := rs\<rparr>\<rparr>)\<rparr>"
    by (simp add: s2_def s1_def)
  finally show ?thesis
    by (rule that) (use sv(2) o2(6) only_sends_trans [OF o2(7) sv(4)] in \<open>simp_all add: resp_wire_def c(1)\<close>)
qed

lemma session_next_response:
  assumes ok: "session_ok v s" and q: "resp v = r # rs" "hv_value r = Some c" and s': "caches s' = (caches s)(c := None)"
  shows "session_ok (v\<lparr>resp := rs\<rparr>) s'" "wires (v\<lparr>resp := rs\<rparr>) s' = map (\<lambda>h. resp_wire h s) rs"
proof -
  have "resp_ok g s' \<and> resp_wire g s' = resp_wire g s" if g: "g \<in> set rs" for g
  proof -
    obtain x where x: "hv_value g = Some x" "mem_invar x s"
      using g ok q(1) by (auto simp: session_ok_def resp_ok_def split: option.splits)
    have "Some c \<notin> hv_value ` set rs" using ok q by (simp add: session_ok_def)
    then have "caches s' x = caches s x" using g x(1) by (force simp: s')
    from mem_views_cong [OF this x(2)] x show ?thesis by (simp add: resp_ok_def resp_wire_def)
  qed
  then show "session_ok (v\<lparr>resp := rs\<rparr>) s'" "wires (v\<lparr>resp := rs\<rparr>) s' = map (\<lambda>h. resp_wire h s) rs"
    using ok q(1) by (auto simp: session_ok_def wires_def)
qed

lemma no_response_same:
  assumes "resp (o_session (objs s p)) = []"
  shows "s\<lparr>trace := trace s, caches := caches s,
      objs := (objs s)(p := (objs s p)\<lparr>o_session := (o_session (objs s p))\<lparr>resp := []\<rparr>\<rparr>)\<rparr> = (s :: world)"
proof -
  from assms have "(objs s p)\<lparr>o_session := (o_session (objs s p))\<lparr>resp := []\<rparr>\<rparr> = objs s p" by simp
  then show ?thesis unfolding fun_upd_triv by (simp only: fun_upd_triv) simp
qed

lemma VirusHandler_handle_write_ok:
  assumes "o_alive (objs s p)" "send_ok os (o_sock (objs s p))" "session_ok (o_session (objs s p)) s"
    and "length (concat (wires (o_session (objs s p)) s)) < fuel"
  shows "\<exists>h C. VirusHandler_handle_write fuel os vc p s =
      Some (s\<lparr>trace := h, caches := C,
              objs := (objs s)(p := (objs s p)\<lparr>o_session := (o_session (objs s p))\<lparr>resp := []\<rparr>\<rparr>)\<rparr>)
    \<and> sent_on (o_sock (objs s p)) h =
       sent_on (o_sock (objs s p)) (trace s) @ concat (wires (o_session (objs s p)) s)
    \<and> (\<forall>q. Some q \<notin> hv_value ` set (resp (o_session (objs s p))) \<longrightarrow> C q = caches s q)
    \<and> (\<forall>q. Some q \<in> hv_value ` set (resp (o_session (objs s p))) \<longrightarrow> C q = None)
    \<and> only_sends (o_sock (objs s p)) (trace s) h"
  using assms
proof (induction "resp (o_session (objs s p))" arbitrary: s fuel)
  case Nil
  obtain f where f: "fuel = Suc f" using Nil.prems(4) by (cases fuel) auto
  show ?case
    by (intro exI [of _ "trace s"] exI [of _ "caches s"], unfold no_response_same [OF Nil.hyps [symmetric]])
      (use Nil in \<open>simp add: f VirusHandler_handle_write.simps(2) wires_def\<close>)
next
  case (Cons r rs)
  let ?k = "o_sock (objs s p)" and ?v = "o_session (objs s p)"
  obtain f where f: "fuel = Suc f" using Cons.prems(4) by (cases fuel) auto
  note q = Cons.hyps(2) [symmetric]
  obtain c where c: "hv_value r = Some c" "mem_invar c s"
    using Cons.prems(3) q by (auto simp: session_ok_def resp_ok_def split: option.splits)
  have len: "length (cache_pending c s) < f" "length (concat (map (\<lambda>h. resp_wire h s) rs)) < f"
    using Cons.prems(4) q f c(1) by (simp_all add: wires_def resp_wire_def)
  obtain h where h: "VirusHandler_handle_write (Suc f) os vc p s = VirusHandler_handle_write f os vc p
      (s\<lparr>trace := h, caches := (caches s)(c := None), objs := (objs s)(p := (objs s p)\<lparr>o_session := ?v\<lparr>resp := rs\<rparr>\<rparr>)\<rparr>)"
    "sent_on ?k h = sent_on ?k (trace s) @ resp_wire r s" "only_sends ?k (trace s) h"
    by (rule VirusHandler_write_one [OF Cons.prems(1,2) q c len(1)])
  define s3 where "s3 = s\<lparr>trace := h, caches := (caches s)(c := None),
      objs := (objs s)(p := (objs s p)\<lparr>o_session := ?v\<lparr>resp := rs\<rparr>\<rparr>)\<rparr>"
  have o3: "objs s3 p = (objs s p)\<lparr>o_session := ?v\<lparr>resp := rs\<rparr>\<rparr>" "trace s3 = h" "caches s3 = (caches s)(c := None)"
    by (simp_all add: s3_def)
  obtain h' C' where ih: "VirusHandler_handle_write f os vc p s3 =
      Some (s3\<lparr>trace := h', caches := C', objs := (objs s3)(p := (objs s3 p)\<lparr>o_session := ?v\<lparr>resp := []\<rparr>\<rparr>)\<rparr>)"
    "sent_on ?k h' = sent_on ?k h @ concat (map (\<lambda>h. resp_wire h s) rs)"
    "\<forall>q. Some q \<notin> hv_value ` set rs \<longrightarrow> C' q = caches s3 q"
    "\<forall>q. Some q \<in> hv_value ` set rs \<longrightarrow> C' q = None" "only_sends ?k h h'"
    using Cons.hyps(1) [of s3 f] Cons.prems(1,2) session_next_response [OF Cons.prems(3) q c(1) o3(3)] len(2)
    by (auto simp: o3(1,2))
  have "s3\<lparr>trace := h', caches := C', objs := (objs s3)(p := (objs s3 p)\<lparr>o_session := ?v\<lparr>resp := []\<rparr>\<rparr>)\<rparr> =
      s\<lparr>trace := h', caches := C', objs := (objs s)(p := (objs s p)\<lparr>o_session := ?v\<lparr>resp := []\<rparr>\<rparr>)\<rparr>"
    by (simp add: s3_def)
  moreover have "\<forall>x. Some x \<notin> hv_value ` set (resp ?v) \<longrightarrow> C' x = caches s x"
    using ih(3) by (auto simp: q c(1) o3(3))
  moreover have "\<forall>x. Some x \<in> hv_value ` set (resp ?v) \<longrightarrow> C' x = None"
    using ih(3,4) by (auto simp: q c(1) o3(3), metis)
  moreover have "sent_on ?k h' = sent_on ?k (trace s) @ concat (wires ?v s)"
    using ih(2) h(2) by (simp add: wires_def q)
  ultimately show ?case
    using h(1) ih(1) only_sends_trans [OF h(3) ih(5)] unfolding f s3_def by (intro exI [of _ h'] exI [of _ C']) simp
qed

subsection \<open>Receiving\<close>

text \<open>One \<open>handle_read\<close> that receives the bytes \<open>d\<close>.\<close>

definition delivers :: "os \<Rightarrow> cp_socket_t \<Rightarrow> byte list \<Rightarrow> bool" where
  "delivers os k d = (\<forall>h n flags. os_recv os h k n flags = Inr d)"

lemma BaseSocket_recv_data:
  assumes "os_recv os (trace s) (o_sock (objs s p)) 65535 0 = Inr d" "d \<noteq> []" "length d \<le> 65535" "o_alive (objs s p)"
  shows "BaseSocket_recv os vc ve p 65535 s =
    (int (length d), d, s\<lparr>trace := trace s @ [Ev_recv (o_sock (objs s p)) 65535 0 (Some d)]\<rparr>)"
proof -
  have n: "int_of_size 65535 = 65535" using int_of_size_small [of 65535] by simp
  then have "size_of_int (int_of_size 65535) = 65535" by (simp add: size_of_int_def)
  then show ?thesis
    using assms n
    by (simp add: BaseSocket_recv_def cp_recv_def sys_recv_def SOCKET_ERROR_def Let_def word_less_nat_alt)
qed

end
