(* ===== verification/Tcp_Server.thy ===== *)
theory Tcp_Server
  imports Virus_Handler
begin

text \<open>
  \<^bold>\<open>inc/tcp_server.h\<close>, \<^bold>\<open>src/tcp_server.cpp\<close>: the listening socket, which creates a
  \<open>VirusHandler\<close> for every accepted connection, and the \<open>TCPServer\<close> object around it.
\<close>

definition TCPServerImpl_ctor :: "os \<Rightarrow> nat \<Rightarrow> string \<Rightarrow> u16 \<Rightarrow> nat option \<Rightarrow> world \<Rightarrow> world" where
  "TCPServerImpl_ctor os this host port p_handlers s =
     (let s = BaseSocket_ctor os this INVALID_SOCKET p_handlers s;
          (_, s) = BaseSocket_create_socket os this AF_INET SOCK_STREAM s;
          s = BaseSocket_set_reuse_addr this s;
          (_, s) = BaseSocket_bind os this (host, port) AF_INET s;
          (_, s) = BaseSocket_listen os this 5 s
      in s)"

definition TCPServerImpl_handle_accept :: "os \<Rightarrow> nat \<Rightarrow> world \<Rightarrow> world" where
  "TCPServerImpl_handle_accept os this s =
     (let (k, a, s) = BaseSocket_accept os this s in
      if cp_socket_valid k then
        (let p_handlers = o_handlers (objs s this);
             (h, s) = new_obj Cls_VirusHandler s
         in VirusHandler_ctor os h k p_handlers s)
      else s)"

record TCPServer =
  p_impl_sock :: cp_socket_t
  p_impl :: nat
  srv_handlers :: nat

definition TCPServer_ctor ::
  "os \<Rightarrow> string option \<Rightarrow> u16 \<Rightarrow> nat option \<Rightarrow> world \<Rightarrow> TCPServer \<times> world"
where
  "TCPServer_ctor os host port p_handlers s =
     (let mp = (case p_handlers of None \<Rightarrow> g_handlers | Some mp \<Rightarrow> mp);
          host = (case host of None \<Rightarrow> '''' | Some h \<Rightarrow> h);
          (this, s) = new_obj Cls_TCPServerImpl s;
          s = touch this (TCPServerImpl_ctor os this host port (Some mp) s)
      in (\<lparr>p_impl_sock = BaseSocket_socket this s, p_impl = this, srv_handlers = mp\<rparr>, s))"

definition TCPServer_dtor :: "TCPServer \<Rightarrow> world \<Rightarrow> world" where
  "TCPServer_dtor srv s = channel_erase (srv_handlers srv) (p_impl_sock srv) s"

end
