(* ===== verification/Event_Loop.thy ===== *)
theory Event_Loop
  imports Tcp_Server
begin

text \<open>
  The event loop of \<^bold>\<open>src/base_socket.cpp\<close> (\<open>do_select\<close>, \<open>loop\<close>) and \<^bold>\<open>src/main.cpp\<close>. The virtual
  methods are dispatched on the class of the object here; a call through a deleted object is
  recorded and goes to the method of the class its memory still names.
\<close>

subsection \<open>Virtual methods\<close>

definition v_handle_close :: "nat \<Rightarrow> world \<Rightarrow> world" where
  "v_handle_close this s =
     (let s = touch this s in
      case o_class (objs s this) of
        Cls_SocketHandler \<Rightarrow> SocketHandler_handle_close this s
      | Cls_VirusHandler \<Rightarrow> VirusHandler_handle_close this s
      | _ \<Rightarrow> BaseSocket_handle_close this s)"

definition v_handle_expt :: "nat \<Rightarrow> world \<Rightarrow> world" where
  "v_handle_expt this s =
     (let s = touch this s in
      case o_class (objs s this) of
        Cls_SocketHandler \<Rightarrow> SocketHandler_handle_expt v_handle_close this s
      | Cls_VirusHandler \<Rightarrow> VirusHandler_handle_expt v_handle_close this s
      | _ \<Rightarrow> BaseSocket_handle_expt this s)"

definition v_handle_error :: "nat \<Rightarrow> world \<Rightarrow> world" where
  "v_handle_error this s =
     (let s = touch this s in
      case o_class (objs s this) of
        Cls_SocketHandler \<Rightarrow> SocketHandler_handle_error v_handle_close this s
      | Cls_VirusHandler \<Rightarrow> VirusHandler_handle_error v_handle_close this s
      | _ \<Rightarrow> BaseSocket_handle_error v_handle_close this s)"

definition v_handle_connect :: "nat \<Rightarrow> world \<Rightarrow> world" where
  "v_handle_connect this s = BaseSocket_handle_connect this (touch this s)"

definition v_handle_accept :: "os \<Rightarrow> nat \<Rightarrow> world \<Rightarrow> world" where
  "v_handle_accept os this s =
     (let s = touch this s in
      case o_class (objs s this) of
        Cls_TCPServerImpl \<Rightarrow> TCPServerImpl_handle_accept os this s
      | _ \<Rightarrow> BaseSocket_handle_accept this s)"

definition v_handle_read :: "nat \<Rightarrow> os \<Rightarrow> nat \<Rightarrow> world \<Rightarrow> world option" where
  "v_handle_read fuel os this s =
     (let s = touch this s in
      case o_class (objs s this) of
        Cls_SocketHandler \<Rightarrow> Some (SocketHandler_handle_read os v_handle_close v_handle_expt this s)
      | Cls_VirusHandler \<Rightarrow> VirusHandler_handle_read fuel os v_handle_close v_handle_expt this s
      | _ \<Rightarrow> Some (BaseSocket_handle_read this s))"

definition v_handle_write :: "nat \<Rightarrow> os \<Rightarrow> nat \<Rightarrow> world \<Rightarrow> world option" where
  "v_handle_write fuel os this s =
     (let s = touch this s in
      case o_class (objs s this) of
        Cls_SocketHandler \<Rightarrow> Some (SocketHandler_handle_write this s)
      | Cls_VirusHandler \<Rightarrow> VirusHandler_handle_write fuel os v_handle_close this s
      | _ \<Rightarrow> Some (BaseSocket_handle_write this s))"

definition v_readable :: "nat \<Rightarrow> world \<Rightarrow> bool" where
  "v_readable this s =
     (case o_class (objs s this) of
        Cls_SocketHandler \<Rightarrow> SocketHandler_readable this s
      | Cls_VirusHandler \<Rightarrow> VirusHandler_readable this s
      | _ \<Rightarrow> BaseSocket_readable this s)"

definition v_writable :: "nat \<Rightarrow> world \<Rightarrow> bool" where
  "v_writable this s =
     (case o_class (objs s this) of
        Cls_SocketHandler \<Rightarrow> SocketHandler_writable this s
      | Cls_VirusHandler \<Rightarrow> VirusHandler_writable this s
      | _ \<Rightarrow> BaseSocket_writable this s)"

definition handle_read_event :: "nat \<Rightarrow> os \<Rightarrow> nat \<Rightarrow> world \<Rightarrow> world option" where
  "handle_read_event fuel os =
     BaseSocket_handle_read_event os v_handle_error v_handle_connect (v_handle_accept os)
       (v_handle_read fuel os)"

definition handle_write_event :: "nat \<Rightarrow> os \<Rightarrow> nat \<Rightarrow> world \<Rightarrow> world option" where
  "handle_write_event fuel os =
     BaseSocket_handle_write_event os v_handle_error v_handle_connect (v_handle_write fuel os)"

definition handle_expt_event :: "os \<Rightarrow> nat \<Rightarrow> world \<Rightarrow> world" where
  "handle_expt_event os = BaseSocket_handle_expt_event os v_handle_expt v_handle_close"

subsection \<open>The loop\<close>

text \<open>The sets \<open>r\<close>, \<open>w\<close>, \<open>e\<close>, the vector \<open>select_socks\<close> and \<open>max_fd\<close>.\<close>

record sel =
  sel_r :: "int list"
  sel_w :: "int list"
  sel_e :: "int list"
  select_socks :: "cp_socket_t list"
  max_fd :: cp_socket_t

definition raise_max :: "cp_socket_t \<Rightarrow> sel \<Rightarrow> sel" where
  "raise_max k a = (if max_fd a < k then a\<lparr>max_fd := k\<rparr> else a)"

definition want_read :: "cp_socket_t \<Rightarrow> bool \<Rightarrow> sel \<times> world \<Rightarrow> sel \<times> world" where
  "want_read k isr x =
     (case x of (a, s) \<Rightarrow>
        if isr then (let (fds, s) = FD_SET k (sel_r a) s in (raise_max k (a\<lparr>sel_r := fds\<rparr>), s))
        else (a, s))"

definition want_write :: "cp_socket_t \<Rightarrow> bool \<Rightarrow> sel \<times> world \<Rightarrow> sel \<times> world" where
  "want_write k isw x =
     (case x of (a, s) \<Rightarrow>
        if isw then (let (fds, s) = FD_SET k (sel_w a) s in (raise_max k (a\<lparr>sel_w := fds\<rparr>), s))
        else (a, s))"

definition want_expt :: "cp_socket_t \<Rightarrow> bool \<Rightarrow> sel \<times> world \<Rightarrow> sel \<times> world" where
  "want_expt k ise x =
     (case x of (a, s) \<Rightarrow>
        if ise then
          (let (fds, s) = FD_SET k (sel_e a) s
           in (raise_max k (a\<lparr>sel_e := fds, select_socks := select_socks a @ [k]\<rparr>), s))
        else (a, s))"

fun select_args :: "(cp_socket_t, nat) ss_map \<Rightarrow> sel \<times> world \<Rightarrow> sel \<times> world" where
  "select_args [] x = x"
| "select_args ((k, p) # m) (a, s) =
     (let s = touch p s;
          isr = v_readable p s;
          isw = v_writable p s
      in select_args m
           (want_expt k (isr \<or> isw)
             (want_write k (isw \<and> \<not> BaseSocket_is_accepting p s)
               (want_read k isr (a, s)))))"

text \<open>
  One of the three blocks of the dispatch loop. The first component of the result is whether
  the block runs \<open>continue\<close>.
\<close>

definition poll_one ::
  "(nat \<Rightarrow> world \<Rightarrow> bool) \<Rightarrow> (nat \<Rightarrow> world \<Rightarrow> world option) \<Rightarrow> nat \<Rightarrow> cp_socket_t \<Rightarrow> int list \<Rightarrow> int \<Rightarrow>
    world \<Rightarrow> (bool \<times> int \<times> world) option"
where
  "poll_one ready handler mp k fds retv s =
     (if retv > 0 then
        (case map_find k (maps s mp) of
           None \<Rightarrow> Some (True, retv, s)
         | Some p \<Rightarrow>
             if FD_ISSET k fds then
               (let s = touch p s in
                if ready p s then
                  (case handler p s of
                     None \<Rightarrow> None
                   | Some s \<Rightarrow> Some (False, retv - 1, s))
                else Some (False, retv, s))
             else Some (False, retv, s))
      else Some (False, retv, s))"

fun dispatch_socks ::
  "nat \<Rightarrow> os \<Rightarrow> nat \<Rightarrow> int list \<times> int list \<times> int list \<Rightarrow> cp_socket_t list \<Rightarrow> int \<Rightarrow> world \<Rightarrow> world option"
where
  "dispatch_socks fuel os mp fds [] retv s = Some s"
| "dispatch_socks fuel os mp (r, w, e) (k # ks) retv s =
     (case poll_one v_readable (handle_read_event fuel os) mp k r retv s of
        None \<Rightarrow> None
      | Some (True, retv, s) \<Rightarrow> dispatch_socks fuel os mp (r, w, e) ks retv s
      | Some (False, retv, s) \<Rightarrow>
          (case poll_one v_writable (handle_write_event fuel os) mp k w retv s of
             None \<Rightarrow> None
           | Some (True, retv, s) \<Rightarrow> dispatch_socks fuel os mp (r, w, e) ks retv s
           | Some (False, retv, s) \<Rightarrow>
               (case poll_one (\<lambda>p s. v_readable p s \<or> v_writable p s)
                       (\<lambda>p s. Some (handle_expt_event os p s)) mp k e retv s of
                  None \<Rightarrow> None
                | Some (_, retv, s) \<Rightarrow> dispatch_socks fuel os mp (r, w, e) ks retv s)))"

definition do_select :: "nat \<Rightarrow> os \<Rightarrow> int \<Rightarrow> nat \<Rightarrow> world \<Rightarrow> world option" where
  "do_select fuel os timeout_ms mp s =
     (if map_size (maps s mp) = 0 then Some s
      else
        (let (a, s) = select_args (maps s mp)
               (\<lparr>sel_r = [], sel_w = [], sel_e = [], select_socks = [], max_fd = 0\<rparr>, s)
         in if max_fd a = 0 then Some (sleep_ms timeout_ms s)
            else
              (let (retv, fds, s) =
                 sys_select os (max_fd a + 1) (sel_r a) (sel_w a) (sel_e a) (timeout_ms * 1000) s
               in if retv = 0 then Some s
                  else if retv = SOCKET_ERROR then Some s
                  else dispatch_socks fuel os mp fds (select_socks a) retv s)))"

text \<open>
  \<open>loop\<close>. With \<open>count = 0\<close> it runs until the map is empty, which the fuel bounds; \<open>hfuel\<close> is the
  fuel of the handlers.
\<close>

fun loop_while :: "nat \<Rightarrow> nat \<Rightarrow> os \<Rightarrow> int \<Rightarrow> nat \<Rightarrow> world \<Rightarrow> world option" where
  "loop_while 0 hfuel os timeout_ms mp s = None"
| "loop_while (Suc fuel) hfuel os timeout_ms mp s =
     (if map_size (maps s mp) = 0 then Some s
      else case do_select hfuel os timeout_ms mp s of
             None \<Rightarrow> None
           | Some s \<Rightarrow> loop_while fuel hfuel os timeout_ms mp s)"

fun loop_count :: "nat \<Rightarrow> nat \<Rightarrow> os \<Rightarrow> int \<Rightarrow> nat \<Rightarrow> world \<Rightarrow> world option" where
  "loop_count 0 hfuel os timeout_ms mp s = Some s"
| "loop_count (Suc n) hfuel os timeout_ms mp s =
     (if map_size (maps s mp) = 0 then Some s
      else case do_select hfuel os timeout_ms mp s of
             None \<Rightarrow> None
           | Some s \<Rightarrow> loop_count n hfuel os timeout_ms mp s)"

definition loop :: "nat \<Rightarrow> nat \<Rightarrow> os \<Rightarrow> int \<Rightarrow> size_t \<Rightarrow> nat option \<Rightarrow> world \<Rightarrow> world option" where
  "loop fuel hfuel os timeout_ms count p_handlers s =
     (let mp = (case p_handlers of None \<Rightarrow> g_handlers | Some mp \<Rightarrow> mp) in
      if map_size (maps s mp) = 0 then Some s
      else if count = 0 then loop_while fuel hfuel os timeout_ms mp s
      else loop_count (unat count) hfuel os timeout_ms mp s)"

text \<open>
  \<open>main\<close>: the map is a local variable, at an address other than that of \<open>g_handlers\<close>; the
  destructor of \<open>srv\<close> runs before the map's, which deletes every handler left.
\<close>

definition sock_handlers :: nat where "sock_handlers = 1"

definition map_dtor :: "nat \<Rightarrow> world \<Rightarrow> world" where
  "map_dtor mp s =
     fold (\<lambda>(k, p). delete_obj p) (maps s mp) (s\<lparr>maps := (maps s)(mp := [])\<rparr>)"

definition main :: "nat \<Rightarrow> nat \<Rightarrow> os \<Rightarrow> world \<Rightarrow> world option" where
  "main fuel hfuel os s =
     (let (srv, s) = TCPServer_ctor os None 7890 (Some sock_handlers) s in
      case loop fuel hfuel os 60000 0 (Some sock_handlers) s of
        None \<Rightarrow> None
      | Some s \<Rightarrow> Some (map_dtor sock_handlers (TCPServer_dtor srv s)))"

end
