(* ===== verification/Event_Dispatch.thy ===== *)
theory Event_Dispatch
  imports Event_Loop
begin

text \<open>
  What the event loop guarantees for every behaviour of the environment. The locale
  \<open>event_handler\<close> is the contract between the dispatch loop and the handlers it calls; it is
  interpreted on the three event handlers with their virtual dispatch. On top of it the
  registry invariant (every map entry owns one live object, under its own socket) is carried
  through \<open>do_select\<close>, the loops and the construction of the server, and the dispatch loop with
  its count of events is shown equal to one that does not count.
\<close>

subsection \<open>The registry invariant\<close>

lemma reg_ok_log [simp]: "reg_ok (BaseSocket_log m s) = reg_ok s"
  by (rule reg_ok_sys) (simp add: BaseSocket_log_def)

lemma reg_ok_v_close: "reg_ok s \<Longrightarrow> reg_ok (v_handle_close p s)"
  by (simp add: v_handle_close_def Let_def SocketHandler_handle_close_def VirusHandler_handle_close_def
      BaseSocket_handle_close_def BaseSocket_log_warning_def reg_ok_close split: sock_class.split)

lemma reg_ok_v_expt: "reg_ok s \<Longrightarrow> reg_ok (v_handle_expt p s)"
  by (simp add: v_handle_expt_def Let_def SocketHandler_handle_expt_def VirusHandler_handle_expt_def
      BaseSocket_handle_expt_def BaseSocket_log_warning_def reg_ok_v_close split: sock_class.split)

lemma reg_ok_v_error: "reg_ok s \<Longrightarrow> reg_ok (v_handle_error p s)"
  by (simp add: v_handle_error_def Let_def SocketHandler_handle_error_def VirusHandler_handle_error_def
      BaseSocket_handle_error_def BaseSocket_log_warning_def reg_ok_v_close split: sock_class.split)

lemma reg_ok_getsockopt: "reg_ok (snd (sys_getsockopt os k s)) = reg_ok s"
  by (rule reg_ok_sys) (simp add: sys_getsockopt_def Let_def)

lemma reg_ok_connect_event:
  "reg_ok s \<Longrightarrow> reg_ok (BaseSocket_handle_connect_event os v_handle_error v_handle_connect p s)"
  by (simp add: BaseSocket_handle_connect_event_def Let_def case_prod_beta reg_ok_v_error reg_ok_getsockopt
      v_handle_connect_def BaseSocket_handle_connect_def BaseSocket_log_warning_def reg_ok_upd)

lemma reg_ok_recv:
  "reg_ok s \<Longrightarrow> reg_ok (snd (snd (BaseSocket_recv os v_handle_close v_handle_expt p n s)))"
  using reg_ok_sys [OF sys_frame(10), of os "o_sock (objs s p)" True _ 0 "touch p s"]
  by (simp add: BaseSocket_recv_def Let_def case_prod_beta reg_ok_v_close reg_ok_v_expt)

lemma reg_ok_send:
  "reg_ok s \<Longrightarrow> reg_ok (snd (BaseSocket_send os v_handle_close p b n s))"
  using reg_ok_sys [OF sys_frame(9), of os "o_sock (objs s p)" "Some b" "int_of_size n" 0 "touch p s"]
  by (simp add: BaseSocket_send_def Let_def case_prod_beta reg_ok_v_close)

lemma reg_ok_virus_read:
  assumes "reg_ok s" "VirusHandler_handle_read fuel os v_handle_close v_handle_expt p s = Some s'"
  shows "reg_ok s'"
proof -
  obtain n d s1 where rc: "BaseSocket_recv os v_handle_close v_handle_expt p 65535 s = (n, d, s1)"
    by (metis prod_cases3)
  with reg_ok_recv [OF assms(1), of os p 65535] have s1: "reg_ok (touch p s1)" "reg_ok s1" by simp_all
  show ?thesis
    using assms(2) s1 rc
    by (auto simp: VirusHandler_handle_read_def VH_received_def split: if_splits option.splits
        intro!: reg_ok_upd dest!: VH_read_loop_frame reg_ok_cstate)
qed

lemma reg_ok_send_value:
  "reg_ok s \<Longrightarrow> VirusHandler_send_value fuel os v_handle_close p c s = Some s' \<Longrightarrow> reg_ok s'"
proof (induction fuel arbitrary: s)
  case (Suc fuel)
  obtain n b s1 where pop: "cache_pop c 4096 s = (n, b, s1)" by (metis prod_cases3)
  with cstate_frame_cache(6) [of c 4096 s] have "reg_ok s1" using Suc.prems(1) reg_ok_cstate [of s1 s] by simp
  with Suc.prems(2) pop Suc.IH [OF reg_ok_send] show ?case
    by (auto simp: VirusHandler_send_value.simps(2) split: if_splits)
qed simp

lemma reg_ok_virus_write:
  "reg_ok s \<Longrightarrow> VirusHandler_handle_write fuel os v_handle_close p s = Some s' \<Longrightarrow> reg_ok s'"
proof (induction fuel arbitrary: s)
  case (Suc fuel)
  have rel: "reg_ok (leave_cache (Some c) (delete_cache (Some c) t)) = reg_ok t" for c t
    by (rule reg_ok_cstate) (simp add: cstate_frame_cache)
  show ?case
  proof (cases "resp (o_session (objs s p))")
    case Nil
    with Suc.prems show ?thesis by (auto simp: VirusHandler_handle_write.simps(2))
  next
    case (Cons r rs)
    let ?s1 = "upd_obj p (\<lambda>x. x\<lparr>o_session := (o_session x)\<lparr>resp := rs\<rparr>\<rparr>) (touch p s)"
    have s1: "reg_ok ?s1" using Suc.prems(1) by (intro reg_ok_upd) simp_all
    from Suc.prems(2) Cons consider
      "VirusHandler_handle_write fuel os v_handle_close p ?s1 = Some s'"
    | c t where "VirusHandler_send_value fuel os v_handle_close p c
          (snd (BaseSocket_send os v_handle_close p (header_bytes (hv_header r))
            (size_of_int sizeof_Header) ?s1)) = Some t"
        "VirusHandler_handle_write fuel os v_handle_close p
          (leave_cache (Some c) (delete_cache (Some c) t)) = Some s'"
      by (auto simp: VirusHandler_handle_write.simps(2) Let_def case_prod_beta split: option.splits)
    then show ?thesis
    proof cases
      case 1
      then show ?thesis by (rule Suc.IH [OF s1])
    next
      case 2
      from reg_ok_send_value [OF reg_ok_send [OF s1] 2(1)] have "reg_ok t" .
      then show ?thesis using Suc.IH [OF _ 2(2)] rel by simp
    qed
  qed
qed simp

lemma reg_ok_setblocking: "reg_ok (snd (cp_setblocking os k b s)) = reg_ok s"
  by (rule reg_ok_sys) (rule sys_frame)

lemma reg_ok_new_client:
  assumes "reg_ok s" "cp_socket_valid k"
  shows "reg_ok (VirusHandler_ctor os (next_obj s) k (Some mp) (snd (new_obj cls s)))"
proof -
  let ?s = "snd (new_obj cls s)"
  have "next_obj s < next_obj ?s" "o_alive (objs ?s (next_obj s))" by (simp_all add: new_obj_def)
  from BaseSocket_ctor_valid(1) [OF reg_ok_new_obj [OF assms(1)] this assms(2)] show ?thesis
    by (simp add: VirusHandler_ctor_def SocketHandler_ctor_def Let_def reg_ok_setblocking reg_ok_upd)
qed

lemma accept_world:
  assumes "BaseSocket_accept os p s = (k, a, s')"
  shows "objs s' = objs s" "maps s' = maps s" "next_obj s' = next_obj s"
  using assms world_of_sys [OF sys_frame(7), of os "o_sock (objs s p)" "stack_sockaddr os 0 0 (touch p s)" "touch p s"]
  by (auto simp: BaseSocket_accept_def Let_def case_prod_beta split: if_splits)

lemma reg_ok_v_accept:
  assumes "reg_ok s" "map_find k (maps s mp) = Some p"
  shows "reg_ok (v_handle_accept os p s)"
proof -
  from assms have e: "o_alive (objs s p)" "o_handlers (objs s p) = Some mp"
    by (auto simp: reg_ok_def reg_entry_def)
  obtain c a s1 where ac: "BaseSocket_accept os p s = (c, a, s1)" by (metis prod_cases3)
  note w = accept_world [OF ac]
  have "reg_ok s1" using assms(1) reg_ok_cong [OF w] by simp
  then have "reg_ok (TCPServerImpl_handle_accept os p s)"
    using reg_ok_new_client [of s1 c os mp Cls_VirusHandler] ac w e
    by (simp add: TCPServerImpl_handle_accept_def Let_def case_prod_beta new_obj_def)
  then show ?thesis
    using assms(1) e
    by (simp add: v_handle_accept_def BaseSocket_handle_accept_def BaseSocket_log_warning_def split: sock_class.split)
qed

subsection \<open>The contract of an event handler\<close>

text \<open>
  What the dispatch loop relies on: an event handler called on a registered object leaves the
  registry consistent. The loop itself then does.
\<close>

locale event_handler =
  fixes handler :: "nat \<Rightarrow> world \<Rightarrow> world option"
  assumes handler_ok:
    "reg_ok s \<Longrightarrow> map_find k (maps s mp) = Some p \<Longrightarrow> handler p s = Some s' \<Longrightarrow> reg_ok s'"
begin

lemma poll_ok:
  assumes "reg_ok s" "poll_one ready handler mp k fds retv s = Some (c, retv', s')"
  shows "reg_ok s'"
  using assms handler_ok [of "touch p s" k mp p for p]
  by (auto simp: poll_one_def Let_def split: if_splits option.splits)

lemma poll_budget:
  assumes "poll_one ready handler mp k fds retv s = Some (c, retv', s')"
  shows "retv' = retv \<or> (retv' = retv - 1 \<and> 0 < retv \<and> FD_ISSET k fds)"
  using assms by (auto simp: poll_one_def Let_def split: if_splits option.splits)

end

interpretation read_events: event_handler "handle_read_event fuel os" for fuel os
proof
  fix s s' k mp p
  assume a: "reg_ok s" "map_find k (maps s mp) = Some p" "handle_read_event fuel os p s = Some s'"
  have read: "reg_ok t'" if "reg_ok t" "v_handle_read fuel os p t = Some t'" for t t'
    using that reg_ok_virus_read [of "touch p t" fuel os p t'] reg_ok_recv [of "touch p t" os p 4096]
    by (auto simp: v_handle_read_def Let_def SocketHandler_handle_read_def case_prod_beta BaseSocket_handle_read_def
        BaseSocket_log_warning_def split: sock_class.splits)
  show "reg_ok s'"
    using a reg_ok_v_accept [of "touch p s" k mp p os] reg_ok_connect_event [of "touch p s" os p]
      read [of "touch p s" s']
      read [of "BaseSocket_handle_connect_event os v_handle_error v_handle_connect p (touch p s)" s']
    by (auto simp: handle_read_event_def BaseSocket_handle_read_event_def Let_def split: if_splits)
qed

interpretation write_events: event_handler "handle_write_event fuel os" for fuel os
proof
  fix s s' k mp p
  assume a: "reg_ok s" "map_find k (maps s mp) = Some p" "handle_write_event fuel os p s = Some s'"
  have wr: "reg_ok t'" if "reg_ok t" "v_handle_write fuel os p t = Some t'" for t t'
    using that reg_ok_virus_write [of "touch p t" fuel os p t']
    by (auto simp: v_handle_write_def Let_def SocketHandler_handle_write_def BaseSocket_handle_write_def
        BaseSocket_log_warning_def split: sock_class.splits)
  show "reg_ok s'"
    using a reg_ok_connect_event [of "touch p s" os p]
      wr [of "touch p s" s']
      wr [of "BaseSocket_handle_connect_event os v_handle_error v_handle_connect p (touch p s)" s']
    by (auto simp: handle_write_event_def BaseSocket_handle_write_event_def Let_def split: if_splits)
qed

interpretation expt_events: event_handler "\<lambda>p s. Some (handle_expt_event os p s)" for os
proof
  fix s s' k mp p
  assume "reg_ok s" "Some (handle_expt_event os p s) = Some s'"
  then show "reg_ok s'"
    by (auto simp: handle_expt_event_def BaseSocket_handle_expt_event_def Let_def case_prod_beta
        reg_ok_v_expt reg_ok_v_close reg_ok_getsockopt)
qed

lemma reg_ok_dispatch:
  "reg_ok s \<Longrightarrow> dispatch_socks fuel os mp (r, w, e) ks retv s = Some s' \<Longrightarrow> reg_ok s'"
proof (induction ks arbitrary: retv s)
  case (Cons k ks)
  obtain c1 n1 s1 where p1: "poll_one v_readable (handle_read_event fuel os) mp k r retv s = Some (c1, n1, s1)"
    using Cons.prems(2) by (auto split: option.splits)
  note r1 = read_events.poll_ok [OF Cons.prems(1) p1]
  show ?case
  proof (cases c1)
    case True
    with Cons.IH [OF r1] Cons.prems(2) p1 show ?thesis by simp
  next
    case False
    then obtain c2 n2 s2 where p2: "poll_one v_writable (handle_write_event fuel os) mp k w n1 s1 = Some (c2, n2, s2)"
      using Cons.prems(2) p1 by (auto split: option.splits)
    note r2 = write_events.poll_ok [OF r1 p2]
    show ?thesis
    proof (cases c2)
      case True
      with Cons.IH [OF r2] Cons.prems(2) p1 p2 False show ?thesis by simp
    next
      case c2: False
      then obtain c3 n3 s3 where p3: "poll_one (\<lambda>p s. v_readable p s \<or> v_writable p s)
          (\<lambda>p s. Some (handle_expt_event os p s)) mp k e n2 s2 = Some (c3, n3, s3)"
        using Cons.prems(2) p1 p2 False by (auto split: option.splits)
      from Cons.IH [OF expt_events.poll_ok [OF r2 p3]] Cons.prems(2) p1 p2 p3 False c2 show ?thesis by simp
    qed
  qed
qed simp

lemma touch_more [simp]: "sys.more (touch p s) = sys.more s"
  by (simp add: touch_def)

lemma want_frame:
  "sys.more (snd (want_read k b x)) = sys.more (snd x)"
  "sys.more (snd (want_write k b x)) = sys.more (snd x)"
  "sys.more (snd (want_expt k b x)) = sys.more (snd x)"
  by (simp_all add: want_read_def want_write_def want_expt_def sys_frame case_prod_beta)

lemma select_args_frame: "sys.more (snd (select_args m x)) = sys.more (snd x)"
proof (induction m arbitrary: x)
  case (Cons e m)
  obtain k p a s where "e = (k, p)" "x = (a, s)" by (metis prod.exhaust)
  with Cons.IH show ?case by (simp add: Let_def want_frame)
qed simp

lemma reg_ok_do_select:
  assumes "reg_ok s" "do_select fuel os t mp s = Some s'"
  shows "reg_ok s'"
proof -
  obtain a s1 where sel: "select_args (maps s mp)
      (\<lparr>sel_r = [], sel_w = [], sel_e = [], select_socks = [], max_fd = 0\<rparr>, s) = (a, s1)"
    by (metis prod.exhaust)
  with select_args_frame [of "maps s mp" "(\<lparr>sel_r = [], sel_w = [], sel_e = [], select_socks = [], max_fd = 0\<rparr>, s)"]
  have r1: "reg_ok s1" using assms(1) reg_ok_sys [of s1 s] by simp
  obtain n r w e s2 where se: "sys_select os (max_fd a + 1) (sel_r a) (sel_w a) (sel_e a) (t * 1000) s1 =
      (n, (r, w, e), s2)"
    by (metis prod.exhaust)
  with sys_frame(11) [of os "max_fd a + 1" "sel_r a" "sel_w a" "sel_e a" "t * 1000" s1]
  have r2: "reg_ok s2" using r1 reg_ok_sys [of s2 s1] by simp
  have sl: "reg_ok (sleep_ms t s1)" using r1 reg_ok_sys [of "sleep_ms t s1" s1] by (simp add: sleep_ms_def Let_def)
  show ?thesis
    using assms sel se r2 sl reg_ok_dispatch [OF r2]
    by (auto simp: do_select_def split: if_splits)
qed

lemma reg_ok_loop_while: "reg_ok s \<Longrightarrow> loop_while fuel hf os t mp s = Some s' \<Longrightarrow> reg_ok s'"
  by (induction fuel hf os t mp s rule: loop_while.induct)
    (auto split: if_splits option.splits dest: reg_ok_do_select)

lemma reg_ok_loop_count: "reg_ok s \<Longrightarrow> loop_count n hf os t mp s = Some s' \<Longrightarrow> reg_ok s'"
  by (induction n hf os t mp s rule: loop_count.induct)
    (auto split: if_splits option.splits dest: reg_ok_do_select)

subsection \<open>The budget of ready descriptors\<close>

text \<open>
  The dispatch loop stops calling handlers once it has served \<open>retv\<close> events. The reference below
  does not count; the budget \<open>select\<close> returns is never exhausted early, so both agree.
\<close>

definition serve_one ::
  "(nat \<Rightarrow> world \<Rightarrow> bool) \<Rightarrow> (nat \<Rightarrow> world \<Rightarrow> world option) \<Rightarrow> nat \<Rightarrow> cp_socket_t \<Rightarrow> int list \<Rightarrow> world \<Rightarrow>
    (bool \<times> world) option"
where
  "serve_one ready handler mp k fds s =
     (case map_find k (maps s mp) of
        None \<Rightarrow> Some (True, s)
      | Some p \<Rightarrow>
          if FD_ISSET k fds then
            (let s = touch p s in
             if ready p s then map_option (Pair False) (handler p s) else Some (False, s))
          else Some (False, s))"

fun dispatch_all ::
  "nat \<Rightarrow> os \<Rightarrow> nat \<Rightarrow> int list \<times> int list \<times> int list \<Rightarrow> cp_socket_t list \<Rightarrow> world \<Rightarrow> world option"
where
  "dispatch_all fuel os mp fds [] s = Some s"
| "dispatch_all fuel os mp (r, w, e) (k # ks) s =
     (case serve_one v_readable (handle_read_event fuel os) mp k r s of
        None \<Rightarrow> None
      | Some (True, s) \<Rightarrow> dispatch_all fuel os mp (r, w, e) ks s
      | Some (False, s) \<Rightarrow>
          (case serve_one v_writable (handle_write_event fuel os) mp k w s of
             None \<Rightarrow> None
           | Some (True, s) \<Rightarrow> dispatch_all fuel os mp (r, w, e) ks s
           | Some (False, s) \<Rightarrow>
               (case serve_one (\<lambda>p s. v_readable p s \<or> v_writable p s)
                       (\<lambda>p s. Some (handle_expt_event os p s)) mp k e s of
                  None \<Rightarrow> None
                | Some (_, s) \<Rightarrow> dispatch_all fuel os mp (r, w, e) ks s)))"

definition ready_bit :: "cp_socket_t \<Rightarrow> int list \<Rightarrow> int" where
  "ready_bit k fds = (if k \<in> set fds then 1 else 0)"

fun ready_bits :: "int list \<times> int list \<times> int list \<Rightarrow> cp_socket_t list \<Rightarrow> int" where
  "ready_bits fds [] = 0"
| "ready_bits (r, w, e) (k # ks) =
     ready_bit k r + ready_bit k w + ready_bit k e + ready_bits (r, w, e) ks"

lemma ready_bit_nonneg [simp]: "0 \<le> ready_bit k fds"
  by (simp add: ready_bit_def)

lemma ready_bits_nonneg [simp]: "0 \<le> ready_bits fds ks"
  by (induction fds ks rule: ready_bits.induct) simp_all

lemma ready_bit_le0: "ready_bit k fds \<le> 0 \<longleftrightarrow> \<not> FD_ISSET k fds"
  by (simp add: ready_bit_def FD_ISSET_def)

text \<open>Without ready descriptors neither loop does anything.\<close>

lemma poll_idle: "\<not> FD_ISSET k fds \<Longrightarrow> \<exists>c. poll_one ready handler mp k fds retv s = Some (c, retv, s)"
  "\<not> FD_ISSET k fds \<Longrightarrow> \<exists>c. serve_one ready handler mp k fds s = Some (c, s)"
  by (auto simp: poll_one_def serve_one_def split: option.split)

lemma dispatch_idle:
  assumes "ready_bits (r, w, e) ks \<le> 0"
  shows "dispatch_socks fuel os mp (r, w, e) ks retv s = Some s \<and> dispatch_all fuel os mp (r, w, e) ks s = Some s"
  using assms
proof (induction ks)
  case (Cons k ks)
  have b: "ready_bit k r \<le> 0" "ready_bit k w \<le> 0" "ready_bit k e \<le> 0" "ready_bits (r, w, e) ks \<le> 0"
    using Cons.prems ready_bit_nonneg [of k r] ready_bit_nonneg [of k w] ready_bit_nonneg [of k e]
      ready_bits_nonneg [of "(r, w, e)" ks] unfolding ready_bits.simps by linarith+
  note p = poll_idle(1) [OF b(1) [unfolded ready_bit_le0], of v_readable "handle_read_event fuel os" mp retv s]
    poll_idle(1) [OF b(2) [unfolded ready_bit_le0], of v_writable "handle_write_event fuel os" mp retv s]
    poll_idle(1) [OF b(3) [unfolded ready_bit_le0], of "\<lambda>p s. v_readable p s \<or> v_writable p s"
      "\<lambda>p s. Some (handle_expt_event os p s)" mp retv s]
  note q = poll_idle(2) [OF b(1) [unfolded ready_bit_le0], of v_readable "handle_read_event fuel os" mp s]
    poll_idle(2) [OF b(2) [unfolded ready_bit_le0], of v_writable "handle_write_event fuel os" mp s]
    poll_idle(2) [OF b(3) [unfolded ready_bit_le0], of "\<lambda>p s. v_readable p s \<or> v_writable p s"
      "\<lambda>p s. Some (handle_expt_event os p s)" mp s]
  show ?case using p q Cons.IH [OF b(4)] by (auto split: bool.split)
qed simp

text \<open>A block of the loop is the block of the reference and pays at most one, or nothing is left to do.\<close>

lemma poll_serve:
  assumes "ready_bit k fds + rest \<le> retv" "0 \<le> rest"
  obtains "serve_one ready handler mp k fds s = None" "poll_one ready handler mp k fds retv s = None"
  | c n s' where "serve_one ready handler mp k fds s = Some (c, s')"
      "poll_one ready handler mp k fds retv s = Some (c, n, s')" "rest \<le> n"
  | c where "serve_one ready handler mp k fds s = Some (c, s)"
      "poll_one ready handler mp k fds retv s = Some (False, retv, s)" "rest = 0" "0 \<le> retv"
proof (cases "0 < retv")
  case True
  with assms(1) have "(serve_one ready handler mp k fds s = None \<and> poll_one ready handler mp k fds retv s = None) \<or>
      (\<exists>c n s'. serve_one ready handler mp k fds s = Some (c, s') \<and>
        poll_one ready handler mp k fds retv s = Some (c, n, s') \<and> rest \<le> n)"
    by (auto simp: poll_one_def serve_one_def ready_bit_def FD_ISSET_def Let_def
        split: option.split if_splits)
  then show ?thesis by (elim disjE exE conjE) (erule (1) that(1), erule (2) that(2))
next
  case False
  with assms ready_bit_nonneg [of k fds] have "rest = 0" "ready_bit k fds \<le> 0" "0 \<le> retv" by linarith+
  with False that(3) poll_idle(2) [of k fds ready handler mp s] show ?thesis
    by (auto simp: ready_bit_le0 poll_one_def)
qed

lemma expt_budget:
  assumes "ready_bit k e + ready_bits (r, w, e) ks \<le> retv"
    and IH: "\<And>n s. ready_bits (r, w, e) ks \<le> n \<Longrightarrow>
      dispatch_socks fuel os mp (r, w, e) ks n s = dispatch_all fuel os mp (r, w, e) ks s"
  shows "(case poll_one (\<lambda>p s. v_readable p s \<or> v_writable p s)
             (\<lambda>p s. Some (handle_expt_event os p s)) mp k e retv s of
           None \<Rightarrow> None
         | Some (_, retv, s) \<Rightarrow> dispatch_socks fuel os mp (r, w, e) ks retv s) =
    (case serve_one (\<lambda>p s. v_readable p s \<or> v_writable p s)
             (\<lambda>p s. Some (handle_expt_event os p s)) mp k e s of
           None \<Rightarrow> None
         | Some (_, s) \<Rightarrow> dispatch_all fuel os mp (r, w, e) ks s)"
  by (rule poll_serve [OF assms(1) ready_bits_nonneg, of "\<lambda>p s. v_readable p s \<or> v_writable p s"
        "\<lambda>p s. Some (handle_expt_event os p s)" mp s]) (simp_all add: IH)

lemma write_budget:
  assumes "ready_bit k w + (ready_bit k e + ready_bits (r, w, e) ks) \<le> retv"
    and IH: "\<And>n s. ready_bits (r, w, e) ks \<le> n \<Longrightarrow>
      dispatch_socks fuel os mp (r, w, e) ks n s = dispatch_all fuel os mp (r, w, e) ks s"
  shows "(case poll_one v_writable (handle_write_event fuel os) mp k w retv s of
             None \<Rightarrow> None
           | Some (True, retv, s) \<Rightarrow> dispatch_socks fuel os mp (r, w, e) ks retv s
           | Some (False, retv, s) \<Rightarrow>
               (case poll_one (\<lambda>p s. v_readable p s \<or> v_writable p s)
                       (\<lambda>p s. Some (handle_expt_event os p s)) mp k e retv s of
                  None \<Rightarrow> None
                | Some (_, retv, s) \<Rightarrow> dispatch_socks fuel os mp (r, w, e) ks retv s)) =
    (case serve_one v_writable (handle_write_event fuel os) mp k w s of
             None \<Rightarrow> None
           | Some (True, s) \<Rightarrow> dispatch_all fuel os mp (r, w, e) ks s
           | Some (False, s) \<Rightarrow>
               (case serve_one (\<lambda>p s. v_readable p s \<or> v_writable p s)
                       (\<lambda>p s. Some (handle_expt_event os p s)) mp k e s of
                  None \<Rightarrow> None
                | Some (_, s) \<Rightarrow> dispatch_all fuel os mp (r, w, e) ks s))"
proof -
  have nn: "0 \<le> ready_bit k e + ready_bits (r, w, e) ks" by simp
  show ?thesis
  proof (rule poll_serve [OF assms(1) nn, of v_writable "handle_write_event fuel os" mp s])
    fix c n s'
    assume a: "serve_one v_writable (handle_write_event fuel os) mp k w s = Some (c, s')"
      "poll_one v_writable (handle_write_event fuel os) mp k w retv s = Some (c, n, s')"
      "ready_bit k e + ready_bits (r, w, e) ks \<le> n"
    then have "ready_bits (r, w, e) ks \<le> n" using ready_bit_nonneg [of k e] by linarith
    with a expt_budget [OF a(3) IH, of s'] IH show ?thesis by (cases c) simp_all
  next
    fix c
    assume a: "serve_one v_writable (handle_write_event fuel os) mp k w s = Some (c, s)"
      "poll_one v_writable (handle_write_event fuel os) mp k w retv s = Some (False, retv, s)"
      "ready_bit k e + ready_bits (r, w, e) ks = 0" "0 \<le> retv"
    then have e: "\<not> FD_ISSET k e" "ready_bits (r, w, e) ks \<le> 0"
      using ready_bit_nonneg [of k e] ready_bits_nonneg [of "(r, w, e)" ks]
      unfolding ready_bit_le0 [symmetric] by linarith+
    with a expt_budget [of k e r w ks retv, OF _ IH, of s] dispatch_idle [OF e(2), of fuel os mp] show ?thesis
      using poll_idle(2) [OF e(1), of "\<lambda>p s. v_readable p s \<or> v_writable p s"
        "\<lambda>p s. Some (handle_expt_event os p s)" mp s]
      by (cases c) auto
  qed simp
qed

lemma dispatch_budget:
  assumes "ready_bits (r, w, e) ks \<le> retv"
  shows "dispatch_socks fuel os mp (r, w, e) ks retv s = dispatch_all fuel os mp (r, w, e) ks s"
  using assms
proof (induction ks arbitrary: retv s)
  case (Cons k ks)
  let ?rest = "ready_bit k w + (ready_bit k e + ready_bits (r, w, e) ks)"
  have b: "ready_bit k r + ?rest \<le> retv" "0 \<le> ?rest" using Cons.prems by (simp_all add: ac_simps)
  show ?case
  proof (rule poll_serve [OF b, of v_readable "handle_read_event fuel os" mp s])
    fix c n s'
    assume a: "serve_one v_readable (handle_read_event fuel os) mp k r s = Some (c, s')"
      "poll_one v_readable (handle_read_event fuel os) mp k r retv s = Some (c, n, s')" "?rest \<le> n"
    then have "ready_bits (r, w, e) ks \<le> n"
      using ready_bit_nonneg [of k e] ready_bit_nonneg [of k w] by linarith
    with a write_budget [OF a(3) Cons.IH, of s'] Cons.IH show ?thesis by (cases c) simp_all
  next
    fix c
    assume a: "serve_one v_readable (handle_read_event fuel os) mp k r s = Some (c, s)"
      "poll_one v_readable (handle_read_event fuel os) mp k r retv s = Some (False, retv, s)"
      "?rest = 0" "0 \<le> retv"
    then have i: "\<not> FD_ISSET k w" "\<not> FD_ISSET k e" "ready_bits (r, w, e) ks \<le> 0"
      using ready_bit_nonneg [of k e] ready_bit_nonneg [of k w] ready_bits_nonneg [of "(r, w, e)" ks]
      unfolding ready_bit_le0 [symmetric] by linarith+
    with a write_budget [of k w e r ks retv, OF _ Cons.IH, of s] dispatch_idle [OF i(3), of fuel os mp] show ?thesis
      using poll_idle(2) [OF i(1), of v_writable "handle_write_event fuel os" mp s]
        poll_idle(2) [OF i(2), of "\<lambda>p s. v_readable p s \<or> v_writable p s"
          "\<lambda>p s. Some (handle_expt_event os p s)" mp s]
      by (cases c) (auto split: bool.split)
  qed simp
qed simp

definition do_select_all :: "nat \<Rightarrow> os \<Rightarrow> int \<Rightarrow> nat \<Rightarrow> world \<Rightarrow> world option" where
  "do_select_all fuel os timeout_ms mp s =
     (if map_size (maps s mp) = 0 then Some s
      else
        (let (a, s) = select_args (maps s mp)
               (\<lparr>sel_r = [], sel_w = [], sel_e = [], select_socks = [], max_fd = 0\<rparr>, s)
         in if max_fd a = 0 then Some (sleep_ms timeout_ms s)
            else
              (let (retv, fds, s) =
                 sys_select os (max_fd a + 1) (sel_r a) (sel_w a) (sel_e a) (timeout_ms * 1000) s
               in if retv = SOCKET_ERROR then Some s
                  else dispatch_all fuel os mp fds (select_socks a) s)))"

lemma ready_card: "distinct ks \<Longrightarrow> (\<Sum>k\<leftarrow>ks. ready_bit k fds) = int (card (set ks \<inter> set fds))"
  by (induction ks) (auto simp: ready_bit_def card_insert_if)

lemma ready_bits_sum:
  "ready_bits (r, w, e) ks = (\<Sum>k\<leftarrow>ks. ready_bit k r) + (\<Sum>k\<leftarrow>ks. ready_bit k w) + (\<Sum>k\<leftarrow>ks. ready_bit k e)"
  by (induction ks) simp_all

lemma ready_bits_bound:
  assumes "distinct ks"
  shows "ready_bits (r, w, e) ks \<le> int (length r + length w + length e)"
proof -
  have "(\<Sum>k\<leftarrow>ks. ready_bit k fds) \<le> int (length fds)" for fds
    using card_mono [of "set fds" "set ks \<inter> set fds"] card_length [of fds] by (simp add: ready_card [OF assms])
  from this [of r] this [of w] this [of e] show ?thesis by (simp add: ready_bits_sum)
qed

lemma v_ready_cong:
  assumes "objs s' = objs s"
  shows "v_readable p s' = v_readable p s" "v_writable p s' = v_writable p s"
  using assms
  by (simp_all add: v_readable_def v_writable_def SocketHandler_readable_def SocketHandler_writable_def
      VirusHandler_readable_def VirusHandler_writable_def BaseSocket_readable_def BaseSocket_writable_def
      BaseSocket_socket_def split: sock_class.split)

lemma want_socks:
  "select_socks (fst (want_read k b x)) = select_socks (fst x)"
  "select_socks (fst (want_write k b x)) = select_socks (fst x)"
  "select_socks (fst (want_expt k b x)) = select_socks (fst x) @ (if b then [k] else [])"
  by (simp_all add: want_read_def want_write_def want_expt_def raise_max_def case_prod_beta Let_def)

lemma select_args_socks:
  "select_socks (fst (select_args m x)) =
    select_socks (fst x) @ map fst (filter (\<lambda>(k, p). v_readable p (snd x) \<or> v_writable p (snd x)) m)"
proof (induction m arbitrary: x)
  case (Cons e m)
  obtain k p a s where x: "e = (k, p)" "x = (a, s)" by (metis prod.exhaust)
  let ?y = "want_expt k (v_readable p s \<or> v_writable p s)
      (want_write k (v_writable p s \<and> \<not> BaseSocket_is_accepting p (touch p s)) (want_read k (v_readable p s) (a, touch p s)))"
  have "objs (snd ?y) = objs s"
    using world_of_sys(1) [of "snd ?y" s] by (simp add: want_frame)
  note y = v_ready_cong [OF this] and t = v_ready_cong [of "touch p s" s, simplified]
  from Cons.IH [of ?y] show ?case
    by (simp add: x Let_def want_socks t y)
qed simp

lemma do_select_all_eq:
  assumes "reg_ok s"
  shows "do_select fuel os t mp s = do_select_all fuel os t mp s"
proof -
  define x0 where "x0 = (\<lparr>sel_r = [], sel_w = [], sel_e = [], select_socks = [], max_fd = 0\<rparr>, s)"
  obtain a s1 where sel: "select_args (maps s mp) x0 = (a, s1)" by (metis prod.exhaust)
  obtain n r w e s2 where se: "sys_select os (max_fd a + 1) (sel_r a) (sel_w a) (sel_e a) (t * 1000) s1 =
      (n, (r, w, e), s2)"
    by (metis prod.exhaust)
  have "distinct (map fst (maps s mp))"
    using assms ss_map.entries_distinct by (auto simp: reg_ok_def)
  then have d: "distinct (select_socks a)"
    using select_args_socks [of "maps s mp" x0] sel by (simp add: x0_def distinct_map_filter)
  have n: "n = -1 \<or> n = int (length r + length w + length e)"
    using se by (auto simp: sys_select_def Let_def split: sum.splits prod.splits)
  then have budget: "n \<noteq> -1 \<Longrightarrow> ready_bits (r, w, e) (select_socks a) \<le> n"
    using ready_bits_bound [OF d, of r w e] by auto
  then have zero: "n = 0 \<Longrightarrow> dispatch_all fuel os mp (r, w, e) (select_socks a) s2 = Some s2"
    using dispatch_idle [of r w e "select_socks a" fuel os mp 0 s2] by simp
  show ?thesis
    using sel se dispatch_budget [OF budget] zero
    by (auto simp: do_select_def do_select_all_def x0_def [symmetric] SOCKET_ERROR_def)
qed

text \<open>
  C7. One round of the event loop serves every descriptor \<open>select\<close> reported: the running count
  of events never ends the dispatch early, so \<open>do_select\<close> computes what the loop without the
  count computes.
\<close>

theorem do_select_serves_all:
  assumes "reg_ok s"
  shows "do_select fuel os t mp s = do_select_all fuel os t mp s"
  by (rule do_select_all_eq [OF assms])

subsection \<open>Starting the server\<close>

definition start_world :: world where
  "start_world = \<lparr>trace = [], errno = E_OK, ub = [], files = (\<lambda>_. None), streams = (\<lambda>_. None),
     next_fp = 0, caches = (\<lambda>_. None), next_cache = 0, objs = (\<lambda>_. blank_obj Cls_BaseSocket),
     next_obj = 0, maps = (\<lambda>_. [])\<rparr>"

lemma reg_ok_start: "reg_ok start_world"
  by (simp add: reg_ok_def start_world_def)

lemma reg_ok_create_socket:
  assumes "reg_ok s" "\<not> registered p s" "p < next_obj s" "o_alive (objs s p)" "o_handlers (objs s p) = Some mp"
  shows "reg_ok (snd (BaseSocket_create_socket os p AF_INET SOCK_STREAM s))"
proof -
  let ?s1 = "upd_obj p (\<lambda>x. x\<lparr>o_family_type := (AF_INET, SOCK_STREAM)\<rparr>) s"
  obtain k s2 where tcp: "cp_socket_tcp os AF_INET SOCK_STREAM IPPROTO_TCP ?s1 = (k, s2)" by (metis prod.exhaust)
  let ?s3 = "upd_obj p (\<lambda>x. x\<lparr>o_sock := k\<rparr>) s2"
  let ?s4 = "snd (cp_setblocking os k False ?s3)"
  note f2 = world_of_sys [of s2 ?s1, OF sys_frame(2) [of os AF_INET SOCK_STREAM IPPROTO_TCP ?s1, unfolded tcp snd_conv]]
  note f4 = world_of_sys [OF sys_frame(1), of os k False ?s3]
  have "reg_ok s2" using reg_ok_upd_free [OF assms(1,2)] reg_ok_cong [of s2 ?s1] f2 by simp
  moreover have "\<not> registered p s2" using assms(2) f2 by (simp add: registered_def)
  ultimately have r3: "reg_ok ?s3" by (rule reg_ok_upd_free)
  then have r4: "reg_ok ?s4" using reg_ok_setblocking by simp
  have nr: "\<not> registered p ?s4" using assms(2) f2 f4 by (simp add: registered_def)
  show ?thesis
    using r3 BaseSocket_set_socket_new(1) [OF r4 nr, of mp k] assms(3-5) tcp f2 f4
    by (auto simp: BaseSocket_create_socket_def Let_def case_prod_beta)
qed

lemma reg_ok_bind: "reg_ok s \<Longrightarrow> reg_ok (snd (BaseSocket_bind os p a af s))"
  by (simp add: BaseSocket_bind_def Let_def reg_ok_sys [OF sys_frame(5)] reg_ok_upd)

lemma reg_ok_listen: "reg_ok s \<Longrightarrow> reg_ok (snd (BaseSocket_listen os p n s))"
  by (simp add: BaseSocket_listen_def Let_def reg_ok_sys [OF sys_frame(4)] reg_ok_upd)

lemma reg_ok_TCPServer_ctor:
  assumes "reg_ok s"
  shows "reg_ok (snd (TCPServer_ctor os host port q s))"
proof -
  define mp where "mp = (case q of None \<Rightarrow> g_handlers | Some mp \<Rightarrow> mp)"
  let ?p = "next_obj s" and ?s1 = "snd (new_obj Cls_TCPServerImpl s)"
  let ?s2 = "BaseSocket_ctor os ?p INVALID_SOCKET (Some mp) ?s1"
  have "o_alive (objs ?s1 ?p)" "\<not> cp_socket_valid INVALID_SOCKET" "?p < next_obj ?s1"
    by (simp_all add: new_obj_def cp_socket_valid_def)
  note c = BaseSocket_ctor_invalid [OF reg_ok_new_obj [OF assms] this(1,2), of os mp]
  have "reg_ok (snd (BaseSocket_create_socket os ?p AF_INET SOCK_STREAM ?s2))"
    using c \<open>?p < next_obj ?s1\<close> by (intro reg_ok_create_socket) simp_all
  then show ?thesis
    by (simp add: TCPServer_ctor_def TCPServerImpl_ctor_def BaseSocket_set_reuse_addr_def Let_def
        case_prod_beta reg_ok_bind reg_ok_listen new_obj_def flip: mp_def)
qed

text \<open>The states the server goes through: its construction, then rounds of the event loop.\<close>

inductive server_reach :: "nat \<Rightarrow> os \<Rightarrow> string option \<Rightarrow> u16 \<Rightarrow> nat \<Rightarrow> int \<Rightarrow> world \<Rightarrow> bool"
  for fuel os host port mp timeout_ms
where
  start: "server_reach fuel os host port mp timeout_ms (snd (TCPServer_ctor os host port (Some mp) start_world))"
| round: "server_reach fuel os host port mp timeout_ms s \<Longrightarrow> do_select fuel os timeout_ms mp s = Some s' \<Longrightarrow>
    server_reach fuel os host port mp timeout_ms s'"

lemma create_socket_tcp:
  assumes reg: "reg_ok s" and p: "\<not> registered p s" "p < next_obj s" "o_alive (objs s p)"
      "o_handlers (objs s p) = Some mp"
    and k: "os_socket os (trace s) AF_INET SOCK_STREAM IPPROTO_TCP = Inr k" "cp_socket_valid k"
  defines "s' \<equiv> snd (BaseSocket_create_socket os p AF_INET SOCK_STREAM s)"
  shows "map_find j (maps s' m) = (if m = mp \<and> j = k then Some p else map_find j (maps s m))"
    "objs s' p = (objs s p)\<lparr>o_family_type := (AF_INET, SOCK_STREAM), o_sock := k\<rparr>" "next_obj s' = next_obj s"
    "\<exists>fl r. trace s' = trace s @ [Ev_socket AF_INET SOCK_STREAM IPPROTO_TCP k, Ev_getfl k fl,
        Ev_setfl k (fl OR O_NONBLOCK) r]"
proof -
  let ?s1 = "upd_obj p (\<lambda>x. x\<lparr>o_family_type := (AF_INET, SOCK_STREAM)\<rparr>) s"
  define s2 where "s2 = emit (Ev_socket AF_INET SOCK_STREAM IPPROTO_TCP k) ?s1"
  define s3 where "s3 = upd_obj p (\<lambda>x. x\<lparr>o_sock := k\<rparr>) s2"
  obtain fl r e where s4: "snd (cp_setblocking os k False s3) =
      s3\<lparr>trace := trace s3 @ [Ev_getfl k fl, Ev_setfl k (fl OR O_NONBLOCK) r], errno := e\<rparr>"
    by (rule cp_setblocking_state [of os k False s3]) simp
  define s4 where "s4 = s3\<lparr>trace := trace s3 @ [Ev_getfl k fl, Ev_setfl k (fl OR O_NONBLOCK) r], errno := e\<rparr>"
  have tcp: "cp_socket_tcp os AF_INET SOCK_STREAM IPPROTO_TCP ?s1 = (k, s2)"
    using k(1) by (simp add: cp_socket_tcp_def cp_socket_def sys_socket_def s2_def)
  have o: "objs s4 p = (objs s p)\<lparr>o_family_type := (AF_INET, SOCK_STREAM), o_sock := k\<rparr>" "maps s4 = maps s"
    "next_obj s4 = next_obj s"
    "trace s4 = trace s @ [Ev_socket AF_INET SOCK_STREAM IPPROTO_TCP k, Ev_getfl k fl, Ev_setfl k (fl OR O_NONBLOCK) r]"
    by (simp_all add: s4_def s3_def s2_def)
  have nr: "\<not> registered p s2" "\<not> registered p s4" using p(1) by (simp_all add: registered_def o(2) s2_def)
  have "reg_ok s2" using reg_ok_upd_free [OF reg p(1)] reg_ok_cong [of s2 ?s1] by (simp add: s2_def)
  then have "reg_ok s4"
    using reg_ok_upd_free [OF _ nr(1)] reg_ok_cong [of s4 s3] by (simp add: s3_def s4_def)
  note set = BaseSocket_set_socket_new [OF this nr(2), of mp k, unfolded o]
  have s': "s' = BaseSocket_set_socket p k (Some mp) s4"
    using tcp s4 k(2) p(4) o(1)
    by (simp add: s'_def BaseSocket_create_socket_def Let_def case_prod_beta s3_def [symmetric] s4_def [symmetric])
      (simp add: s3_def s2_def)
  show "map_find j (maps s' m) = (if m = mp \<and> j = k then Some p else map_find j (maps s m))"
    "objs s' p = (objs s p)\<lparr>o_family_type := (AF_INET, SOCK_STREAM), o_sock := k\<rparr>" "next_obj s' = next_obj s"
    "\<exists>fl r. trace s' = trace s @ [Ev_socket AF_INET SOCK_STREAM IPPROTO_TCP k, Ev_getfl k fl,
        Ev_setfl k (fl OR O_NONBLOCK) r]"
    using set p k(2) by (auto simp: s')
qed

lemma BaseSocket_bind_effect:
  assumes "o_alive (objs s p)" "pton_ok os" "host_addr os (host_ptr a) = Some x"
  obtains r where "trace (snd (BaseSocket_bind os p a af s)) =
      trace s @ [Ev_bind (o_sock (objs s p)) \<lparr>sin_family = af, sin_port = htons (snd a), s_addr = x\<rparr> r]"
    "maps (snd (BaseSocket_bind os p a af s)) = maps s"
    "objs (snd (BaseSocket_bind os p a af s)) p = (objs s p)\<lparr>o_addr := a\<rparr>"
  using assms
  by (cases "os_bind os (trace s) (o_sock (objs s p)) \<lparr>sin_family = af, sin_port = htons (snd a), s_addr = x\<rparr>")
    (auto simp: BaseSocket_bind_def Let_def cp_bind_host sys_bind_def)

lemma BaseSocket_listen_effect:
  assumes "o_alive (objs s p)"
  obtains r where "trace (snd (BaseSocket_listen os p n s)) = trace s @ [Ev_listen (o_sock (objs s p)) n r]"
    "maps (snd (BaseSocket_listen os p n s)) = maps s"
    "objs (snd (BaseSocket_listen os p n s)) p = (objs s p)\<lparr>o_accepting := True\<rparr>"
  using assms
  by (cases "os_listen os (trace s) (o_sock (objs s p)) n")
    (auto simp: BaseSocket_listen_def Let_def cp_listen_def sys_listen_def)

lemma TCPServer_ctor_effect:
  fixes host :: "string option" and port :: u16
  assumes "reg_ok s" "os_socket os (trace s) AF_INET SOCK_STREAM IPPROTO_TCP = Inr k" "cp_socket_valid k"
    and "pton_ok os" "host_addr os (host_ptr (case host of None \<Rightarrow> '''' | Some h \<Rightarrow> h, port)) = Some x"
  shows "\<exists>srv s' fl r r1 r2. TCPServer_ctor os host port (Some mp) s = (srv, s')
    \<and> p_impl_sock srv = k \<and> map_find k (maps s' mp) = Some (p_impl srv) \<and> o_accepting (objs s' (p_impl srv))
    \<and> trace s' = trace s @ [Ev_socket AF_INET SOCK_STREAM IPPROTO_TCP k, Ev_getfl k fl,
        Ev_setfl k (fl OR O_NONBLOCK) r, Ev_bind k \<lparr>sin_family = AF_INET, sin_port = htons port, s_addr = x\<rparr> r1,
        Ev_listen k 5 r2]"
proof -
  let ?p = "next_obj s" and ?s1 = "snd (new_obj Cls_TCPServerImpl s)"
  define s2 where "s2 = BaseSocket_ctor os ?p INVALID_SOCKET (Some mp) ?s1"
  have new: "o_alive (objs ?s1 ?p)" "\<not> cp_socket_valid INVALID_SOCKET" "next_obj ?s1 = Suc ?p"
    by (simp_all add: new_obj_def cp_socket_valid_def)
  note c = BaseSocket_ctor_invalid [OF reg_ok_new_obj [OF assms(1)] new(1,2), of os mp, folded s2_def]
  have tr: "trace s2 = trace s" using new(2) by (simp add: s2_def BaseSocket_ctor_def new_obj_def)
  define s3 where "s3 = snd (BaseSocket_create_socket os ?p AF_INET SOCK_STREAM s2)"
  have lt: "?p < next_obj s2" using c(3) new(3) by simp
  note cs = create_socket_tcp [OF c(1,6) lt c(4,5), of os k, unfolded tr, OF assms(2,3), folded s3_def]
  have al: "o_alive (objs s3 ?p)" "o_sock (objs s3 ?p) = k" using cs(2) c(4) by simp_all
  define s4 where "s4 = snd (BaseSocket_bind os ?p (case host of None \<Rightarrow> '''' | Some h \<Rightarrow> h, port) AF_INET s3)"
  obtain r1 where s4: "trace s4 = trace s3 @ [Ev_bind k \<lparr>sin_family = AF_INET, sin_port = htons port, s_addr = x\<rparr> r1]"
    "maps s4 = maps s3" "o_alive (objs s4 ?p)" "o_sock (objs s4 ?p) = k"
    by (rule BaseSocket_bind_effect [OF al(1) assms(4,5), of AF_INET]) (auto simp: s4_def al intro: that)
  define s5 where "s5 = snd (BaseSocket_listen os ?p 5 s4)"
  obtain r2 where s5: "trace s5 = trace s4 @ [Ev_listen k 5 r2]" "maps s5 = maps s4" "o_alive (objs s5 ?p)"
    "o_sock (objs s5 ?p) = k" "o_accepting (objs s5 ?p)"
    by (rule BaseSocket_listen_effect [OF s4(3), of os 5]) (auto simp: s5_def s4 intro: that)
  have "TCPServer_ctor os host port (Some mp) s = (\<lparr>p_impl_sock = k, p_impl = ?p, srv_handlers = mp\<rparr>, s5)"
    using s5(3,4)
    by (simp add: TCPServer_ctor_def TCPServerImpl_ctor_def Let_def case_prod_beta BaseSocket_set_reuse_addr_def
        BaseSocket_socket_def s5_def s4_def s3_def s2_def new_obj_def)
  with cs(1) [of k mp] cs(4) s4(1,2) s5 show ?thesis by auto
qed

text \<open>
  C13. Constructing a server whose host can be read: the new object listens on a non-blocking
  TCP socket bound to the host (any interface for a null or empty host) and the port, and is
  registered under that socket, marked as accepting.
\<close>

theorem TCPServer_ctor_listens:
  fixes host :: "string option" and port :: u16
  assumes "reg_ok s" "os_socket os (trace s) AF_INET SOCK_STREAM IPPROTO_TCP = Inr k" "cp_socket_valid k"
    and "pton_ok os" "host_addr os (host_ptr (case host of None \<Rightarrow> '''' | Some h \<Rightarrow> h, port)) = Some x"
  shows "\<exists>srv s' fl r r1 r2. TCPServer_ctor os host port (Some mp) s = (srv, s')
    \<and> p_impl_sock srv = k \<and> map_find k (maps s' mp) = Some (p_impl srv) \<and> o_accepting (objs s' (p_impl srv))
    \<and> trace s' = trace s @ [Ev_socket AF_INET SOCK_STREAM IPPROTO_TCP k, Ev_getfl k fl,
        Ev_setfl k (fl OR O_NONBLOCK) r, Ev_bind k \<lparr>sin_family = AF_INET, sin_port = htons port, s_addr = x\<rparr> r1,
        Ev_listen k 5 r2]"
  by (rule TCPServer_ctor_effect [OF assms])

lemma good_os_server:
  "reg_ok start_world" "os_socket good_os (trace start_world) AF_INET SOCK_STREAM IPPROTO_TCP = Inr 3"
  "cp_socket_valid 3" "pton_ok good_os"
  "host_addr good_os (host_ptr (case None of None \<Rightarrow> '''' | Some h \<Rightarrow> h, 7890)) = Some INADDR_ANY"
  by (simp_all add: reg_ok_start good_os_def cp_socket_valid_def INVALID_SOCKET_def pton_ok_def
      host_addr_def host_ptr_def)

theorem TCPServer_ctor_listens_witness:
  "\<exists>srv s'. TCPServer_ctor good_os None 7890 (Some 1) start_world = (srv, s')
    \<and> p_impl_sock srv = 3 \<and> map_find 3 (maps s' 1) = Some (p_impl srv)"
  using TCPServer_ctor_listens [OF good_os_server, of 1] by blast

text \<open>
  C5. In every state the server reaches, whatever the clients, the network and the disk do, each
  entry of the handler map points to a live object that is registered under its own valid
  socket and in its own map, and no object has two owners.
\<close>

theorem server_registry_invariant:
  assumes "server_reach fuel os host port mp timeout_ms s" "map_find k (maps s m) = Some p"
  shows "o_alive (objs s p) \<and> o_sock (objs s p) = k \<and> o_handlers (objs s p) = Some m \<and> cp_socket_valid k
    \<and> (\<forall>k' m'. map_find k' (maps s m') = Some p \<longrightarrow> k' = k \<and> m' = m)"
proof -
  have "reg_ok s"
    using assms(1)
    by induction (simp_all add: reg_ok_TCPServer_ctor reg_ok_start reg_ok_do_select)
  with reg_ok_unique [OF this assms(2)] assms(2) show ?thesis
    unfolding reg_ok_def reg_entry_def by blast
qed

theorem server_registry_invariant_witness:
  "\<exists>p. o_alive (objs (snd (TCPServer_ctor good_os None 7890 (Some 1) start_world)) p)"
proof -
  obtain p where "map_find 3 (maps (snd (TCPServer_ctor good_os None 7890 (Some 1) start_world)) 1) = Some p"
    using TCPServer_ctor_effect [OF good_os_server, of 1] by force
  from server_registry_invariant [OF server_reach.start this] show ?thesis by blast
qed

theorem do_select_serves_all_witness:
  "do_select 1 good_os 1000 1 (snd (TCPServer_ctor good_os None 7890 (Some 1) start_world)) =
    do_select_all 1 good_os 1000 1 (snd (TCPServer_ctor good_os None 7890 (Some 1) start_world))"
  by (rule do_select_serves_all [OF reg_ok_TCPServer_ctor [OF reg_ok_start]])

end
