(* ===== verification/Client_Service.thy ===== *)
theory Client_Service
  imports Event_Dispatch
begin

text \<open>
  The service a client gets: a connection is accepted into a fresh handler, the requests it
  sends are answered in order, and its end closes the handler. The theorems compose the
  session, the handler and the event methods.
\<close>

subsection \<open>Serving one client\<close>

text \<open>
  The events the loop raises on one client, each with the environment it meets: a read event
  in which \<open>recv\<close> delivers a buffer, and a write event, raised only when there is a response
  to send.
\<close>

datatype io_event = Recv os "byte list" | Flush os

fun serve :: "nat \<Rightarrow> nat \<Rightarrow> io_event list \<Rightarrow> world \<Rightarrow> world option" where
  "serve fuel p [] s = Some s"
| "serve fuel p (Recv os d # es) s =
     (case handle_read_event fuel os p s of None \<Rightarrow> None | Some s \<Rightarrow> serve fuel p es s)"
| "serve fuel p (Flush os # es) s =
     (if v_writable p s
      then (case handle_write_event fuel os p s of None \<Rightarrow> None | Some s \<Rightarrow> serve fuel p es s)
      else serve fuel p es s)"

fun received :: "io_event list \<Rightarrow> byte list list" where
  "received [] = []"
| "received (Recv os d # es) = d # received es"
| "received (Flush os # es) = received es"

fun io_ok :: "cp_socket_t \<Rightarrow> io_event \<Rightarrow> bool" where
  "io_ok k (Recv os d) =
     (delivers os k d \<and> d \<noteq> [] \<and> length d \<le> 65535 \<and> disk_ok os \<and> alloc_ok os)"
| "io_ok k (Flush os) = send_ok os k"

definition answers :: "(u32 \<times> byte list) list \<Rightarrow> byte list list" where
  "answers ms = map (\<lambda>(i, body). response_wire i OK) ms"

definition client_ok :: "nat \<Rightarrow> cp_socket_t \<Rightarrow> rx \<Rightarrow> world \<Rightarrow> bool" where
  "client_ok p k a s =
     (o_alive (objs s p) \<and> o_class (objs s p) = Cls_VirusHandler \<and> o_connected (objs s p) \<and>
      \<not> o_accepting (objs s p) \<and> o_sock (objs s p) = k \<and> rx_sim (req (o_session (objs s p))) s a \<and>
      heap_wf s \<and> session_ok (o_session (objs s p)) s)"

lemma client_read_event:
  assumes "client_ok p k a s"
  shows "handle_read_event fuel os p s =
    VirusHandler_handle_read fuel os v_handle_close v_handle_expt p s"
  using assms
  by (simp add: client_ok_def handle_read_event_def BaseSocket_handle_read_event_def v_handle_read_def)

lemma client_write_event:
  assumes "client_ok p k a s"
  shows "handle_write_event fuel os p s = VirusHandler_handle_write fuel os v_handle_close p s"
    "v_writable p s = (resp (o_session (objs s p)) \<noteq> [])"
  using assms
  by (simp_all add: client_ok_def handle_write_event_def BaseSocket_handle_write_event_def v_handle_write_def
      v_writable_def VirusHandler_writable_def)

text \<open>
  A read event in which \<open>recv\<close> returns the bytes \<open>d\<close>: what the read loop does to the session, and
  what that means for the client.
\<close>

lemma client_recv_at:
  assumes c: "client_ok p k a s" and parse: "rx_parse a d = Some (ms, b)" and fuel: "65535 < fuel"
    and d: "os_recv os (trace s) k 65535 0 = Inr d" "d \<noteq> []" "length d \<le> 65535"
    and env: "disk_ok os" "alloc_ok os"
  defines "s1 \<equiv> s\<lparr>trace := trace s @ [Ev_recv k 65535 0 (Some d)]\<rparr>"
  obtains v' s2 s' where "VH_read_loop fuel os d (int (length d)) (o_session (objs s p)) s1 = Some (v', s2)"
    "s' = s2\<lparr>objs := (objs s)(p := (objs s p)\<lparr>o_session := v'\<rparr>)\<rparr>"
    "handle_read_event fuel os p s = Some s'" "client_ok p k b s'" "ub s' = ub s"
    "wires (o_session (objs s' p)) s' = wires (o_session (objs s p)) s @ answers ms"
    "maps s' = maps s" "next_obj s' = next_obj s"
proof -
  let ?v = "o_session (objs s p)"
  have f1: "objs s1 = objs s" "ub s1 = ub s" "maps s1 = maps s" "next_obj s1 = next_obj s" by (simp_all add: s1_def)
  have cg: "rx_sim (req ?v) s1 a" "heap_wf s1" "session_ok ?v s1" "wires ?v s1 = wires ?v s"
    using c rx_sim_cong [of s1 s] by (simp_all add: client_ok_def s1_def heap_wf_def)
  have len: "length d < 2 ^ 31" "length d < fuel" using d fuel by simp_all
  obtain v' s2 where run: "VH_read_loop fuel os d (int (length d)) ?v s1 = Some (v', s2)"
    and r: "rx_sim (req v') s2 b" "heap_wf s2" "session_ok v' s2" "ub s2 = ub s1"
      "wires v' s2 = wires ?v s1 @ answers ms"
    using VH_read_loop_refines [OF parse cg(1) env cg(2,3) len d(2)] unfolding answers_def by blast
  note fr = world_of_cstate [OF VH_read_loop_frame [OF run]]
  define s' where "s' = s2\<lparr>objs := (objs s)(p := (objs s p)\<lparr>o_session := v'\<rparr>)\<rparr>"
  have s': "s' = upd_obj p (\<lambda>x. x\<lparr>o_session := v'\<rparr>) s2"
    using c fr f1 by (simp add: s'_def upd_obj_def touch_def client_ok_def)
  have "BaseSocket_recv os v_handle_close v_handle_expt p 65535 s = (int (length d), d, s1)"
    using BaseSocket_recv_data [of os s p d] c d by (simp add: client_ok_def s1_def)
  then have "handle_read_event fuel os p s = Some s'"
    using c d(2) run f1
    by (simp add: client_read_event [OF c] VirusHandler_handle_read_def VH_received_def SOCKET_ERROR_def
        client_ok_def s')
  moreover have eq: "rx_sim (req v') s' b" "heap_wf s'" "session_ok v' s'" "wires v' s' = wires v' s2"
    "ub s' = ub s2" "o_session (objs s' p) = v'" "maps s' = maps s" "next_obj s' = next_obj s"
    using r rx_sim_cong [of s' s2] f1 fr by (simp_all add: s'_def heap_wf_def)
  moreover have "client_ok p k b s'" using c eq by (simp add: client_ok_def) (simp add: s'_def)
  ultimately show ?thesis
    using that [OF run s'_def] r(4,5) cg(4) f1(2) by simp
qed

lemma client_recv:
  assumes c: "client_ok p k a s" and e: "io_ok k (Recv os d)" and parse: "rx_parse a d = Some (ms, b)"
    and fuel: "65535 < fuel"
  shows "\<exists>s'. handle_read_event fuel os p s = Some s' \<and> client_ok p k b s' \<and> ub s' = ub s
    \<and> wires (o_session (objs s' p)) s' = wires (o_session (objs s p)) s @ answers ms
    \<and> sent_on k (trace s') = sent_on k (trace s)"
proof -
  have d: "os_recv os (trace s) k 65535 0 = Inr d" "d \<noteq> []" "length d \<le> 65535" "disk_ok os" "alloc_ok os"
    using e by (simp_all add: delivers_def)
  obtain v' s2 s' where run: "VH_read_loop fuel os d (int (length d)) (o_session (objs s p))
      (s\<lparr>trace := trace s @ [Ev_recv k 65535 0 (Some d)]\<rparr>) = Some (v', s2)"
    and s': "s' = s2\<lparr>objs := (objs s)(p := (objs s p)\<lparr>o_session := v'\<rparr>)\<rparr>"
      "handle_read_event fuel os p s = Some s'" "client_ok p k b s'" "ub s' = ub s"
      "wires (o_session (objs s' p)) s' = wires (o_session (objs s p)) s @ answers ms"
    by (rule client_recv_at [OF c parse fuel d])
  then show ?thesis using VH_read_loop_sends_nothing [OF run, of k] by simp
qed

lemma length_response_wire: "length (response_wire i st) = 12"
  by (simp add: response_wire_def)

lemma length_answers: "length (concat (answers ms)) = 12 * length ms"
  by (induction ms) (auto simp: answers_def length_response_wire)

lemma rx_sim_frame:
  assumes "\<And>q. file_invar q s \<Longrightarrow> caches s' q = caches s q" "files s' = files s" "streams s' = streams s"
    and "rx_sim r s a"
  shows "rx_sim r s' a"
proof (cases a)
  case (Rx_body i n got)
  have "file_invar q s' \<and> cache_cap q s' = cache_cap q s \<and> cache_content q s' = cache_content q s"
    if "file_invar q s" for q
    using that assms(1) [OF that] assms(2,3)
    by (auto simp: file_invar_def file_ok_def cache_cap_def cache_content_def split: option.splits)
  then show ?thesis using assms(4) Rx_body by (auto simp: hv_reading_def split: option.splits)
qed (use assms(4) in simp)

lemma client_flush_at:
  assumes c: "client_ok p k a s" and e: "io_ok k (Flush os)"
    and fuel: "length (concat (wires (o_session (objs s p)) s)) < fuel"
  obtains h C s' where "s' = s\<lparr>trace := h, caches := C,
      objs := (objs s)(p := (objs s p)\<lparr>o_session := (o_session (objs s p))\<lparr>resp := []\<rparr>\<rparr>)\<rparr>"
    "handle_write_event fuel os p s = Some s'" "client_ok p k a s'"
    "sent_on k h = sent_on k (trace s) @ concat (wires (o_session (objs s p)) s)"
    "\<And>q. Some q \<notin> hv_value ` set (resp (o_session (objs s p))) \<Longrightarrow> C q = caches s q"
    "\<And>q. Some q \<in> hv_value ` set (resp (o_session (objs s p))) \<Longrightarrow> C q = None"
    "only_sends k (trace s) h"
proof -
  let ?v = "o_session (objs s p)"
  obtain h C where run: "VirusHandler_handle_write fuel os v_handle_close p s =
      Some (s\<lparr>trace := h, caches := C, objs := (objs s)(p := (objs s p)\<lparr>o_session := ?v\<lparr>resp := []\<rparr>\<rparr>)\<rparr>)"
    and h: "sent_on k h = sent_on k (trace s) @ concat (wires ?v s)"
    and C: "\<forall>q. Some q \<notin> hv_value ` set (resp ?v) \<longrightarrow> C q = caches s q"
      "\<forall>q. Some q \<in> hv_value ` set (resp ?v) \<longrightarrow> C q = None" "only_sends k (trace s) h"
    using VirusHandler_handle_write_ok [of s p os fuel v_handle_close] c e fuel by (auto simp: client_ok_def)
  define s' where "s' = s\<lparr>trace := h, caches := C, objs := (objs s)(p := (objs s p)\<lparr>o_session := ?v\<lparr>resp := []\<rparr>\<rparr>)\<rparr>"
  have s': "o_session (objs s' p) = ?v\<lparr>resp := []\<rparr>" "files s' = files s" "streams s' = streams s"
    "caches s' = C" "next_cache s' = next_cache s" "next_fp s' = next_fp s" by (simp_all add: s'_def)
  have mem: "mem_invar q s" if q: "Some q \<in> hv_value ` set (resp ?v)" for q
    using q c by (auto simp: client_ok_def session_ok_def resp_ok_def split: option.splits)
  have same: "C q = caches s q" if "\<not> mem_invar q s" for q
    using that mem C by blast
  have "rx_sim (req ?v) s' a"
    using c rx_sim_frame [of s s' "req ?v" a] same mem_file_disjoint s' by (fastforce simp: client_ok_def)
  moreover have "heap_wf s'"
    using c same by (auto simp: client_ok_def heap_wf_def s' mem_invar_def)
  moreover have "session_ok (?v\<lparr>resp := []\<rparr>) s'" by (simp add: session_ok_def)
  ultimately have "client_ok p k a s'" using c s' by (simp add: client_ok_def) (simp add: s'_def)
  moreover have "handle_write_event fuel os p s = Some s'"
    using run by (simp add: client_write_event [OF c] s'_def)
  ultimately show ?thesis using that [OF s'_def] h C by simp
qed

lemma client_flush:
  assumes c: "client_ok p k a s" and e: "io_ok k (Flush os)"
    and fuel: "length (concat (wires (o_session (objs s p)) s)) < fuel"
  shows "\<exists>s'. handle_write_event fuel os p s = Some s' \<and> client_ok p k a s' \<and> ub s' = ub s
    \<and> resp (o_session (objs s' p)) = []
    \<and> sent_on k (trace s') = sent_on k (trace s) @ concat (wires (o_session (objs s p)) s)"
  by (rule client_flush_at [OF assms]) auto


text \<open>
  Whatever the order of the events, the client has been sent the answers to its requests in
  order, up to the ones still queued.
\<close>

lemma serve_flush:
  assumes ok: "client_ok p k a s" "io_ok k (Flush os)" and pend: "wires (o_session (objs s p)) s = answers pend"
    and fuel: "12 * length pend < fuel"
  obtains s1 where "serve fuel p (Flush os # es) s = serve fuel p es s1" "client_ok p k a s1" "ub s1 = ub s"
    "resp (o_session (objs s1 p)) = []" "sent_on k (trace s1) = sent_on k (trace s) @ concat (answers pend)"
proof (cases "resp (o_session (objs s p)) = []")
  case True
  then have "pend = []" using pend by (simp add: wires_def answers_def)
  with True ok(1) show ?thesis
    by (intro that [of s]) (simp_all add: client_write_event [OF ok(1)] answers_def)
next
  case False
  have "length (concat (wires (o_session (objs s p)) s)) < fuel" using pend fuel by (simp add: length_answers)
  from client_flush [OF ok this] pend False show ?thesis
    by (auto simp: client_write_event [OF ok(1)] intro: that)
qed

lemma serve_answers_from:
  assumes "client_ok p k a s" "\<forall>e \<in> set es. io_ok k e" "rx_run a (received es) = Some (ms, b)"
    and "wires (o_session (objs s p)) s = answers pend"
    and "65535 < fuel" "12 * (length pend + length ms) < fuel"
  shows "\<exists>s' n. serve fuel p es s = Some s' \<and> client_ok p k b s' \<and> ub s' = ub s
    \<and> sent_on k (trace s') = sent_on k (trace s) @ concat (answers (take n (pend @ ms)))
    \<and> wires (o_session (objs s' p)) s' = answers (drop n (pend @ ms))
    \<and> ((\<exists>es' os. es = es' @ [Flush os]) \<longrightarrow> resp (o_session (objs s' p)) = [])"
  using assms
proof (induction es arbitrary: a s ms pend)
  case Nil
  then show ?case by (intro exI [of _ s] exI [of _ 0]) (simp add: answers_def)
next
  case (Cons e es)
  show ?case
  proof (cases e)
    case (Recv os d)
    obtain m1 a1 m2 where ps: "rx_parse a d = Some (m1, a1)" "rx_run a1 (received es) = Some (m2, b)" "ms = m1 @ m2"
      using Cons.prems(3) Recv by (auto split: option.splits)
    obtain s1 where s1: "handle_read_event fuel os p s = Some s1" "client_ok p k a1 s1" "ub s1 = ub s"
      "wires (o_session (objs s1 p)) s1 = answers (pend @ m1)" "sent_on k (trace s1) = sent_on k (trace s)"
      using client_recv [OF Cons.prems(1) _ ps(1) Cons.prems(5), of os] Cons.prems(2,4) Recv by (auto simp: answers_def)
    have "12 * (length (pend @ m1) + length m2) < fuel" using Cons.prems(6) ps(3) by simp
    from Cons.IH [OF s1(2) _ ps(2) s1(4) Cons.prems(5) this] Cons.prems(2) s1 ps(3) show ?thesis
      by (auto simp: Recv Cons_eq_append_conv)
  next
    case (Flush os)
    have rest: "\<forall>e \<in> set es. io_ok k e" "io_ok k (Flush os)" "rx_run a (received es) = Some (ms, b)"
      using Cons.prems(2,3) Flush by simp_all
    obtain s1 where s1: "serve fuel p (Flush os # es) s = serve fuel p es s1" "client_ok p k a s1"
      "ub s1 = ub s" "resp (o_session (objs s1 p)) = []"
      "sent_on k (trace s1) = sent_on k (trace s) @ concat (answers pend)"
      by (rule serve_flush [OF Cons.prems(1) rest(2) Cons.prems(4), of fuel es]) (use Cons.prems(6) in simp_all)
    have w: "wires (o_session (objs s1 p)) s1 = answers []" by (simp add: wires_def answers_def s1(4))
    have "12 * (length ([] :: (u32 \<times> byte list) list) + length ms) < fuel" using Cons.prems(6) by simp
    from Cons.IH [OF s1(2) rest(1,3) w Cons.prems(5) this] obtain s' n where s': "serve fuel p es s1 = Some s'" "client_ok p k b s'" "ub s' = ub s1"
      "sent_on k (trace s') = sent_on k (trace s1) @ concat (answers (take n ms))"
      "wires (o_session (objs s' p)) s' = answers (drop n ms)"
      "(\<exists>es' os. es = es' @ [Flush os]) \<longrightarrow> resp (o_session (objs s' p)) = []"
      by auto
    have "resp (o_session (objs s' p)) = []" if "Flush os # es = es' @ [Flush os']" for es' os'
      using that s'(1,6) s1(4) by (cases es') auto
    with s' s1 show ?thesis
      by (intro exI [of _ s'] exI [of _ "length pend + n"]) (auto simp: Flush answers_def)
  qed
qed

subsection \<open>Accepting a client\<close>

text \<open>The calls that prepare an accepted socket.\<close>

fun setup_event :: "cp_socket_t \<Rightarrow> event \<Rightarrow> bool" where
  "setup_event k (Ev_getfl j fl) = (j = k)"
| "setup_event k (Ev_setfl j fl r) = (j = k)"
| "setup_event k (Ev_getpeername j r) = (j = k)"
| "setup_event k _ = False"

definition sets_up :: "cp_socket_t \<Rightarrow> history \<Rightarrow> bool" where
  "sets_up k g = (\<forall>e \<in> set g. setup_event k e)"

lemma sets_up_simps [simp]:
  "sets_up k []" "sets_up k (e # g) = (setup_event k e \<and> sets_up k g)"
  "sets_up k (g @ h) = (sets_up k g \<and> sets_up k h)"
  by (auto simp: sets_up_def)

lemma sets_up_sent: "sets_up k g \<Longrightarrow> sent_on j g = []"
proof (induction g)
  case (Cons e g)
  then show ?case by (cases e) simp_all
qed simp

text \<open>Construction on a connected socket that no entry holds yet.\<close>

definition peer_named :: "os \<Rightarrow> cp_socket_t \<Rightarrow> bool" where
  "peer_named os k =
     (\<forall>h. case os_getpeername os h k of
            Inl _ \<Rightarrow> False
          | Inr a \<Rightarrow> os_inet_ntop os (sin_family a) (s_addr a) 16 \<noteq> None)"

lemma getpeername_named:
  assumes "peer_named os k"
  obtains a host where "cp_getpeername os k b s = (0, a, s\<lparr>trace := trace s @ [Ev_getpeername k 0]\<rparr>)"
    "fst (cp_inet_ntop os (Some a) (Some c) 16) = Some host"
proof -
  have "case os_getpeername os (trace s) k of
      Inl _ \<Rightarrow> False | Inr a \<Rightarrow> os_inet_ntop os (sin_family a) (s_addr a) 16 \<noteq> None"
    using assms by (simp add: peer_named_def)
  then show ?thesis
    by (auto simp: cp_getpeername_def sys_getpeername_def cp_inet_ntop_def split: sum.splits intro: that)
qed

lemma BaseSocket_ctor_connected:
  assumes "o_alive (objs s p)" "cp_socket_valid k" "map_find k (maps s mp) = None" "peer_named os k"
  shows "\<exists>h a e. BaseSocket_ctor os p k (Some mp) s =
    s\<lparr>trace := trace s @ h, errno := e,
      objs := (objs s)(p := (objs s p)\<lparr>o_sock := k, o_handlers := Some mp, o_connected := True,
        o_connecting := False, o_accepting := False, o_closing := False, o_debug := True, o_addr := a\<rparr>),
      maps := (maps s)(mp := map_insert k p (maps s mp))\<rparr> \<and> sets_up k h"
proof -
  let ?f = "\<lambda>x. x\<lparr>o_sock := k, o_handlers := Some mp, o_connected := False, o_connecting := False,
      o_accepting := False, o_closing := False, o_debug := True\<rparr>"
  define s1 where "s1 = s\<lparr>objs := (objs s)(p := ?f (objs s p))\<rparr>"
  obtain g e where s2: "snd (cp_setblocking os k False s1) = s1\<lparr>trace := trace s @ g, errno := e\<rparr>" "sets_up k g"
    by (rule cp_setblocking_state [of os k False s1]) (simp add: s1_def)
  define s3 where "s3 = s1\<lparr>trace := trace s @ g, errno := e, maps := (maps s)(mp := map_insert k p (maps s mp)),
      objs := (objs s)(p := (?f (objs s p))\<lparr>o_connected := True\<rparr>)\<rparr>"
  obtain a host where peer: "cp_getpeername os k (stack_sockaddr os 0 0 s3) s3 = (0, a, s3\<lparr>trace := trace s3 @ [Ev_getpeername k 0]\<rparr>)"
    "fst (cp_inet_ntop os (Some a) (Some '''') 16) = Some host"
    by (rule getpeername_named [OF assms(4)])
  have add: "upd_obj p (\<lambda>x. x\<lparr>o_connected := True\<rparr>)
      (BaseSocket_set_socket p k (Some mp) (s1\<lparr>trace := trace s @ g, errno := e\<rparr>)) = s3"
    using assms(1,3)
    by (simp add: BaseSocket_set_socket_def BaseSocket_add_channel_def channel_erase_def upd_obj_def s1_def s3_def)
      (cases "objs s p"; simp)
  have up: "upd_obj p ?f s = s1" using assms(1) by (simp add: upd_obj_def s1_def)
  have "BaseSocket_ctor os p k (Some mp) s =
      upd_obj p (\<lambda>x. x\<lparr>o_addr := (host, ntohs (sin_port a))\<rparr>) (s3\<lparr>trace := trace s3 @ [Ev_getpeername k 0]\<rparr>)"
    using assms(2) s2(1) peer
    by (simp add: BaseSocket_ctor_def up Let_def case_prod_beta add) (simp add: s1_def)
  also have "\<dots> = s\<lparr>trace := trace s @ (g @ [Ev_getpeername k 0]), errno := e,
      objs := (objs s)(p := (objs s p)\<lparr>o_sock := k, o_handlers := Some mp, o_connected := True,
        o_connecting := False, o_accepting := False, o_closing := False, o_debug := True,
        o_addr := (host, ntohs (sin_port a))\<rparr>),
      maps := (maps s)(mp := map_insert k p (maps s mp))\<rparr>"
    using assms(1) by (simp add: upd_obj_def s3_def s1_def) (cases s; cases "objs s p"; simp)
  finally show ?thesis using s2(2) by (intro exI conjI) (assumption, simp)
qed

lemma rx_sim_new: "rx_sim (HV_uninit os s) t Rx_idle"
  by (simp add: HV_uninit_def HV_new_def)

lemma VirusHandler_ctor_client:
  assumes reg: "reg_ok s" and k: "cp_socket_valid k" "map_find k (maps s mp) = None" "peer_named os k"
    and wf: "heap_wf s"
  defines "p \<equiv> next_obj s"
  shows "\<exists>s'. VirusHandler_ctor os p k (Some mp) (snd (new_obj Cls_VirusHandler s)) = s'
    \<and> client_ok p k Rx_idle s' \<and> resp (o_session (objs s' p)) = [] \<and> ub s' = ub s
    \<and> (\<forall>j m. map_find j (maps s' m) = (if m = mp \<and> j = k then Some p else map_find j (maps s m)))
    \<and> (\<exists>g. trace s' = trace s @ g \<and> sets_up k g) \<and> (\<forall>q. q \<noteq> p \<longrightarrow> objs s' q = objs s q)
    \<and> caches s' = caches s \<and> files s' = files s \<and> streams s' = streams s \<and> next_obj s' = Suc p"
proof -
  define s1 where "s1 = snd (new_obj Cls_VirusHandler s)"
  have s1: "o_alive (objs s1 p)" "maps s1 = maps s" "map_find k (maps s1 mp) = None" "o_class (objs s1 p) = Cls_VirusHandler"
    using k(2) by (simp_all add: s1_def new_obj_def p_def blank_obj_def)
  obtain h a e where ct: "BaseSocket_ctor os p k (Some mp) s1 =
      s1\<lparr>trace := trace s1 @ h, errno := e,
        objs := (objs s1)(p := (objs s1 p)\<lparr>o_sock := k, o_handlers := Some mp, o_connected := True,
          o_connecting := False, o_accepting := False, o_closing := False, o_debug := True, o_addr := a\<rparr>),
        maps := (maps s1)(mp := map_insert k p (maps s1 mp))\<rparr>" and h: "sets_up k h"
    using BaseSocket_ctor_connected [OF s1(1) k(1) s1(3) k(3)] by blast
  define s2 where "s2 = BaseSocket_ctor os p k (Some mp) s1"
  obtain g e' where sb: "snd (cp_setblocking os k True s2) = s2\<lparr>trace := trace s2 @ g, errno := e'\<rparr>" "sets_up k g"
    by (rule cp_setblocking_state [of os k True s2]) simp
  define s' where "s' = VirusHandler_ctor os p k (Some mp) s1"
  have s': "s' = upd_obj p (\<lambda>x. x\<lparr>o_session := \<lparr>req = HV_uninit os (s2\<lparr>trace := trace s2 @ g, errno := e'\<rparr>), resp = [], vstate = OK\<rparr>\<rparr>)
      (s2\<lparr>trace := trace s2 @ g, errno := e'\<rparr>)"
    by (simp add: s'_def VirusHandler_ctor_def SocketHandler_ctor_def Let_def sb(1) flip: s2_def)
  note s2 = s2_def [unfolded ct]
  have c: "caches s1 = caches s" "files s1 = files s" "streams s1 = streams s" "next_cache s1 = next_cache s"
    "next_fp s1 = next_fp s" "ub s1 = ub s" "trace s1 = trace s" "\<forall>q. q \<noteq> p \<longrightarrow> objs s1 q = objs s q"
    "next_obj s1 = Suc p"
    by (simp_all add: s1_def new_obj_def p_def)
  have "client_ok p k Rx_idle s'"
    using s1 c wf rx_sim_new [of os "s2\<lparr>trace := trace s2 @ g, errno := e'\<rparr>" s']
    by (simp add: client_ok_def s' s2 session_ok_def heap_wf_def upd_obj_def)
  moreover have "ub s' = ub s" using s1(1) c by (simp add: s' s2 upd_obj_def)
  moreover have "map_find j (maps s' m) = (if m = mp \<and> j = k then Some p else map_find j (maps s m))" for j m
    using reg k(2) s1(2) by (simp add: s' s2 ss_map.find_insert reg_ok_def)
  moreover have "\<exists>g. trace s' = trace s @ g \<and> sets_up k g"
    using h sb(2) c(7) by (intro exI [of _ "h @ g"]) (simp add: s' s2)
  moreover have "caches s' = caches s" "files s' = files s" "streams s' = streams s" "next_obj s' = Suc p"
    using s1(1) c by (simp_all add: s' s2 upd_obj_def)
  ultimately show ?thesis
    using c(8) by (simp add: s'_def [symmetric] flip: s1_def) (simp add: s' s2)
qed

lemma server_accepts:
  assumes reg: "reg_ok s" and p: "map_find l (maps s mp) = Some p" "o_class (objs s p) = Cls_TCPServerImpl"
      "o_accepting (objs s p)"
    and k: "os_accept os (trace s) l = Inr (k, a)" "cp_socket_valid k" "map_find k (maps s mp) = None"
      "peer_named os k" and wf: "heap_wf s"
  shows "\<exists>s'. handle_read_event fuel os p s = Some s' \<and> client_ok (next_obj s) k Rx_idle s'
    \<and> resp (o_session (objs s' (next_obj s))) = [] \<and> ub s' = ub s
    \<and> (\<forall>j m. map_find j (maps s' m) = (if m = mp \<and> j = k then Some (next_obj s) else map_find j (maps s m)))
    \<and> (\<exists>g. trace s' = trace s @ Ev_accept l k # g \<and> sets_up k g) \<and> (\<forall>q. q \<noteq> next_obj s \<longrightarrow> objs s' q = objs s q)
    \<and> caches s' = caches s \<and> files s' = files s \<and> streams s' = streams s"
proof -
  have e: "o_alive (objs s p)" "o_sock (objs s p) = l" "o_handlers (objs s p) = Some mp"
    using reg p(1) by (auto simp: reg_ok_def reg_entry_def)
  define s1 where "s1 = s\<lparr>trace := trace s @ [Ev_accept l k]\<rparr>"
  have ac: "\<exists>x. BaseSocket_accept os p s = (k, x, s1)"
    using e k(1,2) by (simp add: BaseSocket_accept_def cp_accept_def sys_accept_def s1_def)
  have s1: "maps s1 = maps s" "objs s1 = objs s" "next_obj s1 = next_obj s" "ub s1 = ub s" "heap_wf s1" "reg_ok s1"
    "caches s1 = caches s" "files s1 = files s" "streams s1 = streams s" "trace s1 = trace s @ [Ev_accept l k]"
    using wf reg reg_ok_cong [of s1 s] by (simp_all add: s1_def heap_wf_def)
  have "handle_read_event fuel os p s =
      Some (VirusHandler_ctor os (next_obj s) k (Some mp) (snd (new_obj Cls_VirusHandler s1)))"
    using e p(2,3) ac k(2) s1
    by (auto simp: handle_read_event_def BaseSocket_handle_read_event_def v_handle_accept_def
        TCPServerImpl_handle_accept_def new_obj_def)
  with VirusHandler_ctor_client [OF s1(6) k(2) _ k(4) s1(5), of mp] k(3) s1 show ?thesis by auto
qed

subsection \<open>Properties of the service\<close>

text \<open>A process with one registered object, for the concrete instances of the theorems.\<close>

definition world_with :: "obj \<Rightarrow> world" where
  "world_with x = start_world\<lparr>objs := (objs start_world)(0 := x), next_obj := 1,
     maps := (maps start_world)(1 := [(o_sock x, 0)])\<rparr>"

definition some_client :: obj where
  "some_client = (blank_obj Cls_VirusHandler)\<lparr>o_alive := True, o_sock := 5, o_handlers := Some 1, o_connected := True\<rparr>"

definition some_server :: obj where
  "some_server = (blank_obj Cls_TCPServerImpl)\<lparr>o_alive := True, o_sock := 3, o_handlers := Some 1, o_accepting := True\<rparr>"

lemma world_with_ok:
  assumes "o_alive x" "o_handlers x = Some 1" "cp_socket_valid (o_sock x)"
  shows "reg_ok (world_with x)" "heap_wf (world_with x)" "map_find (o_sock x) (maps (world_with x) 1) = Some 0"
  using assms by (auto simp: world_with_def reg_ok_def reg_entry_def start_world_def heap_wf_def split: if_splits)

lemma some_client_ok: "client_ok 0 5 Rx_idle (world_with some_client)" "reg_ok (world_with some_client)"
  "map_find 5 (maps (world_with some_client) 1) = Some 0"
  using world_with_ok [of some_client]
  by (simp_all add: client_ok_def some_client_def world_with_def start_world_def blank_obj_def blank_session_def
      HV_new_def session_ok_def cp_socket_valid_def INVALID_SOCKET_def)

lemma serve_answers:
  assumes client: "client_ok p k Rx_idle s" "resp (o_session (objs s p)) = []"
    and io: "\<forall>e \<in> set (es @ [Flush os]). io_ok k e"
    and stream: "concat (received es) = concat (map (\<lambda>(i, body). message i body) ms)"
      "rx_run Rx_idle (received es) \<noteq> None"
    and sizes: "\<forall>(i, body) \<in> set ms. 1024 \<le> length body \<and> length body < 2 ^ 32"
    and fuel: "65535 < fuel" "12 * length ms < fuel"
  shows "\<exists>s'. serve fuel p (es @ [Flush os]) s = Some s' \<and> ub s' = ub s
    \<and> sent_on k (trace s') =
        sent_on k (trace s) @ concat (map (\<lambda>(i, body). net_header i 4 @ state_bytes OK) ms)"
proof -
  have rec: "received (es @ [Flush os]) = received es"
    by (induction es rule: received.induct) simp_all
  obtain ms' b where run: "rx_run Rx_idle (received es) = Some (ms', b)" using stream(2) by auto
  have "ms' = ms" using rx_run_concat [OF run] rx_parse_messages [OF sizes] stream(1) by simp
  with run rec have run: "rx_run Rx_idle (received (es @ [Flush os])) = Some (ms, b)" by simp
  have w: "wires (o_session (objs s p)) s = answers []" by (simp add: wires_def answers_def client(2))
  obtain s' n where s': "serve fuel p (es @ [Flush os]) s = Some s'" "client_ok p k b s'" "ub s' = ub s"
    "sent_on k (trace s') = sent_on k (trace s) @ concat (answers (take n ms))"
    "wires (o_session (objs s' p)) s' = answers (drop n ms)" "resp (o_session (objs s' p)) = []"
    using serve_answers_from [OF client(1) io run w fuel(1)] fuel(2) by auto
  then have "length ms \<le> n" by (simp add: wires_def answers_def)
  with s' show ?thesis by (auto simp: answers_def response_wire_def sizeof_State_def)
qed

text \<open>
  C10. A client sends requests of at least 1024 bytes each, cut into buffers of which none ends
  inside a header; the loop raises read and write events on its handler in any order. Every
  event ends, no undefined behaviour is reached, and after a final write event the client has
  been sent exactly one OK answer for each request, in the order of the requests.
\<close>

theorem server_answers_requests:
  assumes client: "client_ok p k Rx_idle s" "resp (o_session (objs s p)) = []"
    and io: "\<forall>e \<in> set (es @ [Flush os]). io_ok k e"
    and stream: "concat (received es) = concat (map (\<lambda>(i, body). message i body) ms)"
      "rx_run Rx_idle (received es) \<noteq> None"
    and sizes: "\<forall>(i, body) \<in> set ms. 1024 \<le> length body \<and> length body < 2 ^ 32"
    and fuel: "65535 < fuel" "12 * length ms < fuel"
  shows "\<exists>s'. serve fuel p (es @ [Flush os]) s = Some s' \<and> ub s' = ub s
    \<and> sent_on k (trace s') =
        sent_on k (trace s) @ concat (map (\<lambda>(i, body). net_header i 4 @ state_bytes OK) ms)"
  by (rule serve_answers [OF assms])

definition sending_os :: "byte list \<Rightarrow> os" where
  "sending_os d = good_os\<lparr>os_recv := \<lambda>h k n f. Inr d\<rparr>"

lemma sending_os_ok: "disk_ok (sending_os d)" "alloc_ok (sending_os d)" "delivers (sending_os d) k d" "send_ok (sending_os d) k"
  by (simp_all add: sending_os_def disk_ok_def alloc_ok_def delivers_def send_ok_def good_os_def)

theorem server_answers_requests_witness:
  "\<exists>s'. serve 70000 0 [Recv (sending_os (message 7 (replicate 1024 0))) (message 7 (replicate 1024 0)), Flush good_os]
      (world_with some_client) = Some s' \<and> ub s' = [] \<and> sent_on 5 (trace s') = net_header 7 4 @ state_bytes OK"
proof -
  let ?m = "message 7 (replicate 1024 0)"
  have m: "length ?m = 1032" by (simp add: message_def)
  then have ne: "?m \<noteq> []" by (metis list.size(3) zero_neq_numeral)
  have io: "\<forall>e \<in> set ([Recv (sending_os ?m) ?m] @ [Flush good_os]). io_ok 5 e"
    using sending_os_ok [of ?m] m ne by (simp add: send_ok_def good_os_def)
  have res: "resp (o_session (objs (world_with some_client) 0)) = []"
    by (simp add: world_with_def some_client_def blank_obj_def blank_session_def)
  have run: "rx_run Rx_idle [?m] \<noteq> None" using rx_parse_message [of "replicate 1024 0" 7] by simp
  show ?thesis
    using server_answers_requests [OF some_client_ok(1) res io, where ms = "[(7, replicate 1024 0)]" and fuel = 70000] run
    by (simp add: world_with_def start_world_def)
qed

text \<open>
  C9. A connection on the listening socket: the read event accepts it into a new handler,
  registered under the new socket with a clean session, and leaves every other entry alone.
\<close>

theorem server_accepts_client:
  assumes "reg_ok s" "map_find l (maps s mp) = Some p" "o_class (objs s p) = Cls_TCPServerImpl"
    "o_accepting (objs s p)" "os_accept os (trace s) l = Inr (k, a)" "cp_socket_valid k"
    "map_find k (maps s mp) = None" "peer_named os k" "heap_wf s"
  shows "\<exists>s'. handle_read_event fuel os p s = Some s' \<and> client_ok (next_obj s) k Rx_idle s'
    \<and> resp (o_session (objs s' (next_obj s))) = [] \<and> ub s' = ub s
    \<and> (\<forall>j m. map_find j (maps s' m) = (if m = mp \<and> j = k then Some (next_obj s) else map_find j (maps s m)))"
  using server_accepts [OF assms] by blast

theorem server_accepts_client_witness:
  "\<exists>s'. handle_read_event 1 good_os 0 (world_with some_server) = Some s' \<and> map_find 4 (maps s' 1) = Some 1
    \<and> client_ok 1 4 Rx_idle s'"
proof -
  have ok: "reg_ok (world_with some_server)" "heap_wf (world_with some_server)"
    "map_find 3 (maps (world_with some_server) 1) = Some 0" "map_find 4 (maps (world_with some_server) 1) = None"
    "next_obj (world_with some_server) = 1" "o_class (objs (world_with some_server) 0) = Cls_TCPServerImpl"
    "o_accepting (objs (world_with some_server) 0)"
    using world_with_ok [of some_server]
    by (simp_all add: some_server_def cp_socket_valid_def INVALID_SOCKET_def world_with_def blank_obj_def)
  have os: "peer_named good_os 4" "cp_socket_valid 4"
    "os_accept good_os (trace (world_with some_server)) 3 = Inr (4, \<lparr>sin_family = 2, sin_port = 0, s_addr = 0\<rparr>)"
    by (simp_all add: peer_named_def good_os_def cp_socket_valid_def INVALID_SOCKET_def)
  show ?thesis
    using server_accepts_client [OF ok(1,3,6,7) os(3,2) ok(4) os(1) ok(2)] ok(5) by force
qed

text \<open>
  C17. A client that hangs up (\<open>recv\<close> returns 0): its handler is removed from the map and its
  descriptor closed, no other entry changes; but \<open>close\<close> reads the socket from the handler
  after the map has deleted it.
\<close>

theorem client_hangup_use_after_free:
  assumes "reg_ok s" "map_find k (maps s mp) = Some p" "o_class (objs s p) = Cls_VirusHandler"
    "o_connected (objs s p)" "\<not> o_accepting (objs s p)" "os_recv os (trace s) k 65535 0 = Inr []"
  shows "\<exists>s'. handle_read_event fuel os p s = Some s' \<and> reg_ok s'
    \<and> (\<forall>j m. map_find j (maps s' m) = (if m = mp \<and> j = k then None else map_find j (maps s m)))
    \<and> trace s' = trace s @ [Ev_recv k 65535 0 (Some []), Ev_close k]
    \<and> ub s' = ub s @ [UseAfterFree p]"
proof -
  have e: "o_alive (objs s p)" "o_sock (objs s p) = k"
    using assms(1,2) by (auto simp: reg_ok_def reg_entry_def)
  define s1 where "s1 = s\<lparr>trace := trace s @ [Ev_recv k 65535 0 (Some [])]\<rparr>"
  have s1: "reg_ok s1" "map_find k (maps s1 mp) = Some p" "objs s1 = objs s" "ub s1 = ub s" "maps s1 = maps s"
    using assms(1,2) reg_ok_cong [of s1 s] by (simp_all add: s1_def)
  have n: "int_of_size 65535 = 65535" using int_of_size_small [of 65535] by simp
  have "BaseSocket_recv os v_handle_close v_handle_expt p 65535 s = (0, [], v_handle_close p s1)"
    using e assms(6) n
    by (simp add: BaseSocket_recv_def cp_recv_def sys_recv_def size_of_int_def Let_def word_less_nat_alt s1_def)
  moreover have "v_handle_close p s1 = BaseSocket_close p s1"
    using e assms(3) s1(3) by (simp add: v_handle_close_def VirusHandler_handle_close_def)
  ultimately have "handle_read_event fuel os p s = Some (BaseSocket_close p s1)"
    using e assms(3-5)
    by (simp add: handle_read_event_def BaseSocket_handle_read_event_def v_handle_read_def VirusHandler_handle_read_def)
  with BaseSocket_close_registered [OF s1(1,2)] reg_ok_close [OF s1(1)] s1 show ?thesis
    by (simp add: s1_def)
qed

theorem client_hangup_use_after_free_witness:
  "\<exists>s'. handle_read_event 1 good_os 0 (world_with some_client) = Some s' \<and> map_find 5 (maps s' 1) = None
    \<and> ub s' = [UseAfterFree 0]"
proof -
  have c: "o_class (objs (world_with some_client) 0) = Cls_VirusHandler" "o_connected (objs (world_with some_client) 0)"
    "\<not> o_accepting (objs (world_with some_client) 0)" "os_recv good_os (trace (world_with some_client)) 5 65535 0 = Inr []"
    and u: "ub (world_with some_client) = []"
    by (simp_all add: start_world_def world_with_def some_client_def blank_obj_def good_os_def)
  show ?thesis
    using client_hangup_use_after_free [OF some_client_ok(2,3) c, where fuel = 1] u by auto
qed

lemma log_maps: "maps (BaseSocket_log m s) = maps s"
  by (simp add: BaseSocket_log_def)

lemma v_close_registered:
  assumes "reg_ok s" "map_find k (maps s mp) = Some p"
  shows "map_find k (maps (v_handle_close p s) mp) = None \<and> \<not> o_alive (objs (v_handle_close p s) p)"
proof -
  have e: "o_alive (objs s p)" using assms by (auto simp: reg_ok_def reg_entry_def)
  have lg: "reg_ok (BaseSocket_log m s)" "map_find k (maps (BaseSocket_log m s) mp) = Some p" for m
    using assms by (simp_all add: log_maps)
  show ?thesis
    using e BaseSocket_close_registered(1,4) [OF assms] BaseSocket_close_registered(1,4) [OF lg]
    by (simp add: v_handle_close_def SocketHandler_handle_close_def VirusHandler_handle_close_def
        BaseSocket_handle_close_def BaseSocket_log_warning_def split: sock_class.split)
qed

lemma v_error_registered:
  assumes "reg_ok s" "map_find k (maps s mp) = Some p"
  shows "map_find k (maps (v_handle_error p s) mp) = None \<and> \<not> o_alive (objs (v_handle_error p s) p)"
proof -
  have e: "o_alive (objs s p)" using assms by (auto simp: reg_ok_def reg_entry_def)
  have lg: "reg_ok (BaseSocket_log m s)" "map_find k (maps (BaseSocket_log m s) mp) = Some p" for m
    using assms by (simp_all add: log_maps)
  show ?thesis
    using e v_close_registered [OF assms] v_close_registered [OF lg]
    by (simp add: v_handle_error_def SocketHandler_handle_error_def VirusHandler_handle_error_def
        BaseSocket_handle_error_def BaseSocket_log_warning_def split: sock_class.split)
qed

text \<open>
  \<open>getsockopt\<close> with null pointers for the value and its length fails with \<open>EFAULT\<close>.
\<close>

definition sockopt_null_fails :: "os \<Rightarrow> bool" where
  "sockopt_null_fails os = (\<forall>h k. os_getsockopt os h k = -1)"

text \<open>
  C29. \<open>BaseSocket::connect\<close> to a peer that accepts at once returns 0 and yet leaves the object
  closed, unregistered and deleted: \<open>handle_connect_event\<close> asks for \<open>SO_ERROR\<close> with null
  pointers, takes the failure of that call for a failed connection and closes the socket.
\<close>

theorem connect_success_closes:
  assumes "reg_ok s" "map_find k (maps s mp) = Some p" "sockopt_null_fails os"
    and "fst a \<noteq> ''''" "snd a \<noteq> 0" "pton_ok os" "host_addr os (Some (fst a)) = Some x"
    and "\<forall>h b. os_connect os h k b = Inr ()"
  shows "\<exists>s'. BaseSocket_connect os v_handle_error v_handle_connect p a AF_INET s = (0, s')
    \<and> map_find k (maps s' mp) = None \<and> \<not> o_alive (objs s' p)"
proof -
  have e: "o_alive (objs s p)" "o_sock (objs s p) = k"
    using assms(1,2) by (auto simp: reg_ok_def reg_entry_def)
  define s1 where "s1 = upd_obj p (\<lambda>x. x\<lparr>o_connected := False, o_connecting := True\<rparr>) s"
  have s1: "reg_ok s1" "o_alive (objs s1 p)" "o_sock (objs s1 p) = k" "maps s1 = maps s"
    using assms(1) e by (simp_all add: s1_def reg_ok_upd)
  obtain s2 where con: "cp_connect os k AF_INET (host_ptr a) (snd a) s1 = (0, s2)"
    using assms(4-8) cp_connect_host [OF assms(6), of k AF_INET "host_ptr a" "snd a" s1]
    by (simp add: host_ptr_def sys_connect_def)
  note f2 = world_of_sys [of s2 s1, OF sys_frame(6) [of os k AF_INET "host_ptr a" "snd a" s1, unfolded con snd_conv]]
  define s3 where "s3 = upd_obj p (\<lambda>x. x\<lparr>o_addr := a\<rparr>) s2"
  define s4 where "s4 = snd (sys_getsockopt os k s3)"
  have "sys.more s4 = sys.more s3" by (simp add: s4_def sys_getsockopt_def Let_def)
  note f4 = world_of_sys [OF this]
  have "reg_ok s2" using s1(1) reg_ok_cong [of s2 s1] f2 by simp
  then have "reg_ok s3" by (simp add: s3_def reg_ok_upd)
  then have s4: "reg_ok s4" "map_find k (maps s4 mp) = Some p" "o_alive (objs s3 p)" "o_sock (objs s3 p) = k"
    using reg_ok_cong [of s4 s3] f4 f2 s1 assms(2) by (simp_all add: s3_def)
  have "fst (sys_getsockopt os k s3) \<noteq> 0"
    using assms(3) by (simp add: sys_getsockopt_def sockopt_null_fails_def Let_def)
  then have "BaseSocket_connect os v_handle_error v_handle_connect p a AF_INET s = (0, v_handle_error p s4)"
    using con s1(3) s4(3,4)
    by (simp add: BaseSocket_connect_def BaseSocket_handle_connect_event_def case_prod_beta Let_def
        s4_def s3_def s1_def [symmetric])
  with v_error_registered [OF s4(1,2)] show ?thesis by auto
qed

theorem connect_success_closes_witness:
  "\<exists>s'. BaseSocket_connect (good_os\<lparr>os_getsockopt := \<lambda>h k. -1\<rparr>) v_handle_error v_handle_connect 0
      (''127.0.0.1'', 80) AF_INET
      (world_with ((blank_obj Cls_SocketHandler)\<lparr>o_alive := True, o_sock := 5, o_handlers := Some 1\<rparr>)) = (0, s')
    \<and> map_find 5 (maps s' 1) = None \<and> \<not> o_alive (objs s' 0)"
proof -
  let ?x = "(blank_obj Cls_SocketHandler)\<lparr>o_alive := True, o_sock := 5, o_handlers := Some 1\<rparr>"
  let ?os = "good_os\<lparr>os_getsockopt := \<lambda>h k. -1\<rparr>"
  have w: "reg_ok (world_with ?x)" "map_find 5 (maps (world_with ?x) 1) = Some 0"
    using world_with_ok [of ?x] by (simp_all add: cp_socket_valid_def INVALID_SOCKET_def)
  have o: "sockopt_null_fails ?os" "pton_ok ?os" "host_addr ?os (Some ''127.0.0.1'') = Some 0"
    "\<forall>h b. os_connect ?os h 5 b = Inr ()"
    by (simp_all add: sockopt_null_fails_def pton_ok_def host_addr_def good_os_def)
  show ?thesis
    using connect_success_closes [OF w o(1), of "(''127.0.0.1'', 80)" 0] o by simp
qed

text \<open>
  Constructing a handler on a valid socket without a map: the constructor stores
  \<open>&g_handlers\<close> in the object, but registers through its own null parameter. The null pointer is
  dereferenced and the object is in no map.
\<close>

theorem ctor_without_map_dereferences_null:
  assumes "o_alive (objs s p)" "cp_socket_valid k" "peer_named os k"
  shows "ub (BaseSocket_ctor os p k None s) = ub s @ [NullDeref] \<and> maps (BaseSocket_ctor os p k None s) = maps s
    \<and> o_handlers (objs (BaseSocket_ctor os p k None s) p) = Some g_handlers"
proof -
  let ?f = "\<lambda>x. x\<lparr>o_sock := k, o_handlers := None, o_connected := False, o_connecting := False,
      o_accepting := False, o_closing := False, o_debug := True\<rparr>"
  define s1 where "s1 = upd_obj p (\<lambda>x. x\<lparr>o_handlers := Some g_handlers\<rparr>) (upd_obj p ?f s)"
  obtain g e where s2: "snd (cp_setblocking os k False s1) = s1\<lparr>trace := trace s1 @ g, errno := e\<rparr>"
    by (rule cp_setblocking_state)
  define s3 where "s3 = upd_obj p (\<lambda>x. x\<lparr>o_connected := True\<rparr>)
      (fault NullDeref (upd_obj p (\<lambda>x. x\<lparr>o_sock := k\<rparr>) (s1\<lparr>trace := trace s1 @ g, errno := e\<rparr>)))"
  obtain a host where peer: "cp_getpeername os k (stack_sockaddr os 0 0 s3) s3 = (0, a, s3\<lparr>trace := trace s3 @ [Ev_getpeername k 0]\<rparr>)"
    "fst (cp_inet_ntop os (Some a) (Some '''') 16) = Some host"
    by (rule getpeername_named [OF assms(3)])
  have s3: "o_alive (objs s3 p)" "ub s3 = ub s @ [NullDeref]" "maps s3 = maps s" "o_handlers (objs s3 p) = Some g_handlers"
    using assms(1) by (simp_all add: s3_def s1_def upd_obj_def)
  have add: "BaseSocket_set_socket p k None (s1\<lparr>trace := trace s1 @ g, errno := e\<rparr>) =
      fault NullDeref (upd_obj p (\<lambda>x. x\<lparr>o_sock := k\<rparr>) (s1\<lparr>trace := trace s1 @ g, errno := e\<rparr>))"
    using assms(1) by (simp add: BaseSocket_set_socket_def BaseSocket_add_channel_def Let_def s1_def)
  have "BaseSocket_ctor os p k None s =
      upd_obj p (\<lambda>x. x\<lparr>o_addr := (host, ntohs (sin_port a))\<rparr>) (s3\<lparr>trace := trace s3 @ [Ev_getpeername k 0]\<rparr>)"
    using assms(2) s2 peer
    by (simp add: BaseSocket_ctor_def Let_def case_prod_beta s1_def [symmetric] add s3_def [symmetric] del: fault_def)
  then show ?thesis using s3 by (simp add: upd_obj_def)
qed

theorem ctor_without_map_dereferences_null_witness:
  "ub (BaseSocket_ctor good_os 0 5 None (start_world\<lparr>objs := \<lambda>_. (blank_obj Cls_SocketHandler)\<lparr>o_alive := True\<rparr>\<rparr>)) = [NullDeref]"
  using ctor_without_map_dereferences_null [of "start_world\<lparr>objs := \<lambda>_. (blank_obj Cls_SocketHandler)\<lparr>o_alive := True\<rparr>\<rparr>" 0 5 good_os]
  by (simp add: start_world_def cp_socket_valid_def INVALID_SOCKET_def peer_named_def good_os_def)

end
