(* ===== verification/Server_Failures.thy ===== *)
theory Server_Failures
  imports Client_Service
begin

text \<open>
  What the running server does when its environment fails it: a client that does not read, a
  client that is gone while a response is sent, no socket to listen on, descriptors beyond the
  size of an \<open>fd_set\<close>, and a network on which nothing happens.
\<close>

subsection \<open>A client with a response in its queue\<close>

text \<open>For the concrete instances of the theorems.\<close>

definition queued_world :: world where
  "queued_world =
     (let (v, s) = VH_response good_os (o_session some_client) (req (o_session some_client)) OK (world_with some_client)
      in upd_obj 0 (\<lambda>x. x\<lparr>o_session := v\<rparr>) s)"

lemma queued_world_ok:
  "client_ok 0 5 Rx_idle queued_world" "map_find 5 (maps queued_world 1) = Some 0"
  "o_handlers (objs queued_world 0) = Some 1" "map_wf (maps queued_world 1)"
  "\<exists>r c. resp (o_session (objs queued_world 0)) = [r] \<and> hv_value r = Some c \<and> cache_pending c queued_world = state_bytes OK"
proof -
  let ?v = "o_session some_client"
  have v: "session_ok ?v (world_with some_client)" "heap_wf (world_with some_client)" "resp ?v = []"
    using some_client_ok(1) by (simp_all add: client_ok_def world_with_def some_client_def blank_obj_def blank_session_def)
  obtain rsp s where r: "VH_response good_os ?v (req ?v) OK (world_with some_client) = (?v\<lparr>resp := [rsp]\<rparr>, s)"
    "wires (?v\<lparr>resp := [rsp]\<rparr>) s = [response_wire (hdr_id (hv_header (req ?v))) OK]"
    "session_ok (?v\<lparr>resp := [rsp]\<rparr>) s" "heap_wf s"
    using VH_response_ok [OF good_os_ok(2) v(2,1), of "req ?v" OK] v(3) by (auto simp: wires_def)
  have f: "objs s = objs (world_with some_client)" "maps s = maps (world_with some_client)"
    using world_of_cstate [OF cstate_frame_response, of good_os ?v "req ?v" OK "world_with some_client"] r(1) by simp_all
  have q: "queued_world = upd_obj 0 (\<lambda>x. x\<lparr>o_session := ?v\<lparr>resp := [rsp]\<rparr>\<rparr>) s"
    by (simp add: queued_world_def r(1))
  have o: "objs queued_world 0 = (some_client)\<lparr>o_session := ?v\<lparr>resp := [rsp]\<rparr>\<rparr>" "maps queued_world = maps s"
    "caches queued_world = caches s" by (simp_all add: q f world_with_def)
  have ses: "session_ok (?v\<lparr>resp := [rsp]\<rparr>) queued_world" "wires (?v\<lparr>resp := [rsp]\<rparr>) queued_world = wires (?v\<lparr>resp := [rsp]\<rparr>) s"
    using session_cong [of s queued_world, OF _ r(3)] o(3) by simp_all
  have wf: "heap_wf queued_world" using r(4) by (simp add: heap_wf_def q upd_obj_def touch_def)
  have sc: "some_client = objs (world_with some_client) 0" by (simp add: world_with_def)
  show "client_ok 0 5 Rx_idle queued_world"
    using some_client_ok(1) ses(1) wf by (simp add: client_ok_def o flip: sc)
  show "map_find 5 (maps queued_world 1) = Some 0" "o_handlers (objs queued_world 0) = Some 1"
    "map_wf (maps queued_world 1)"
    using some_client_ok(3) by (simp_all add: o f world_with_def some_client_def map_wf_def)
  obtain c where c: "hv_value rsp = Some c"
    using ses(1) by (auto simp: session_ok_def resp_ok_def split: option.splits)
  have "header_bytes (hv_header rsp) @ cache_pending c queued_world = response_wire (hdr_id (hv_header (req ?v))) OK"
    using ses(2) r(2) by (simp add: wires_def resp_wire_def c)
  from arg_cong [OF this, of "drop 8"] have "cache_pending c queued_world = state_bytes OK"
    by (simp add: response_wire_def)
  then show "\<exists>r c. resp (o_session (objs queued_world 0)) = [r] \<and> hv_value r = Some c
      \<and> cache_pending c queued_world = state_bytes OK"
    using c by (simp add: o)
qed

subsection \<open>A client that does not read\<close>

text \<open>A socket whose kernel buffer is full: every \<open>send\<close> fails with \<open>EAGAIN\<close>.\<close>

definition send_blocks :: "os \<Rightarrow> cp_socket_t \<Rightarrow> bool" where
  "send_blocks os k = (\<forall>h bs. os_send os h k bs 0 = Inl EAGAIN)"

lemma BaseSocket_send_blocked:
  fixes vc :: "nat \<Rightarrow> world \<Rightarrow> world" and b :: "byte list" and n :: size_t
  assumes "o_alive (objs s p)" "send_blocks os (o_sock (objs s p))"
  defines "s' \<equiv> snd (BaseSocket_send os vc p b n s)"
  shows "objs s' = objs s" "maps s' = maps s" "caches s' = caches s"
    "sent_on (o_sock (objs s p)) (trace s') = sent_on (o_sock (objs s p)) (trace s)"
proof -
  have *: "sys.more s' = sys.more s"
    using assms(1,2)
    by (simp add: s'_def BaseSocket_send_def cp_send_def read_block_def sys_send_def send_blocks_def SOCKET_ERROR_def Let_def)
  then show "objs s' = objs s" "maps s' = maps s" "caches s' = caches s"
    by (rule world_of_sys)+
  show "sent_on (o_sock (objs s p)) (trace s') = sent_on (o_sock (objs s p)) (trace s)"
    using assms(1,2)
    by (simp add: s'_def BaseSocket_send_def cp_send_def read_block_def sys_send_def send_blocks_def SOCKET_ERROR_def Let_def)
qed

lemma VirusHandler_send_value_blocked:
  assumes "mem_invar c s" "o_alive (objs s p)" "send_blocks os (o_sock (objs s p))"
    and "length (cache_pending c s) < fuel"
  shows "\<exists>s'. VirusHandler_send_value fuel os vc p c s = Some s' \<and> mem_invar c s' \<and> objs s' = objs s
    \<and> (\<forall>q. q \<noteq> c \<longrightarrow> caches s' q = caches s q)
    \<and> sent_on (o_sock (objs s p)) (trace s') = sent_on (o_sock (objs s p)) (trace s)"
  using assms
proof (induction fuel arbitrary: s)
  case 0
  then show ?case by simp
next
  case (Suc fuel)
  have n: "unat (4096 :: size_t) = 4096" by simp
  obtain nread s1 where pop: "cache_pop c 4096 s = (nread, take 4096 (cache_pending c s), s1)"
    "unat nread = length (take 4096 (cache_pending c s))"
    and s1: "s1 = s\<lparr>caches := (caches s)(c := caches s1 c)\<rparr>" "mem_invar c s1"
    "cache_pending c s1 = drop 4096 (cache_pending c s)"
    using mem_pop_block [OF Suc.prems(1), of 4096, unfolded n] by auto
  have eq: "objs s1 = objs s" "trace s1 = trace s" "q \<noteq> c \<Longrightarrow> caches s1 q = caches s q" for q
    by (subst s1(1), simp)+
  show ?case
  proof (cases "cache_pending c s = []")
    case True
    with pop(2) have "\<not> nread > 0" by (simp add: word_less_nat_alt)
    with pop(1) s1(2) eq show ?thesis by (simp add: VirusHandler_send_value.simps(2))
  next
    case False
    let ?s2 = "snd (BaseSocket_send os vc p (take 4096 (cache_pending c s)) nread s1)"
    have s2: "objs ?s2 = objs s" "caches ?s2 = caches s1"
      "sent_on (o_sock (objs s p)) (trace ?s2) = sent_on (o_sock (objs s p)) (trace s)"
      using BaseSocket_send_blocked [of s1 p os vc] Suc.prems(2,3) eq by simp_all
    have st: "mem_invar c ?s2" "cache_pending c ?s2 = drop 4096 (cache_pending c s)"
      using mem_views_cong [of ?s2 c s1] s1(2,3) s2(2) by simp_all
    have "0 < length (cache_pending c s)" using False by simp
    then have "length (cache_pending c ?s2) < fuel"
      unfolding st(2) length_drop using Suc.prems(4) by linarith
    from Suc.IH [OF st(1) _ _ this] Suc.prems(2,3) s2 eq show ?thesis
      using pop False by (auto simp: VirusHandler_send_value.simps(2) word_less_nat_alt)
  qed
qed

lemma VirusHandler_handle_write_blocked:
  assumes "o_alive (objs s p)" "send_blocks os (o_sock (objs s p))" "session_ok (o_session (objs s p)) s"
    and "length (concat (wires (o_session (objs s p)) s)) < fuel"
  shows "\<exists>s'. VirusHandler_handle_write fuel os vc p s = Some s' \<and> o_alive (objs s' p)
    \<and> resp (o_session (objs s' p)) = []
    \<and> sent_on (o_sock (objs s p)) (trace s') = sent_on (o_sock (objs s p)) (trace s)"
  using assms
proof (induction "resp (o_session (objs s p))" arbitrary: s fuel)
  case Nil
  then show ?case by (cases fuel) (auto simp: VirusHandler_handle_write.simps(2))
next
  case (Cons r rs)
  let ?k = "o_sock (objs s p)" and ?v = "o_session (objs s p)"
  obtain f where f: "fuel = Suc f" using Cons.prems(4) by (cases fuel) auto
  note q = Cons.hyps(2) [symmetric]
  obtain c where c: "hv_value r = Some c" "mem_invar c s"
    using Cons.prems(3) q by (auto simp: session_ok_def resp_ok_def split: option.splits)
  define s1 where "s1 = upd_obj p (\<lambda>x. x\<lparr>o_session := (o_session x)\<lparr>resp := rs\<rparr>\<rparr>) s"
  have o1: "objs s1 = (objs s)(p := (objs s p)\<lparr>o_session := ?v\<lparr>resp := rs\<rparr>\<rparr>)" "trace s1 = trace s" "caches s1 = caches s"
    using Cons.prems(1) by (simp_all add: s1_def)
  define s2 where "s2 = snd (BaseSocket_send os vc p (header_bytes (hv_header r)) (size_of_int sizeof_Header) s1)"
  have o2: "objs s2 = objs s1" "caches s2 = caches s" "sent_on ?k (trace s2) = sent_on ?k (trace s)"
    using BaseSocket_send_blocked [of s1 p os vc] Cons.prems(1,2) o1 by (simp_all add: s2_def)
  have m2: "mem_invar c s2" "cache_pending c s2 = cache_pending c s"
    using mem_views_cong [of s2 c s] c(2) o2(2) by simp_all
  have len: "length (cache_pending c s2) < f" "length (concat (map (\<lambda>h. resp_wire h s) rs)) < f"
    using Cons.prems(4) q f m2(2) by (simp_all add: wires_def resp_wire_def c(1))
  obtain s3 where s3: "VirusHandler_send_value f os vc p c s2 = Some s3" "mem_invar c s3" "objs s3 = objs s2"
    "\<forall>q. q \<noteq> c \<longrightarrow> caches s3 q = caches s2 q" "sent_on ?k (trace s3) = sent_on ?k (trace s2)"
    using VirusHandler_send_value_blocked [OF m2(1) _ _ len(1), of p os vc] Cons.prems(1,2) o1 o2 by auto
  define s4 where "s4 = s3\<lparr>caches := (caches s3)(c := None)\<rparr>"
  have run: "VirusHandler_handle_write fuel os vc p s = VirusHandler_handle_write f os vc p s4"
    using Cons.prems(1) q c(1) s3(1) mem_release [OF s3(2)]
    by (simp add: f VirusHandler_handle_write.simps(2) case_prod_beta s4_def flip: s1_def s2_def)
  have o4: "objs s4 = (objs s)(p := (objs s p)\<lparr>o_session := ?v\<lparr>resp := rs\<rparr>\<rparr>)" "trace s4 = trace s3"
    by (simp_all add: s4_def s3 o2 o1)
  have "caches s4 = (caches s)(c := None)" using s3(4) o2(2) by (auto simp: s4_def)
  note session_next_response [OF Cons.prems(3) q c(1) this]
  with Cons.hyps(1) [of s4 f] Cons.prems(1,2) len(2) o4 s3(5) o2(3) run show ?case by simp
qed

text \<open>
  C24. A client that does not read: with the kernel's buffer full every \<open>send\<close> fails with \<open>EAGAIN\<close>,
  which \<open>BaseSocket::send\<close> turns into 0 and \<open>handle_write\<close> ignores. The whole queue is discarded
  although not a byte of it was sent, and the connection stays open.
\<close>

theorem blocked_socket_loses_responses:
  assumes "client_ok p k a s" "send_blocks os k" "length (concat (wires (o_session (objs s p)) s)) < fuel"
  shows "\<exists>s'. handle_write_event fuel os p s = Some s' \<and> o_alive (objs s' p)
    \<and> resp (o_session (objs s' p)) = [] \<and> sent_on k (trace s') = sent_on k (trace s)"
  using VirusHandler_handle_write_blocked [of s p os fuel v_handle_close] assms client_write_event(1) [OF assms(1)]
  by (simp add: client_ok_def)

theorem blocked_socket_loses_responses_witness:
  "resp (o_session (objs queued_world 0)) \<noteq> []
    \<and> (\<exists>s'. handle_write_event 13 (good_os\<lparr>os_send := \<lambda>h k bs f. Inl EAGAIN\<rparr>) 0 queued_world = Some s'
        \<and> resp (o_session (objs s' 0)) = [] \<and> sent_on 5 (trace s') = sent_on 5 (trace queued_world))"
proof -
  obtain r c where r: "resp (o_session (objs queued_world 0)) = [r]" "hv_value r = Some c"
    "cache_pending c queued_world = state_bytes OK"
    using queued_world_ok(5) by blast
  have "send_blocks (good_os\<lparr>os_send := \<lambda>h k bs f. Inl EAGAIN\<rparr>) 5" by (simp add: send_blocks_def)
  moreover have "length (concat (wires (o_session (objs queued_world 0)) queued_world)) < 13"
    by (simp add: wires_def r resp_wire_def)
  ultimately show ?thesis
    using blocked_socket_loses_responses [OF queued_world_ok(1)] r(1) by auto
qed

subsection \<open>A client that is gone\<close>

definition closed_flags :: "obj \<Rightarrow> obj" where
  "closed_flags x = x\<lparr>o_connected := False, o_connecting := False, o_accepting := False\<rparr>"

lemma virus_close_live:
  assumes "o_alive (objs s p)" "o_class (objs s p) = Cls_VirusHandler" "o_handlers (objs s p) = Some mp"
    "map_find (o_sock (objs s p)) (maps s mp) = Some p"
  shows "v_handle_close p s =
    s\<lparr>maps := (maps s)(mp := map_erase (o_sock (objs s p)) (maps s mp)),
      objs := (objs s)(p := (closed_flags (objs s p))\<lparr>o_alive := False\<rparr>),
      trace := trace s @ [Ev_close (o_sock (objs s p))], ub := ub s @ [UseAfterFree p]\<rparr>"
  using assms
  by (simp add: v_handle_close_def VirusHandler_handle_close_def BaseSocket_close_def BaseSocket_del_channel_def
      channel_erase_def delete_obj_def cp_close_socket_def upd_obj_def closed_flags_def touch_def Let_def)

lemma virus_close_dead:
  assumes "\<not> o_alive (objs s p)" "o_class (objs s p) = Cls_VirusHandler" "o_handlers (objs s p) = Some mp"
    "map_find (o_sock (objs s p)) (maps s mp) = None"
  shows "v_handle_close p s =
    s\<lparr>objs := (objs s)(p := closed_flags (objs s p)),
      trace := trace s @ [Ev_close (o_sock (objs s p))], ub := ub s @ replicate 4 (UseAfterFree p)\<rparr>"
  using assms
  by (simp add: v_handle_close_def VirusHandler_handle_close_def BaseSocket_close_def BaseSocket_del_channel_def
      channel_erase_def cp_close_socket_def upd_obj_def closed_flags_def touch_def Let_def numeral_eq_Suc)

definition send_fails :: "os \<Rightarrow> cp_socket_t \<Rightarrow> errno \<Rightarrow> bool" where
  "send_fails os k e = (e \<noteq> EAGAIN \<and> (\<forall>h bs. os_send os h k bs 0 = Inl e))"

lemma BaseSocket_send_fails:
  assumes "send_fails os (o_sock (objs s p)) e" "unat n = length b" "b \<noteq> []" "length b < 2 ^ 31"
  shows "BaseSocket_send os vc p b n s =
    (-1, vc p ((touch p s)\<lparr>trace := trace s @ [Ev_send (o_sock (objs s p)) b 0 (-1)], errno := e\<rparr>))"
proof -
  have "int_of_size n = int (length b)" using assms(2,4) int_of_size_small [of n] by simp
  then show ?thesis
    using assms(1,3)
    by (simp add: BaseSocket_send_def cp_send_def read_block_def in_block_def sys_send_def send_fails_def
        SOCKET_ERROR_def not_less Suc_le_eq)
qed
lemma pop_all:
  assumes "mem_invar c s" "length (cache_pending c s) \<le> 4096"
  shows "\<exists>nread s'. cache_pop c 4096 s = (nread, cache_pending c s, s') \<and> unat nread = length (cache_pending c s)
    \<and> s' = s\<lparr>caches := (caches s)(c := caches s' c)\<rparr> \<and> mem_invar c s' \<and> cache_pending c s' = []"
  using mem_pop_block [OF assms(1), of 4096] assms(2) by auto

text \<open>The value of a response, sent by a handler that has been deleted.\<close>

lemma send_value_dead:
  assumes dead: "\<not> o_alive (objs s p)" "o_class (objs s p) = Cls_VirusHandler" "o_handlers (objs s p) = Some mp"
    "map_find (o_sock (objs s p)) (maps s mp) = None"
    and net: "send_fails os (o_sock (objs s p)) e"
    and c: "mem_invar c s" "cache_pending c s = body" "body \<noteq> []" "length body \<le> 4096"
  shows "\<exists>s'. VirusHandler_send_value (Suc (Suc f)) os v_handle_close p c s = Some s' \<and> mem_invar c s'
    \<and> objs s' = (objs s)(p := closed_flags (objs s p)) \<and> maps s' = maps s
    \<and> ub s' = ub s @ replicate 5 (UseAfterFree p)
    \<and> trace s' = trace s @ [Ev_send (o_sock (objs s p)) body 0 (-1), Ev_close (o_sock (objs s p))]"
proof -
  let ?k = "o_sock (objs s p)"
  obtain nread s3 where pop: "cache_pop c 4096 s = (nread, body, s3)" "unat nread = length body"
    "s3 = s\<lparr>caches := (caches s)(c := caches s3 c)\<rparr>" "mem_invar c s3" "cache_pending c s3 = []"
    using pop_all [of c s] c by auto
  have f3: "objs s3 = objs s" "maps s3 = maps s" "ub s3 = ub s" "trace s3 = trace s" by (subst pop(3), simp)+
  define t3 where "t3 = (touch p s3)\<lparr>trace := trace s3 @ [Ev_send ?k body 0 (-1)], errno := e\<rparr>"
  define s4 where "s4 = v_handle_close p t3"
  have o4: "s4 = t3\<lparr>objs := (objs s)(p := closed_flags (objs s p)), trace := trace t3 @ [Ev_close ?k],
      ub := ub t3 @ replicate 4 (UseAfterFree p)\<rparr>"
    using virus_close_dead [of t3 p mp] dead by (simp add: s4_def t3_def f3)
  have snd4: "BaseSocket_send os v_handle_close p body nread s3 = (-1, s4)"
    using BaseSocket_send_fails [of os s3 p e nread body v_handle_close] net pop(2) c
    by (simp add: f3 s4_def t3_def)
  have m4: "mem_invar c s4" "cache_pending c s4 = []"
    using mem_views_cong [of s4 c s3] pop(4,5) by (simp_all add: o4 t3_def)
  obtain nread' s5 where pop': "cache_pop c 4096 s4 = (nread', [], s5)" "unat nread' = 0"
    "s5 = s4\<lparr>caches := (caches s4)(c := caches s5 c)\<rparr>" "mem_invar c s5"
    using pop_all [of c s4] m4 by auto
  have f5: "objs s5 = objs s4" "maps s5 = maps s4" "ub s5 = ub s4" "trace s5 = trace s4" by (subst pop'(3), simp)+
  have "nread > 0" "\<not> nread' > 0" using pop(2) pop'(2) c(3) by (simp_all add: word_less_nat_alt)
  then have "VirusHandler_send_value (Suc (Suc f)) os v_handle_close p c s = Some s5"
    using pop(1) snd4 pop'(1) by (simp add: VirusHandler_send_value.simps(2))
  moreover have "ub s5 = ub s @ replicate 5 (UseAfterFree p)"
    using dead(1) by (simp add: f5 o4 t3_def f3 touch_def numeral_eq_Suc)
  ultimately show ?thesis using pop'(4) by (simp add: f5 o4 t3_def f3)
qed

text \<open>
  C16. A \<open>send\<close> that fails while a response goes out (the client is gone): \<open>handle_close\<close> removes and
  deletes the handler, but \<open>handle_write\<close> goes on with the deleted object. It sends the value
  on the closed descriptor and closes that descriptor number a second time, when it may
  already belong to another connection.
\<close>

theorem send_error_closes_twice:
  assumes reg: "map_find k (maps s mp) = Some p" "o_handlers (objs s p) = Some mp" "map_wf (maps s mp)"
    and cl: "client_ok p k a s" and r: "resp (o_session (objs s p)) = [r]" "hv_value r = Some c"
    and body: "cache_pending c s = body" "body \<noteq> []" "length body \<le> 4096"
    and net: "send_fails os k e" and fuel: "2 < fuel"
  shows "\<exists>s' m. handle_write_event fuel os p s = Some s' \<and> map_find k (maps s' mp) = None
    \<and> trace s' = trace s @ [Ev_send k (header_bytes (hv_header r)) 0 (-1), Ev_close k, Ev_send k body 0 (-1), Ev_close k]
    \<and> ub s' = ub s @ replicate (Suc m) (UseAfterFree p)"
proof -
  obtain f where f: "fuel = Suc (Suc (Suc f))" using fuel by (metis Suc_less_eq2 not_less_eq numeral_2_eq_2 old.nat.exhaust not_less_zero)
  let ?hb = "header_bytes (hv_header r)"
  have x: "o_alive (objs s p)" "o_class (objs s p) = Cls_VirusHandler" "o_sock (objs s p) = k"
    "mem_invar c s" using cl r by (auto simp: client_ok_def session_ok_def resp_ok_def)
  define s1 where "s1 = upd_obj p (\<lambda>x. x\<lparr>o_session := (o_session x)\<lparr>resp := []\<rparr>\<rparr>) s"
  define t1 where "t1 = s1\<lparr>trace := trace s1 @ [Ev_send k ?hb 0 (-1)], errno := e\<rparr>"
  have o1: "objs t1 = (objs s)(p := (objs s p)\<lparr>o_session := (o_session (objs s p))\<lparr>resp := []\<rparr>\<rparr>)"
    "maps t1 = maps s" "caches t1 = caches s" "ub t1 = ub s" "trace t1 = trace s @ [Ev_send k ?hb 0 (-1)]"
    using x(1) by (simp_all add: t1_def s1_def upd_obj_def)
  define s2 where "s2 = v_handle_close p t1"
  have o2: "\<not> o_alive (objs s2 p)" "o_class (objs s2 p) = Cls_VirusHandler" "o_handlers (objs s2 p) = Some mp"
    "o_sock (objs s2 p) = k" "resp (o_session (objs s2 p)) = []" "map_find k (maps s2 mp) = None"
    "caches s2 = caches s" "ub s2 = ub s @ [UseAfterFree p]"
    "trace s2 = trace s @ [Ev_send k ?hb 0 (-1), Ev_close k]"
    using virus_close_live [of t1 p mp] x reg
    by (simp_all add: s2_def o1 closed_flags_def ss_map.find_erase)
  have sz: "unat (size_of_int sizeof_Header) = length ?hb" "?hb \<noteq> []"
    by (simp_all add: size_of_int_def sizeof_Header_def flip: length_greater_0_conv)
  have head: "BaseSocket_send os v_handle_close p ?hb (size_of_int sizeof_Header) s1 = (-1, s2)"
    using BaseSocket_send_fails [OF _ sz, of os s1 p e v_handle_close] net x(1,3)
    by (simp add: s2_def t1_def s1_def)
  have m2: "mem_invar c s2" "cache_pending c s2 = body"
    using mem_views_cong [of s2 c s] x(4) body(1) o2(7) by simp_all
  obtain s5 where loop: "VirusHandler_send_value (Suc (Suc f)) os v_handle_close p c s2 = Some s5"
    and s5: "mem_invar c s5" "objs s5 = (objs s2)(p := closed_flags (objs s2 p))" "maps s5 = maps s2"
      "ub s5 = ub s2 @ replicate 5 (UseAfterFree p)" "trace s5 = trace s2 @ [Ev_send k body 0 (-1), Ev_close k]"
    using send_value_dead [OF o2(1-3), of os e c body f] m2 body(2,3) o2(4,6) net by auto
  have run: "VirusHandler_handle_write fuel os v_handle_close p s = Some (touch p (s5\<lparr>caches := (caches s5)(c := None)\<rparr>))"
    using x(1) r head loop mem_release [OF s5(1)] o2(5) s5(2)
    by (simp add: f VirusHandler_handle_write.simps(2) closed_flags_def flip: s1_def)
  moreover have "ub (touch p (s5\<lparr>caches := (caches s5)(c := None)\<rparr>)) = ub s @ replicate (Suc 6) (UseAfterFree p)"
    using o2(1,8) s5 by (simp add: touch_def closed_flags_def numeral_eq_Suc)
  ultimately show ?thesis
    using client_write_event(1) [OF cl, of fuel os] o2(6,9) s5
    by (intro exI [of _ "touch p (s5\<lparr>caches := (caches s5)(c := None)\<rparr>)"] exI [of _ 6]) simp
qed

theorem send_error_closes_twice_witness:
  "\<exists>s'. handle_write_event 3 (good_os\<lparr>os_send := \<lambda>h k bs f. Inl ENOTCONN\<rparr>) 0 queued_world = Some s'
    \<and> map_find 5 (maps s' 1) = None \<and> UseAfterFree 0 \<in> set (ub s')
    \<and> filter (\<lambda>ev. ev = Ev_close 5) (trace s') = filter (\<lambda>ev. ev = Ev_close 5) (trace queued_world) @ [Ev_close 5, Ev_close 5]"
proof -
  obtain r c where r: "resp (o_session (objs queued_world 0)) = [r]" "hv_value r = Some c"
    "cache_pending c queued_world = state_bytes OK"
    using queued_world_ok(5) by blast
  have net: "send_fails (good_os\<lparr>os_send := \<lambda>h k bs f. Inl ENOTCONN\<rparr>) 5 ENOTCONN" by (simp add: send_fails_def)
  have "state_bytes OK \<noteq> []" "length (state_bytes OK) \<le> 4096"
    by (simp_all flip: length_greater_0_conv)
  from send_error_closes_twice [OF queued_world_ok(2,3,4,1) r this net, of 3]
  show ?thesis by auto
qed

subsection \<open>Start and end of the program\<close>

lemma TCPServer_ctor_without_socket:
  assumes "os_socket os (trace s) AF_INET SOCK_STREAM IPPROTO_TCP = Inl e"
  shows "\<exists>srv s' a r1 r2. TCPServer_ctor os None port (Some mp) s = (srv, s') \<and> p_impl_sock srv = -1 \<and> srv_handlers srv = mp
    \<and> maps s' = maps s \<and> ub s' = ub s
    \<and> trace s' = trace s @ [Ev_socket AF_INET SOCK_STREAM IPPROTO_TCP (-1), Ev_bind (-1) a r1, Ev_listen (-1) 5 r2]"
proof -
  let ?p = "next_obj s"
  define s1 where "s1 = BaseSocket_ctor os ?p INVALID_SOCKET (Some mp) (snd (new_obj Cls_TCPServerImpl s))"
  have o1: "o_alive (objs s1 ?p)" "maps s1 = maps s" "ub s1 = ub s" "trace s1 = trace s"
    by (simp_all add: s1_def BaseSocket_ctor_def new_obj_def cp_socket_valid_def upd_obj_def)
  define s2 where "s2 = snd (BaseSocket_create_socket os ?p AF_INET SOCK_STREAM s1)"
  have o2: "o_alive (objs s2 ?p)" "o_sock (objs s2 ?p) = -1" "maps s2 = maps s" "ub s2 = ub s"
    "trace s2 = trace s @ [Ev_socket AF_INET SOCK_STREAM IPPROTO_TCP (-1)]"
    using assms o1
    by (simp_all add: s2_def BaseSocket_create_socket_def cp_socket_tcp_def cp_socket_def sys_socket_def
        cp_socket_valid_def INVALID_SOCKET_def upd_obj_def Let_def)
  define s3 where "s3 = snd (BaseSocket_bind os ?p ('''', port) AF_INET s2)"
  have "o_alive (objs s3 ?p) \<and> o_sock (objs s3 ?p) = -1 \<and> maps s3 = maps s \<and> ub s3 = ub s
      \<and> (\<exists>a r1. trace s3 = trace s2 @ [Ev_bind (-1) a r1])"
    using o2(1-4)
    by (simp add: s3_def BaseSocket_bind_def cp_bind_def sys_bind_def cp_inet_pton_def host_ptr_def upd_obj_def
        Let_def split: sum.split)
  then obtain a r1 where o3: "o_alive (objs s3 ?p)" "o_sock (objs s3 ?p) = -1" "maps s3 = maps s" "ub s3 = ub s"
    "trace s3 = trace s2 @ [Ev_bind (-1) a r1]"
    by blast
  define s4 where "s4 = snd (BaseSocket_listen os ?p 5 s3)"
  have "o_alive (objs s4 ?p) \<and> o_sock (objs s4 ?p) = -1 \<and> maps s4 = maps s \<and> ub s4 = ub s
      \<and> (\<exists>r2. trace s4 = trace s3 @ [Ev_listen (-1) 5 r2])"
    using o3(1-4)
    by (simp add: s4_def BaseSocket_listen_def cp_listen_def sys_listen_def upd_obj_def Let_def split: sum.split)
  then obtain r2 where o4: "o_alive (objs s4 ?p)" "o_sock (objs s4 ?p) = -1" "maps s4 = maps s" "ub s4 = ub s"
    "trace s4 = trace s3 @ [Ev_listen (-1) 5 r2]"
    by blast
  have "TCPServer_ctor os None port (Some mp) s = (\<lparr>p_impl_sock = -1, p_impl = ?p, srv_handlers = mp\<rparr>, s4)"
    using o4(1,2)
    by (simp add: TCPServer_ctor_def TCPServerImpl_ctor_def Let_def case_prod_beta BaseSocket_set_reuse_addr_def
        BaseSocket_socket_def s4_def s3_def s2_def s1_def new_obj_def)
  with o2(5) o3(5) o4 show ?thesis by auto
qed

text \<open>
  C32. When no socket can be created the program ends at once: the listening object is never
  registered, \<open>bind\<close> and \<open>listen\<close> are still called, on descriptor -1, and \<open>loop\<close> finds the map empty.
\<close>

theorem main_without_socket:
  assumes "os_socket os (trace s) AF_INET SOCK_STREAM IPPROTO_TCP = Inl e" "maps s sock_handlers = []"
  shows "\<exists>s' a r1 r2. main fuel hfuel os s = Some s' \<and> ub s' = ub s \<and> maps s' sock_handlers = []
    \<and> trace s' = trace s @ [Ev_socket AF_INET SOCK_STREAM IPPROTO_TCP (-1), Ev_bind (-1) a r1, Ev_listen (-1) 5 r2]"
  using TCPServer_ctor_without_socket [OF assms(1), of 7890 sock_handlers] assms(2)
  by (fastforce simp: main_def loop_def map_size_def TCPServer_dtor_def channel_erase_def map_dtor_def)

theorem main_without_socket_witness:
  "\<exists>s'. main 1 1 (good_os\<lparr>os_socket := \<lambda>h a b c. Inl EINVAL\<rparr>) start_world = Some s' \<and> length (trace s') = 3"
proof -
  let ?os = "good_os\<lparr>os_socket := \<lambda>h a b c. Inl EINVAL\<rparr>"
  have "os_socket ?os (trace start_world) AF_INET SOCK_STREAM IPPROTO_TCP = Inl EINVAL" "maps start_world sock_handlers = []"
    by (simp_all add: start_world_def)
  from main_without_socket [OF this, of 1 1] show ?thesis by (auto simp: start_world_def)
qed


lemma loop_while_empty: "loop_while fuel hfuel os t mp s = Some s' \<Longrightarrow> maps s' mp = []"
  by (induction fuel arbitrary: s) (auto simp: map_size_def split: if_splits option.splits)

text \<open>
  C20. The program returns only after every handler has been removed, so that the destructors of
  the server object and of the map find nothing to delete.
\<close>

theorem main_returns_with_no_handlers:
  assumes "main fuel hfuel os s = Some s'"
  shows "maps s' sock_handlers = []
    \<and> loop fuel hfuel os 60000 0 (Some sock_handlers) (snd (TCPServer_ctor os None 7890 (Some sock_handlers) s)) = Some s'"
proof -
  obtain srv s1 where c: "TCPServer_ctor os None 7890 (Some sock_handlers) s = (srv, s1)" "srv_handlers srv = sock_handlers"
    by (auto simp: TCPServer_ctor_def Let_def case_prod_beta)
  from assms c obtain s2 where l: "loop fuel hfuel os 60000 0 (Some sock_handlers) s1 = Some s2"
    "s' = map_dtor sock_handlers (TCPServer_dtor srv s2)"
    by (auto simp: main_def split: option.splits)
  have e: "maps s2 sock_handlers = []"
    using l(1) loop_while_empty [of fuel hfuel os 60000 sock_handlers s1 s2]
    by (auto simp: loop_def map_size_def split: if_splits)
  have "s' = s2" using l(2) e c(2) by (simp add: TCPServer_dtor_def channel_erase_def map_dtor_def fun_upd_idem)
  with l e c show ?thesis by simp
qed

lemma socketless_main: "\<exists>s'. main 1 1 (good_os\<lparr>os_socket := \<lambda>h a b c. Inl EINVAL\<rparr>) start_world = Some s'"
  using TCPServer_ctor_without_socket [of "good_os\<lparr>os_socket := \<lambda>h a b c. Inl EINVAL\<rparr>" start_world EINVAL 7890 sock_handlers]
  by (fastforce simp: main_def loop_def map_size_def start_world_def)

theorem main_returns_with_no_handlers_witness:
  "\<exists>s'. main 1 1 (good_os\<lparr>os_socket := \<lambda>h a b c. Inl EINVAL\<rparr>) start_world = Some s' \<and> maps s' sock_handlers = []"
  using socketless_main main_returns_with_no_handlers by blast

subsection \<open>Descriptors beyond the set\<close>

lemma want_ub:
  "set (ub (snd x)) \<subseteq> set (ub (snd (want_read k b x)))" "set (ub (snd x)) \<subseteq> set (ub (snd (want_write k b x)))"
  "set (ub (snd x)) \<subseteq> set (ub (snd (want_expt k b x)))"
  by (auto simp: want_read_def want_write_def want_expt_def FD_SET_def split: prod.splits)

lemma select_args_ub: "set (ub (snd x)) \<subseteq> set (ub (snd (select_args m x)))"
proof (induction m x rule: select_args.induct)
  case (2 k p m a s)
  have "set (ub s) \<subseteq> set (ub (snd (a, touch p s)))" by (auto simp: touch_def)
  also note want_ub(1)
  also note want_ub(2)
  also note want_ub(3)
  also note 2 [OF refl refl refl]
  finally show ?case by (simp add: Let_def)
qed simp

text \<open>
  C30. A descriptor of 1024 or more does not fit into an \<open>fd_set\<close>. Nothing keeps such a connection
  out of the map, and the next round of the loop writes outside the set.
\<close>

theorem large_descriptor_overflows:
  assumes "(k, p) \<in> set m" "FD_SETSIZE \<le> k" "v_readable p (snd x)"
  shows "FdSetOverflow k \<in> set (ub (snd (select_args m x)))"
  using assms
proof (induction m x rule: select_args.induct)
  case (2 k' p' m a s)
  let ?x = "want_expt k' (v_readable p' (touch p' s) \<or> v_writable p' (touch p' s))
      (want_write k' (v_writable p' (touch p' s) \<and> \<not> BaseSocket_is_accepting p' (touch p' s))
        (want_read k' (v_readable p' (touch p' s)) (a, touch p' s)))"
  show ?case
  proof (cases "(k, p) = (k', p')")
    case True
    then have "FdSetOverflow k \<in> set (ub (snd (want_read k' (v_readable p' (touch p' s)) (a, touch p' s))))"
      using 2(3,4) v_ready_cong [of "touch p' s" s] by (simp add: want_read_def FD_SET_def)
    also note want_ub(2)
    also note want_ub(3)
    also note select_args_ub
    finally show ?thesis by (simp add: Let_def)
  next
    case False
    have "sys.more (snd ?x) = sys.more s" by (simp add: want_frame)
    then have "objs (snd ?x) = objs s" by (rule world_of_sys)
    with 2(4) have "v_readable p (snd ?x)" by (simp add: v_ready_cong(1) [of "snd ?x" s])
    with 2(1) [OF refl refl refl] False 2(2,3) show ?thesis by (auto simp: Let_def)
  qed
qed simp


theorem large_descriptor_overflows_witness:
  "FdSetOverflow 1024 \<in> set (ub (snd (select_args [(1024, 0)]
      (\<lparr>sel_r = [], sel_w = [], sel_e = [], select_socks = [], max_fd = 0\<rparr>, world_with (some_client\<lparr>o_sock := 1024\<rparr>)))))"
proof -
  let ?w = "world_with (some_client\<lparr>o_sock := 1024\<rparr>)"
  have "v_readable 0 ?w"
    by (simp add: v_readable_def VirusHandler_readable_def BaseSocket_socket_def world_with_def some_client_def
        blank_obj_def cp_socket_valid_def INVALID_SOCKET_def)
  then show ?thesis
    by (intro large_descriptor_overflows [of 1024 0]) (simp_all add: FD_SETSIZE_def)
qed

subsection \<open>Waiting\<close>

lemma select_args_trace: "trace (snd (select_args m x)) = trace (snd x)"
proof (induction m x rule: select_args.induct)
  case (2 k p m a s)
  have "trace (snd (want_read k b y)) = trace (snd y)" "trace (snd (want_write k b y)) = trace (snd y)"
    "trace (snd (want_expt k b y)) = trace (snd y)" for b y
    by (simp_all add: want_read_def want_write_def want_expt_def FD_SET_def case_prod_beta)
  with 2 [OF refl refl refl] show ?case by (simp add: Let_def)
qed simp

text \<open>A network on which nothing happens: \<open>select\<close> always times out.\<close>

definition net_idle :: "os \<Rightarrow> bool" where
  "net_idle os = (\<forall>h n r w e t. os_select os h n r w e t = Inr ([], [], []))"

lemma do_select_idle:
  assumes "net_idle os" "maps s mp \<noteq> []"
  shows "\<exists>s' ev. do_select fuel os t mp s = Some s' \<and> sys.more s' = sys.more s \<and> trace s' = trace s @ [ev]"
proof -
  let ?x = "(\<lparr>sel_r = [], sel_w = [], sel_e = [], select_socks = [], max_fd = 0\<rparr>, s)"
  obtain a s1 where sel: "select_args (maps s mp) ?x = (a, s1)" by (metis prod.exhaust)
  have "sys.more s1 = sys.more s" "trace s1 = trace s"
    using select_args_frame [of "maps s mp" ?x] select_args_trace [of "maps s mp" ?x] sel by simp_all
  then show ?thesis
    using assms sel by (simp add: do_select_def map_size_def sys_select_def net_idle_def sleep_ms_def Let_def)
qed

text \<open>
  C19. On an idle network a server with a registered socket goes on for as long as it is asked to:
  with a count the loop ends after exactly that many rounds, one \<open>select\<close> or sleep each, and
  with count 0 it never ends; the handlers stay as they are.
\<close>

theorem idle_server_keeps_waiting:
  assumes "net_idle os" "maps s mp \<noteq> []"
  shows "if count = 0 then loop fuel hfuel os t count (Some mp) s = None
    else \<exists>s'. loop fuel hfuel os t count (Some mp) s = Some s' \<and> length (trace s') = length (trace s) + unat count
      \<and> maps s' = maps s \<and> objs s' = objs s"
proof -
  have "loop_while fuel hfuel os t mp s = None"
    using assms(2)
  proof (induction fuel arbitrary: s)
    case (Suc fuel)
    obtain s1 where "do_select hfuel os t mp s = Some s1" "sys.more s1 = sys.more s"
      using do_select_idle [OF assms(1) Suc.prems] by blast
    with Suc.IH [of s1] Suc.prems world_of_sys(2) [of s1 s] show ?case by (simp add: map_size_def)
  qed simp
  moreover have "\<exists>s'. loop_count n hfuel os t mp s = Some s' \<and> length (trace s') = length (trace s) + n
      \<and> maps s' = maps s \<and> objs s' = objs s" for n
    using assms(2)
  proof (induction n arbitrary: s)
    case (Suc n)
    obtain s1 ev where s1: "do_select hfuel os t mp s = Some s1" "sys.more s1 = sys.more s" "trace s1 = trace s @ [ev]"
      using do_select_idle [OF assms(1) Suc.prems] by blast
    with Suc.IH [of s1] Suc.prems world_of_sys(1,2) [of s1 s] show ?case by (simp add: map_size_def)
  qed simp
  ultimately show ?thesis using assms(2) by (simp add: loop_def map_size_def)
qed

theorem idle_server_keeps_waiting_witness:
  "loop 9 9 good_os 60000 0 (Some 1) (world_with some_server) = None
    \<and> (\<exists>s'. loop 9 9 good_os 60000 3 (Some 1) (world_with some_server) = Some s' \<and> length (trace s') = 3)"
proof -
  have "net_idle good_os" "maps (world_with some_server) 1 \<noteq> []" "trace (world_with some_server) = []"
    by (simp_all add: net_idle_def good_os_def world_with_def start_world_def)
  with idle_server_keeps_waiting [OF this(1,2), of 0 9 9 60000] idle_server_keeps_waiting [OF this(1,2), of 3 9 9 60000]
  show ?thesis by auto
qed


end
