(* ===== verification/Store_Isolation.thy ===== *)
theory Store_Isolation
  imports Virus_Session
begin

text \<open>
  All sessions share one heap of caches, one table of streams and one directory of cache files.
  This theory shows that they do not disturb each other: the operations of a session touch the
  caches it holds and new ones, and leave the view every other session has of its own caches
  as it is. Two file caches collide when they are named in the same microsecond, so the clock
  has to advance between two readings. A name has room for finitely many readings, so this is
  a statement about the first \<open>10 ^ 26\<close> of them, and the number of readings is bounded too.
\<close>

subsection \<open>The clock\<close>

text \<open>
  The readings of the clock in a history, and a clock that does not show a time twice in the
  lifetime its range allows (seconds of twenty digits, microseconds of six).
\<close>

definition ticks :: "history \<Rightarrow> nat" where
  "ticks h = count_list h Ev_gettimeofday"

definition LIFETIME :: nat where
  "LIFETIME = 10 ^ 26"

definition clock_ticks :: "os \<Rightarrow> bool" where
  "clock_ticks os =
     ((\<forall>h. fst (os_gettimeofday os h) < 10 ^ 20 \<and> snd (os_gettimeofday os h) < 10 ^ 6) \<and>
      (\<forall>h h'. ticks h < ticks h' \<longrightarrow> ticks h' < LIFETIME \<longrightarrow>
         os_gettimeofday os h \<noteq> os_gettimeofday os h'))"

lemma ticks_simps [simp]:
  "ticks [] = 0" "ticks (h @ h') = ticks h + ticks h'"
  "ticks (e # h) = (if e = Ev_gettimeofday then 1 else 0) + ticks h"
  by (simp_all add: ticks_def)

lemma cache_path_inj:
  assumes "cache_path ''.'' (a, b) = cache_path ''.'' (c, d)"
    and "a < 10 ^ 20" "b < 10 ^ 6" "c < 10 ^ 20" "d < 10 ^ 6"
  shows "a = c \<and> b = d"
proof -
  have len: "length (dec_digits a) \<le> 20" "length (dec_digits b) \<le> 6"
    "length (dec_digits c) \<le> 20" "length (dec_digits d) \<le> 6"
    using dec_digits_length [of a 19] dec_digits_length [of b 5] dec_digits_length [of c 19]
      dec_digits_length [of d 5] assms(2-5) by simp_all
  have "cache_path ''.'' (x, y) = ''./cache_'' @ dec_digits x @ CHR ''_'' # dec_digits y"
    if "length (dec_digits x) \<le> 20" "length (dec_digits y) \<le> 6" for x y
    using that by (simp add: cache_path_def MAX_PATH_def)
  with assms(1) len show ?thesis by (intro digits_underscore_split) simp
qed

lemma clock_paths:
  assumes "clock_ticks os" "ticks h < ticks h'" "ticks h' < LIFETIME"
  shows "cache_path ''.'' (os_gettimeofday os h) \<noteq> cache_path ''.'' (os_gettimeofday os h')"
proof
  assume "cache_path ''.'' (os_gettimeofday os h) = cache_path ''.'' (os_gettimeofday os h')"
  moreover have "fst (os_gettimeofday os x) < 10 ^ 20" "snd (os_gettimeofday os x) < 10 ^ 6" for x
    using assms(1) by (auto simp: clock_ticks_def)
  ultimately have "os_gettimeofday os h = os_gettimeofday os h'"
    using cache_path_inj [of "fst (os_gettimeofday os h)" "snd (os_gettimeofday os h)"
        "fst (os_gettimeofday os h')" "snd (os_gettimeofday os h')"]
    by (simp add: prod_eq_iff)
  with assms show False by (simp add: clock_ticks_def)
qed

subsection \<open>Views and frames\<close>

text \<open>What a session can see of a cache: the cache itself and, for a file cache, its stream and file.\<close>

definition cache_view ::
  "nat \<Rightarrow> 'a cstate_scheme \<Rightarrow> (cache_t \<times> (stream option option \<times> byte list option) option) option"
where
  "cache_view q s =
     map_option (\<lambda>c. (c, if buf c = None
                         then Some (map_option (streams s) (wfp (p_priv c)), files s (path c)) else None))
       (caches s q)"

definition live :: "nat \<Rightarrow> 'a cstate_scheme \<Rightarrow> bool" where
  "live q s = (file_invar q s \<or> mem_invar q s)"

text \<open>A step from \<open>s\<close> to \<open>s'\<close> that keeps the view of every cache outside \<open>X\<close>.\<close>

definition keeps :: "nat set \<Rightarrow> 'a cstate_scheme \<Rightarrow> 'a cstate_scheme \<Rightarrow> bool" where
  "keeps X s s' = (\<forall>q. q \<notin> X \<longrightarrow> live q s \<longrightarrow> cache_view q s' = cache_view q s)"

definition cpath :: "nat \<Rightarrow> 'a cstate_scheme \<Rightarrow> string" where
  "cpath p s = (case caches s p of None \<Rightarrow> '''' | Some c \<Rightarrow> path c)"

text \<open>
  The store as the sessions need it: fresh addresses are unused, every cache is well-formed, every
  file cache is named by an earlier reading of the clock, and no two share a name.
\<close>

definition store_ok :: "os \<Rightarrow> 'a cstate_scheme \<Rightarrow> bool" where
  "store_ok os s =
     (heap_wf s \<and> (\<forall>q. caches s q \<noteq> None \<longrightarrow> live q s) \<and>
      (\<forall>p. file_invar p s \<longrightarrow>
         (\<exists>h. cpath p s = cache_path ''.'' (os_gettimeofday os h) \<and> ticks h < ticks (trace s))) \<and>
      (\<forall>p q. file_invar p s \<longrightarrow> file_invar q s \<longrightarrow> cpath p s = cpath q s \<longrightarrow> p = q))"

lemma cache_view_caches: "cache_view q s' = cache_view q s \<Longrightarrow> caches s' q = caches s q"
  by (cases "caches s q"; cases "caches s' q") (simp_all add: cache_view_def)

lemma cache_view_cong:
  assumes "cache_view q s' = cache_view q s"
  shows "file_invar q s' = file_invar q s" "mem_invar q s' = mem_invar q s"
    "cache_cap q s' = cache_cap q s" "cache_content q s' = cache_content q s"
    "cache_pending q s' = cache_pending q s" "cpath q s' = cpath q s"
proof -
  note c = cache_view_caches [OF assms]
  show "mem_invar q s' = mem_invar q s" "cache_cap q s' = cache_cap q s" "cpath q s' = cpath q s"
    by (simp_all add: c mem_invar_def cache_cap_def cpath_def)
  show "file_invar q s' = file_invar q s" "cache_content q s' = cache_content q s"
    using assms by (auto simp: cache_view_def c file_invar_def file_ok_def cache_content_def split: option.splits)
  then show "cache_pending q s' = cache_pending q s" by (simp only: c cache_pending_def)
qed

lemma live_cong: "cache_view q s' = cache_view q s \<Longrightarrow> live q s' = live q s"
  unfolding live_def using cache_view_cong(1,2) by metis

lemma live_in_use: "live q s \<Longrightarrow> caches s q \<noteq> None"
  by (auto simp: live_def file_invar_def mem_invar_def split: option.splits)

lemma file_view:
  assumes "file_invar q s"
  obtains c f where "caches s q = Some c" "buf c = None" "wfp (p_priv c) = Some f" "cpath q s = path c"
    "map_option st_path (streams s f) = Some (path c)"
    "cache_view q s = Some (c, Some (Some (streams s f), files s (path c)))"
  using assms by (elim file_invarE) (auto simp: cache_view_def cpath_def)

lemma keepsI:
  assumes "\<And>q. q \<notin> X \<Longrightarrow> live q s \<Longrightarrow> caches s' q = caches s q"
    and "\<And>q c f. q \<notin> X \<Longrightarrow> file_invar q s \<Longrightarrow> caches s q = Some c \<Longrightarrow> wfp (p_priv c) = Some f \<Longrightarrow>
      streams s' f = streams s f \<and> files s' (path c) = files s (path c)"
  shows "keeps X s s'"
  unfolding keeps_def
proof (intro allI impI)
  fix q assume q: "q \<notin> X" "live q s"
  note c = assms(1) [OF q]
  show "cache_view q s' = cache_view q s"
  proof (cases "file_invar q s")
    case True
    then show ?thesis
      by (rule file_view) (use assms(2) [OF q(1) True] c in \<open>auto simp: cache_view_def\<close>)
  next
    case False
    then have "mem_invar q s" using q by (simp add: live_def)
    then obtain d b where "caches s q = Some d" "buf d = Some b" by (rule mem_invarE)
    then show ?thesis using c by (simp add: cache_view_def)
  qed
qed

lemma keeps_refl: "keeps X s s"
  by (simp add: keeps_def)

lemma keeps_mono: "keeps X s s' \<Longrightarrow> X \<subseteq> Y \<Longrightarrow> keeps Y s s'"
  by (auto simp: keeps_def)

lemma keeps_live: "keeps X s s' \<Longrightarrow> live q s \<Longrightarrow> q \<notin> X \<Longrightarrow> live q s'"
  unfolding keeps_def using live_cong by metis

lemma keeps_trans:
  assumes "keeps X s s1" "keeps Y s1 s2" "Y \<subseteq> X \<union> {q. \<not> live q s}"
  shows "keeps X s s2"
  unfolding keeps_def
proof (intro allI impI)
  fix q assume q: "q \<notin> X" "live q s"
  then have v: "cache_view q s1 = cache_view q s" using assms(1) by (simp add: keeps_def)
  moreover have "q \<notin> Y" using q assms(3) by auto
  ultimately have "live q s1" "q \<notin> Y" using q(2) live_cong [OF v] by simp_all
  with v assms(2) show "cache_view q s2 = cache_view q s" by (simp add: keeps_def)
qed

text \<open>The caches a session holds.\<close>

definition held :: "session \<Rightarrow> nat set" where
  "held v = {q. hv_value (req v) = Some q \<or> Some q \<in> hv_value ` set (resp v)}"

lemma req_held: "hv_value (req v) = Some q \<Longrightarrow> q \<in> held v"
  by (simp add: held_def)

subsection \<open>What the operations touch\<close>

lemma store_ok_live: "store_ok os s \<Longrightarrow> caches s q \<noteq> None \<Longrightarrow> live q s"
  by (simp add: store_ok_def)

lemma store_ok_keep:
  assumes ok: "store_ok os s" and kp: "keeps X s s'" and tick: "ticks (trace s) \<le> ticks (trace s')"
    and wf: "heap_wf s'"
    and out: "\<And>q. q \<notin> X \<Longrightarrow> caches s' q \<noteq> None \<Longrightarrow> caches s q \<noteq> None"
    and inX: "\<And>q. q \<in> X \<Longrightarrow> caches s' q \<noteq> None \<Longrightarrow>
      mem_invar q s' \<or> file_invar q s' \<and> file_invar q s \<and> cpath q s' = cpath q s"
  shows "store_ok os s'"
proof -
  have v: "cache_view q s' = cache_view q s" if "q \<notin> X" "caches s' q \<noteq> None" for q
    using kp that store_ok_live [OF ok out [OF that]] by (simp add: keeps_def)
  have live: "live q s'" if "caches s' q \<noteq> None" for q
    using that inX [of q] v [of q] store_ok_live [OF ok out [of q]] live_cong [of q s' s]
    by (cases "q \<in> X") (auto simp: live_def)
  have fil: "file_invar q s \<and> cpath q s' = cpath q s" if "file_invar q s'" for q
  proof -
    from that have "caches s' q \<noteq> None" by (auto elim: file_invarE)
    with that inX [of q] v [of q] mem_file_disjoint [of q s' q] cache_view_cong [of q s' s] show ?thesis by blast
  qed
  show ?thesis
    using ok wf live tick fil unfolding store_ok_def by (metis order_less_le_trans)
qed

lemma store_ok_new:
  assumes ok: "store_ok os s" and clock: "clock_ticks os" "ticks (trace s) < LIFETIME" and kp: "keeps {} s s'"
    and tick: "ticks h = ticks (trace s)" "ticks (trace s) < ticks (trace s')"
    and new: "file_invar p s'" "cpath p s' = cache_path ''.'' (os_gettimeofday os h)" "heap_wf s'"
    and old: "\<And>q. q \<noteq> p \<Longrightarrow> caches s' q \<noteq> None \<Longrightarrow> caches s q \<noteq> None"
  shows "store_ok os s'"
proof -
  have v: "cache_view q s' = cache_view q s \<and> live q s" if "q \<noteq> p" "caches s' q \<noteq> None" for q
    using kp store_ok_live [OF ok old [OF that]] by (simp add: keeps_def)
  have live: "live q s'" if "caches s' q \<noteq> None" for q
    using that v [of q] live_cong [of q s' s] new(1) by (cases "q = p") (auto simp: live_def)
  have fil: "file_invar q s \<and> cpath q s' = cpath q s" if "q \<noteq> p" "file_invar q s'" for q
  proof -
    from that(2) have "caches s' q \<noteq> None" by (auto elim: file_invarE)
    with v [OF that(1)] that(2) cache_view_cong [of q s' s] show ?thesis by blast
  qed
  have past: "\<exists>h'. cpath q s = cache_path ''.'' (os_gettimeofday os h') \<and> ticks h' < ticks (trace s)"
    if "file_invar q s" for q
    using that ok by (simp add: store_ok_def)
  have ne: "cpath q s \<noteq> cpath p s'" if f: "file_invar q s" for q
  proof -
    obtain h' where "cpath q s = cache_path ''.'' (os_gettimeofday os h')" "ticks h' < ticks (trace s)"
      using past [OF f] by blast
    with clock_paths [OF clock(1), of h' h] clock(2) tick(1) new(2) show ?thesis by simp
  qed
  have "\<exists>h'. cpath q s' = cache_path ''.'' (os_gettimeofday os h') \<and> ticks h' < ticks (trace s')"
    if f: "file_invar q s'" for q
  proof (cases "q = p")
    case True
    with new(2) tick show ?thesis by auto
  next
    case False
    with past [of q] fil [OF False f] tick(2) show ?thesis by (metis order.strict_trans)
  qed
  moreover have "q = r" if "file_invar q s'" "file_invar r s'" "cpath q s' = cpath r s'" for q r
    using that fil [of q] fil [of r] ne [of q] ne [of r] ok unfolding store_ok_def by metis
  ultimately show ?thesis using new(3) live by (simp add: store_ok_def)
qed

lemma create_cache_file_ticks:
  assumes "create_cache os None cap TO_FILE s = (Some p, s')"
  shows "ticks (trace s') = Suc (ticks (trace s))"
  using assms
  by (auto simp: create_cache_def create_cache_file_def Let_def stdio_defs set_cache_def cache_dir_prefix_def
      split: if_splits prod.splits option.splits)

lemma file_streams_differ:
  assumes "store_ok os s" "file_invar p s" "file_invar q s" "p \<noteq> q"
    "caches s p = Some c" "wfp (p_priv c) = Some f" "caches s q = Some d" "wfp (p_priv d) = Some g"
  shows "f \<noteq> g \<and> path c \<noteq> path d"
proof -
  have "cpath p s \<noteq> cpath q s" using assms(1-4) by (auto simp: store_ok_def)
  then have ne: "path c \<noteq> path d" using assms by (simp add: cpath_def)
  moreover have "map_option st_path (streams s f) = Some (path c)" "map_option st_path (streams s g) = Some (path d)"
    using assms by (auto elim: file_view)
  ultimately show ?thesis by auto
qed

lemma create_file_confined:
  assumes ok: "store_ok os s" and clock: "clock_ticks os" "ticks (trace s) < LIFETIME" and cap: "unat cap < 2 ^ 63"
    and cr: "create_cache os None cap TO_FILE s = (Some p, s')"
  shows "store_ok os s'" "keeps {} s s'" "caches s p = None"
proof -
  define pth where "pth = cache_path ''.'' (os_gettimeofday os (creation_history s))"
  have wf: "heap_wf s" using ok by (simp add: store_ok_def)
  obtain j where s1: "s' = s\<lparr>trace := trace s', errno := errno s',
      files := (files s)(pth \<mapsto> write_at (unat cap - 1) [j] []),
      streams := (streams s)(next_fp s \<mapsto> \<lparr>st_path = pth, st_pos = 0\<rparr>),
      next_fp := Suc (next_fp s),
      caches := (caches s)(p \<mapsto> fresh_cache pth None cap (Some (next_fp s))),
      next_cache := Suc (next_cache s)\<rparr>"
    using create_cache_file_new(2) [OF cap cr, folded pth_def] by blast
  have p: "p = next_cache s" by (rule create_cache_file_new(1) [OF cap cr])
  have s': "caches s' = (caches s)(p \<mapsto> fresh_cache pth None cap (Some (next_fp s)))"
      "streams s' = (streams s)(next_fp s \<mapsto> \<lparr>st_path = pth, st_pos = 0\<rparr>)"
      "files s' = (files s)(pth \<mapsto> write_at (unat cap - 1) [j] [])"
    by (subst s1, simp)+
  show free: "caches s p = None" using wf p by (simp add: heap_wf_def)
  have tk: "ticks (creation_history s) = ticks (trace s)" by (simp add: creation_history_def)
  have ne: "cpath q s \<noteq> pth" if f: "file_invar q s" for q
  proof -
    obtain h where "cpath q s = cache_path ''.'' (os_gettimeofday os h)" "ticks h < ticks (trace s)"
      using f ok by (auto simp: store_ok_def)
    with clock_paths [OF clock(1), of h "creation_history s"] clock(2) tk show ?thesis by (simp add: pth_def)
  qed
  have st: "f \<noteq> next_fp s" "path c \<noteq> pth"
    if "file_invar q s" "caches s q = Some c" "wfp (p_priv c) = Some f" for q c f
  proof -
    from that(1) obtain d g where "caches s q = Some d" "wfp (p_priv d) = Some g"
      "map_option st_path (streams s g) = Some (path d)" by (rule file_view)
    with that wf show "f \<noteq> next_fp s" by (auto simp: heap_wf_def)
    show "path c \<noteq> pth" using ne [OF that(1)] that(2) by (simp add: cpath_def)
  qed
  show keep: "keeps {} s s'"
    using free st by (intro keepsI) (auto simp: s' dest: live_in_use)
  show "store_ok os s'"
    by (rule store_ok_new [OF ok clock keep tk _ create_cache_file_views(1) [OF cap cr] _
          create_cache_file_frame [OF cap cr wf]])
      (use create_cache_file_ticks [OF cr] s'(1) in \<open>auto simp: cpath_def fresh_cache_def pth_def\<close>)
qed


lemma file_push_confined:
  assumes ok: "store_ok os s" and inv: "file_invar p s" and d: "length d < 2 ^ 31"
  shows "store_ok os (snd (push_bytes os p d s))" "keeps {p} s (snd (push_bytes os p d s))"
proof -
  let ?s = "snd (push_bytes os p d s)"
  have wf: "heap_wf s" using ok by (simp add: store_ok_def)
  from inv obtain c f where c: "caches s p = Some c" "wfp (p_priv c) = Some f" by (rule file_view)
  have n: "unat (of_nat (length d) :: u32) = length d" using d by (intro unat_of_nat_u32) simp
  obtain m k g x pr where s': "?s = s\<lparr>trace := trace s @ [Ev_fwrite (path c) m k],
      files := (files s)(path c \<mapsto> g), streams := (streams s)(f \<mapsto> x), caches := (caches s)(p \<mapsto> c\<lparr>p_priv := pr\<rparr>)\<rparr>"
    using file_push_step [OF inv c(1), of "of_nat (length d)" d os, unfolded n, OF order_refl d] c(2)
    by (auto simp: push_bytes_def)
  have "f \<noteq> g \<and> path c \<noteq> path e" if "q \<noteq> p" "file_invar q s" "caches s q = Some e" "wfp (p_priv e) = Some g" for q e g
    using file_streams_differ [OF ok inv that(2) that(1) [symmetric] c that(3,4)] .
  then show keep: "keeps {p} s ?s"
    by (intro keepsI) (simp_all add: s', metis)
  show "store_ok os ?s"
    by (rule store_ok_keep [OF ok keep])
      (use inv file_sink.push_invar [OF inv d, of os] file_push_frame(3) [OF inv d, of os] wf in
        \<open>auto simp: s' cpath_def c(1) split: if_splits\<close>)
qed

lemma HV_clear_confined:
  assumes ok: "store_ok os s" and r: "req_wf r s"
  shows "store_ok os (snd (HV_clear r s))" "keeps {q. hv_value r = Some q} s (snd (HV_clear r s))"
    "hv_value (fst (HV_clear r s)) \<in> {hv_value r, None}"
proof -
  have wf: "heap_wf s" using ok by (simp add: store_ok_def)
  show "hv_value (fst (HV_clear r s)) \<in> {hv_value r, None}"
    by (auto simp: HV_clear_def Let_def split: option.splits)
  show "store_ok os (snd (HV_clear r s))" "keeps {q. hv_value r = Some q} s (snd (HV_clear r s))"
  proof (atomize (full), cases "(hv_to r = TO_FILE \<or> hv_to r = TO_SHM) \<and> hv_value r \<noteq> None")
    case False
    then show "store_ok os (snd (HV_clear r s)) \<and> keeps {q. hv_value r = Some q} s (snd (HV_clear r s))"
      using ok by (auto simp: HV_clear_def Let_def keeps_refl)
  next
    case True
    then obtain p where p: "hv_value r = Some p" "file_invar p s" using r by (auto simp: req_wf_def)
    from p(2) obtain c f where c: "caches s p = Some c" "wfp (p_priv c) = Some f"
      "map_option st_path (streams s f) = Some (path c)"
      by (rule file_view)
    have s': "snd (HV_clear r s) = s\<lparr>streams := (streams s)(f := None), caches := (caches s)(p := None)\<rparr>"
      using True p c by (auto simp: HV_clear_def Let_def leave_cache_def fclose_def)
    have "f \<noteq> g" if "q \<noteq> p" "file_invar q s" "caches s q = Some e" "wfp (p_priv e) = Some g" for q e g
      using file_streams_differ [OF ok p(2) that(2) that(1) [symmetric] c(1,2) that(3,4)] by simp
    then have keep: "keeps {q. hv_value r = Some q} s (snd (HV_clear r s))"
      by (intro keepsI) (auto simp: s' p(1))
    moreover have "store_ok os (snd (HV_clear r s))"
      by (rule store_ok_keep [OF ok keep]) (use wf in \<open>auto simp: s' p(1) heap_wf_def split: if_splits\<close>)
    ultimately show "store_ok os (snd (HV_clear r s)) \<and> keeps {q. hv_value r = Some q} s (snd (HV_clear r s))" by simp
  qed
qed


text \<open>The responses live in memory caches of their own.\<close>

lemma mem_ticks:
  "ticks (trace (snd (create_cache os d cap TO_MEM s))) = ticks (trace s)"
  "ticks (trace (snd (cache_push os p b n s))) = ticks (trace s)"
  "trace (leave_cache q s) = trace s" "ticks (trace (delete_cache q s)) = ticks (trace s)"
  by (auto simp: create_cache_def create_cache_buffer_def cache_push_def leave_cache_def delete_cache_def
      stdio_defs set_cache_def Let_def split: option.splits sum.splits)

lemma VH_response_ticks: "ticks (trace (snd (VH_response os v r st s))) = ticks (trace s)"
  by (auto simp: VH_response_def HV_write_message_def HV_uninit_def HV_new_def Let_def case_prod_beta
      mem_ticks split: option.splits)

text \<open>A turn of the read loop names at most one file.\<close>

lemma create_cache_ticks:
  "ticks (trace (snd (create_cache os d cap TO_FILE s))) \<le> Suc (ticks (trace s))"
  by (auto simp: create_cache_def create_cache_file_def Let_def stdio_defs set_cache_def mem_ticks(3)
      split: prod.splits option.splits sum.splits)

lemma HV_ticks:
  "ticks (trace (snd (HV_clear r s))) = ticks (trace s)"
  "ticks (trace (snd (snd (HV_write_head os r d n s)))) = ticks (trace s)"
  "ticks (trace (snd (snd (HV_write_value os r d n s)))) \<le> Suc (ticks (trace s))"
  using create_cache_ticks [of os None "ucast (hdr_length (hv_header r))" s]
  by (auto simp: HV_clear_def HV_write_head_def HV_write_value_def memcpy_header_def Let_def case_prod_beta
      mem_ticks split: option.splits)

lemma HV_write_ticks: "ticks (trace (snd (snd (HV_write os r d n s)))) \<le> Suc (ticks (trace s))"
  using HV_ticks(3) [of os "fst (snd (HV_write_head os r d n s))" _ _ "snd (snd (HV_write_head os r d n s))"]
  by (simp add: HV_write_def Let_def case_prod_beta HV_ticks(2,3))

lemma VH_response_new:
  assumes "alloc_ok os"
  obtains rsp s' where "VH_response os v r st s = (v\<lparr>resp := resp v @ [rsp]\<rparr>, s')"
    "hv_value rsp = Some (next_cache s)" "mem_invar (next_cache s) s'" "files s' = files s" "streams s' = streams s"
    "\<And>q. q \<noteq> next_cache s \<Longrightarrow> caches s' q = caches s q"
proof -
  have "hv_value (HV_uninit os s) = None" "unat sizeof_State = length (state_bytes st)"
    by (simp_all add: HV_uninit_def HV_new_def sizeof_State_def)
  with HV_write_message_ok [of "HV_uninit os s" "\<lparr>hdr_id = hdr_id (hv_header r), hdr_length = sizeof_State\<rparr>"
      "state_bytes st" os s] assms that show ?thesis
    by (auto simp: VH_response_def Let_def)
qed

lemma VH_response_confined:
  assumes ok: "store_ok os s" and env: "alloc_ok os" and ses: "session_ok v s"
    and rs: "VH_response os v r st s = (v', s')"
  shows "store_ok os s'" "keeps {} s s'" "req v' = req v" "held v' \<subseteq> held v \<union> {q. caches s q = None}"
proof -
  have wf: "heap_wf s" using ok by (simp add: store_ok_def)
  obtain rsp where s': "v' = v\<lparr>resp := resp v @ [rsp]\<rparr>" "hv_value rsp = Some (next_cache s)"
    "mem_invar (next_cache s) s'" "files s' = files s" "streams s' = streams s"
    "\<And>q. q \<noteq> next_cache s \<Longrightarrow> caches s' q = caches s q"
    using VH_response_new [OF env, of v r st s] rs by (metis Pair_inject)
  have free: "caches s (next_cache s) = None" using wf by (simp add: heap_wf_def)
  have wf': "heap_wf s'" using VH_response_ok [OF env wf ses, of r st] rs by auto
  show "req v' = req v" by (simp add: s'(1))
  show "held v' \<subseteq> held v \<union> {q. caches s q = None}"
    using s'(2) free by (auto simp: s'(1) held_def)
  have "q \<noteq> next_cache s" if "live q s" for q using live_in_use [OF that] free by metis
  then show keep: "keeps {} s s'" using s'(4-6) by (intro keepsI) auto
  then have "keeps {next_cache s} s s'" by (rule keeps_mono) simp
  then show "store_ok os s'"
    by (rule store_ok_keep [OF ok])
      (use VH_response_ticks [of os v r st s] rs s'(3,6) wf' in auto)
qed


subsection \<open>A session is confined to its caches\<close>

lemma HV_write_value_confined:
  assumes ok: "store_ok os s" and r: "head_complete r" "req_wf r s" and d: "d \<noteq> []" "length d < 2 ^ 31"
    and env: "disk_ok os" "alloc_ok os" "clock_ticks os" "ticks (trace s) < LIFETIME"
    and w: "HV_write_value os r (Some d) (int (length d)) s = (n, r', s')"
  shows "store_ok os s'" "keeps {q. hv_value r = Some q} s s'"
    "{q. hv_value r' = Some q} \<subseteq> {q. hv_value r = Some q} \<union> {q. caches s q = None}"
proof -
  obtain r1 s1 p where one: "r1 = r\<lparr>hv_value := Some p\<rparr>" "file_invar p s1" "store_ok os s1"
      "keeps {q. hv_value r = Some q} s s1" "hv_value r = Some p \<or> caches s p = None"
    and eq: "HV_write_value os r (Some d) (int (length d)) s =
      HV_write_value os r1 (Some d) (int (length d)) s1"
  proof (cases "hv_value r")
    case None
    obtain s1 where cr: "create_cache os None (ucast (hdr_length (hv_header r))) TO_FILE s =
        (Some (next_cache s), s1)"
      using create_cache_file_succeeds [OF env(1,2)] by blast
    have cap: "unat (ucast (hdr_length (hv_header r)) :: size_t) < 2 ^ 63"
      using unat_bound [of "hdr_length (hv_header r)"] by simp
    note c = create_file_confined [OF ok env(3,4) cap cr] and f = create_cache_file_views(1) [OF cap cr]
    with None r cr d show ?thesis
      by (intro that [of "r\<lparr>hv_value := Some (next_cache s)\<rparr>" "next_cache s" s1])
        (simp_all add: HV_write_value_def HV_is_head_complete_def)
  next
    case (Some p)
    then show ?thesis using r ok by (intro that [of r p s]) (simp_all add: req_wf_def keeps_refl)
  qed
  note fp = file_push_confined [OF one(3,2) d(2)]
  have hd: "head_complete r1" "hv_value r1 = Some p" using r one(1) by simp_all
  have s': "s' = snd (push_bytes os p d s1)" "hv_value r' = Some p"
    using w unfolding eq HV_write_value_cached [OF hd one(2) d] by (auto simp: HV_value_completed_def hd(2))
  show "store_ok os s'" using fp(1) s'(1) by simp
  show "keeps {q. hv_value r = Some q} s s'"
    using keeps_trans [OF one(4) fp(2)] one(5) s'(1) by (auto dest: live_in_use)
  show "{q. hv_value r' = Some q} \<subseteq> {q. hv_value r = Some q} \<union> {q. caches s q = None}"
    using s'(2) one(5) by auto
qed

lemma HV_write_confined:
  assumes ok: "store_ok os s" and r: "req_wf r s" "hv_aligned r" and d: "d \<noteq> []" "length d < 2 ^ 31"
    and env: "disk_ok os" "alloc_ok os" "clock_ticks os" "ticks (trace s) < LIFETIME"
    and w: "HV_write os r (Some d) (int (length d)) s = (n, r', s')"
  shows "store_ok os s' \<and> keeps {q. hv_value r = Some q} s s'
    \<and> {q. hv_value r' = Some q} \<subseteq> {q. hv_value r = Some q} \<union> {q. caches s q = None}"
proof (cases "hlen r = sizeof_Header")
  case True
  with HV_write_value_confined [OF ok _ r(1) d env] w r show ?thesis
    by (auto simp: HV_write_reading req_wf_def hv_inv_def)
next
  case False
  then have h: "hlen r = 0" "\<not> head_complete r" "\<not> value_complete r"
    using r by (auto simp: req_wf_def hv_inv_def hv_aligned_def)
  obtain k r1 where k: "k = min 8 (length d)"
    and eq: "HV_write os r (Some d) (int (length d)) s =
      (let (ret, r', s') = HV_write_value os r1 (Some (drop k d)) (int (length (drop k d))) s
       in if ret = -1 then (-1, r', s') else (int k + ret, r', s'))"
    and r1: "hlen r1 = int k" "head_complete r1 \<longleftrightarrow> k = 8" "hv_value r1 = hv_value r" "value_complete r1 = value_complete r"
    by (rule HV_write_from_start [OF h(1,2) d(1)])
  have req1: "req_wf r1 s"
    using r r1 k h by (auto simp: req_wf_def hv_inv_def sizeof_Header_def split: option.splits)
  obtain n' where v: "HV_write_value os r1 (Some (drop k d)) (int (length (drop k d))) s = (n', r', s')"
    using w eq by (auto simp: Let_def split: prod.splits if_splits)
  show ?thesis
  proof (cases "drop k d = []")
    case True
    then show ?thesis using v ok r1(3) by (auto simp: HV_write_value_def keeps_refl)
  next
    case ne: False
    then have "head_complete r1" using k r1(2) by auto
    moreover have "length (drop k d) < 2 ^ 31" using d(2) by simp
    ultimately show ?thesis
      using HV_write_value_confined [OF ok _ req1 ne _ env v] r1(3) by simp
  qed
qed

text \<open>
  A run from \<open>s\<close> to \<open>s'\<close> that takes the session from \<open>v\<close> to \<open>v'\<close>, keeps to the caches the session holds and
  to new ones, and names at most \<open>n\<close> files.
\<close>

definition confined ::
  "os \<Rightarrow> nat \<Rightarrow> session \<Rightarrow> 'a cstate_scheme \<Rightarrow> session \<Rightarrow> 'a cstate_scheme \<Rightarrow> bool"
where
  "confined os n v s v' s' =
     (store_ok os s' \<and> keeps (held v) s s' \<and> held v' \<subseteq> held v \<union> {q. \<not> live q s} \<and>
      ticks (trace s') \<le> ticks (trace s) + n)"

lemma confined_trans:
  assumes "confined os m v s u t" "confined os n u t v' s'"
  shows "confined os (m + n) v s v' s'"
proof -
  have t: "keeps (held v) s t" "held u \<subseteq> held v \<union> {q. \<not> live q s}" "keeps (held u) t s'"
    using assms by (simp_all add: confined_def)
  have "\<not> live q s" if "\<not> live q t" "q \<notin> held v" for q using that keeps_live [OF t(1)] by blast
  with assms keeps_trans [OF t(1,3,2)] show ?thesis by (auto simp: confined_def)
qed

lemma write_confined:
  assumes "store_ok os s" "req_wf (req v) s" "hv_aligned (req v)" "d \<noteq> []" "length d < 2 ^ 31"
    and "disk_ok os" "alloc_ok os" "clock_ticks os" "ticks (trace s) < LIFETIME"
    and "HV_write os (req v) (Some d) (int (length d)) s = (n, r, s')"
  shows "confined os 1 v s (v\<lparr>req := r\<rparr>) s'"
proof -
  note c = HV_write_confined [OF assms]
  have "ticks (trace s') \<le> Suc (ticks (trace s))"
    using HV_write_ticks [of os "req v" "Some d" "int (length d)" s] assms(10) by simp
  moreover have "keeps (held v) s s'" using c by (auto intro: keeps_mono simp: held_def)
  ultimately show ?thesis using c by (auto simp: confined_def held_def dest: live_in_use)
qed

lemma answer_confined:
  assumes ok: "store_ok os s" and r: "HV_is_complete (req v)" "req_wf (req v) s" and ses: "session_ok v s"
    and env: "alloc_ok os"
    and ans: "(let (r, s) = VH_request (req v) s in VH_response os (v\<lparr>req := r, vstate := OK\<rparr>) r OK s) = (u, s')"
  shows "confined os 0 v s u s' \<and> req_wf (req u) s' \<and> session_ok u s' \<and> hv_aligned (req u)"
proof -
  have wf: "heap_wf s" using ok by (simp add: store_ok_def)
  obtain r2 s2 where rq: "VH_request (req v) s = (r2, s2)" "req_wf r2 s2" "heap_wf s2" "clean s s2" "hlen r2 = 0"
    using VH_request_wf [OF r(1,2) wf] by blast
  note c2 = HV_clear_confined [OF ok r(2), folded VH_request_def, unfolded rq(1) fst_conv snd_conv]
  let ?v = "v\<lparr>req := r2, vstate := OK\<rparr>"
  have sv: "session_ok ?v s2" using session_cong(1) [OF _ ses, of s2] rq(4) by (simp add: clean_def)
  have rs: "VH_response os ?v r2 OK s2 = (u, s')" using ans rq(1) by simp
  note wf3 = VH_response_wf [of ?v, OF _ env rq(3) sv, of r2 OK]
  have c3: "store_ok os s'" "keeps {} s2 s'" "req u = r2" "held u \<subseteq> held ?v \<union> {q. caches s2 q = None}"
    using VH_response_confined [OF _ env sv rs] c2 by auto
  have kp: "keeps (held v) s s2" using c2(2) by (rule keeps_mono) (auto simp: held_def)
  have "held ?v \<subseteq> held v" using c2(3) by (auto simp: held_def)
  moreover have "\<not> live q s" if "caches s2 q = None" "q \<notin> held v" for q
    using that kp keeps_live live_in_use by blast
  ultimately have "held u \<subseteq> held v \<union> {q. \<not> live q s}" using c3(4) by blast
  moreover have "ticks (trace s') = ticks (trace s)"
    using HV_ticks(1) [of "req v" s] VH_response_ticks [of os ?v r2 OK s2] rq(1) rs by (simp add: VH_request_def)
  ultimately have "confined os 0 v s u s'" using c3(1) keeps_trans [OF kp c3(2)] by (simp add: confined_def)
  then show ?thesis using wf3 rq(2,5) rs c3(3) by (auto simp: hv_aligned_def)
qed

lemma VH_read_loop_confined:
  assumes "store_ok os s" "req_wf (req v) s" "session_ok v s" "hv_aligned (req v)" "disk_ok os" "alloc_ok os" "clock_ticks os"
    and "inp \<noteq> []" "length inp < 2 ^ 31" "ticks (trace s) + fuel \<le> LIFETIME"
    and "VH_read_loop fuel os inp (int (length inp)) v s = Some (v', s')"
  shows "confined os fuel v s v' s'"
  using assms
proof (induction fuel arbitrary: inp v s)
  case (Suc fuel)
  note env = Suc.prems(5,6)
  have wf: "heap_wf s" using Suc.prems(1) by (simp add: store_ok_def)
  have now: "ticks (trace s) < LIFETIME" using Suc.prems(10) by simp
  obtain w r s1 where w: "HV_write os (req v) (Some inp) (int (length inp)) s = (int w, r, s1)"
    "w \<le> length inp" "req_wf r s1" "heap_wf s1" "clean s s1" "w < length inp \<longrightarrow> hv_aligned r"
    using HV_write_progress [OF Suc.prems(2,4,8,9) env wf] by blast
  let ?v = "v\<lparr>req := r\<rparr>"
  have c1: "confined os 1 v s ?v s1" by (rule write_confined [OF Suc.prems(1,2,4,8,9,5-7) now w(1)])
  have s1: "store_ok os s1" "session_ok ?v s1" "req_wf (req ?v) s1"
    using c1 session_cong(1) [OF _ Suc.prems(3), of s1] w(3,5) by (simp_all add: confined_def clean_def)
  have step: ?case
    if c: "confined os 1 v s u t" "req_wf (req u) t" "session_ok u t" "w < length inp \<Longrightarrow> hv_aligned (req u)"
      and rest: "(if drop w inp = [] then Some (u, t)
        else VH_read_loop fuel os (drop w inp) (int (length (drop w inp))) u t) = Some (v', s')" for u t
  proof (cases "drop w inp = []")
    case True
    then show ?thesis using c(1) rest by (auto simp: confined_def)
  next
    case False
    have "store_ok os t" "ticks (trace t) + fuel \<le> LIFETIME" "length (drop w inp) < 2 ^ 31"
      using c(1) Suc.prems(9,10) by (simp_all add: confined_def)
    then have "confined os fuel u t v' s'"
      using Suc.IH [OF _ c(2,3) _ env Suc.prems(7) False] rest False c(4) by simp
    from confined_trans [OF c(1) this] show ?thesis by simp
  qed
  show ?case
  proof (cases "HV_is_complete r")
    case False
    show ?thesis
      by (rule step [OF c1 s1(3,2) _ Suc.prems(11) [unfolded VH_read_loop_partial [OF Suc.prems(4) w(1) False w(2)]]])
        (use w(6) in simp)
  next
    case True
    obtain u s3 where fin: "(let (r, s) = VH_request r s1 in VH_response os (v\<lparr>req := r, vstate := OK\<rparr>) r OK s) = (u, s3)"
      by (rule prod.exhaust)
    then have a: "confined os 0 ?v s1 u s3 \<and> req_wf (req u) s3 \<and> session_ok u s3 \<and> hv_aligned (req u)"
      using True by (intro answer_confined [OF s1(1) _ s1(3,2) env(2)]) simp_all
    have "confined os 1 v s u s3" using confined_trans [OF c1 a [THEN conjunct1]] by simp
    then show ?thesis
      by (rule step [OF _ _ _ _ Suc.prems(11) [unfolded VH_read_loop_complete [OF Suc.prems(4) w(1) True w(2) fin]]])
        (use a in simp_all)
  qed
qed simp


subsection \<open>Storage makes no network call\<close>

fun net_event :: "event \<Rightarrow> bool" where
  "net_event Ev_gettimeofday = False"
| "net_event (Ev_fopen p b) = False"
| "net_event (Ev_fwrite p n m) = False"
| "net_event (Ev_malloc n b) = False"
| "net_event (Ev_calloc n b) = False"
| "net_event _ = True"

definition net_trace :: "'a sys_scheme \<Rightarrow> history" where
  "net_trace s = filter net_event (trace s)"

lemma net_trace_stdio [frame_simps]:
  "net_trace (snd (fopen_wb os f s)) = net_trace s"
  "net_trace (snd (fseek_set fp off s)) = net_trace s"
  "net_trace (snd (fwrite os bs fp s)) = net_trace s"
  "net_trace (fclose fp s) = net_trace s"
  "net_trace (snd (fread n fp s)) = net_trace s"
  "net_trace (remove_file f s) = net_trace s"
  by (simp_all add: net_trace_def stdio_defs Let_def split: option.splits)

lemma net_trace_sys [simp]:
  "net_event ev \<Longrightarrow> net_trace (emit ev s) = net_trace s @ [ev]"
  "\<not> net_event ev \<Longrightarrow> net_trace (emit ev s) = net_trace s"
  "net_trace (fault f s) = net_trace s" "net_trace (s\<lparr>trace := trace s @ h\<rparr>) = net_trace s @ filter net_event h"
  by (simp_all add: net_trace_def)

lemma net_trace_update [simp]: "net_trace (set_cache p c s) = net_trace s"
  "net_trace (s\<lparr>caches := C\<rparr>) = net_trace s" "net_trace (s\<lparr>next_cache := i\<rparr>) = net_trace s"
  "net_trace (s\<lparr>ub := u\<rparr>) = net_trace s"
  by (simp_all add: net_trace_def set_cache_def)

lemma net_trace_cache [frame_simps]:
  "net_trace (snd (create_cache_buffer os p s)) = net_trace s"
  "net_trace (snd (create_cache_file os p s)) = net_trace s"
  "net_trace (leave_cache q s) = net_trace s"
  "net_trace (delete_cache q s) = net_trace s"
  "net_trace (snd (cache_push os p d n s)) = net_trace s"
  "net_trace (snd (snd (cache_pop p sz s))) = net_trace s"
  by (simp_all add: create_cache_buffer_def create_cache_file_def leave_cache_def delete_cache_def
      cache_push_def cache_pop_def Let_def case_prod_beta net_trace_stdio
      del: emit_def fault_def split: option.splits)

lemma net_trace_create [frame_simps]: "net_trace (snd (create_cache os d cap to s)) = net_trace s"
  by (simp add: create_cache_def Let_def case_prod_beta net_trace_cache del: emit_def fault_def
      split: option.splits sum.splits storage_to.splits)

lemma net_trace_hv [frame_simps]:
  "net_trace (snd (HV_clear hv s)) = net_trace s"
  "net_trace (snd (snd (HV_write_head os hv d n s))) = net_trace s"
  "net_trace (snd (snd (HV_write_value os hv d n s))) = net_trace s"
  "net_trace (snd (snd (HV_write_message os hv h v s))) = net_trace s"
  by (simp_all add: HV_clear_def HV_write_head_def HV_write_value_def HV_write_message_def
      memcpy_header_def Let_def case_prod_beta net_trace_cache net_trace_create del: fault_def split: option.splits)

lemma net_trace_write [frame_simps]: "net_trace (snd (snd (HV_write os hv d n s))) = net_trace s"
  by (simp add: HV_write_def Let_def case_prod_beta net_trace_hv)

lemma net_trace_response [frame_simps]: "net_trace (snd (VH_response os v r st s)) = net_trace s"
  by (simp add: VH_response_def Let_def case_prod_beta net_trace_hv)

lemma VH_read_loop_net_trace: "VH_read_loop fuel os d n v s = Some (v', s') \<Longrightarrow> net_trace s' = net_trace s"
proof (induction fuel arbitrary: d n v s)
  case (Suc fuel)
  from Suc.prems show ?case
    by (auto simp: VH_read_loop.simps(2) Let_def case_prod_beta VH_request_def
        dest!: Suc.IH split: if_splits)
       (metis net_trace_response net_trace_hv(1) net_trace_write snd_conv)+
qed simp

end
