(* ===== verification/Served_Clients.thy ===== *)
theory Served_Clients
  imports Client_Service Store_Isolation "HOL-Library.Sublist"
begin

text \<open>
  The server as a whole: any number of clients, served in whatever order \<open>select\<close> reports them.
  The specification of a connection is its conversation, read off the history of the process: the
  buffers received and the bytes sent since the socket was accepted. The service invariant
  says that every registered client is answered what its conversation asks for, and that the
  clients share nothing; it is carried through the construction of the server and every
  round of the event loop.
\<close>

subsection \<open>Conversations\<close>

fun rcvd_step :: "cp_socket_t \<Rightarrow> byte list list \<Rightarrow> event \<Rightarrow> byte list list" where
  "rcvd_step k acc (Ev_accept l c) = (if c = k then [] else acc)"
| "rcvd_step k acc (Ev_recv c n fl (Some d)) = (if c = k then acc @ [d] else acc)"
| "rcvd_step k acc _ = acc"

definition rcvd :: "cp_socket_t \<Rightarrow> history \<Rightarrow> byte list list" where
  "rcvd k h = foldl (rcvd_step k) [] h"

fun answered_step :: "cp_socket_t \<Rightarrow> byte list \<Rightarrow> event \<Rightarrow> byte list" where
  "answered_step k acc (Ev_accept l c) = (if c = k then [] else acc)"
| "answered_step k acc (Ev_send c bs fl r) = (if c = k then acc @ take (nat r) bs else acc)"
| "answered_step k acc _ = acc"

definition answered :: "cp_socket_t \<Rightarrow> history \<Rightarrow> byte list" where
  "answered k h = foldl (answered_step k) [] h"

text \<open>The descriptors the process has open.\<close>

fun open_step :: "cp_socket_t set \<Rightarrow> event \<Rightarrow> cp_socket_t set" where
  "open_step A (Ev_socket af ty pr k) = (if k = INVALID_SOCKET then A else insert k A)"
| "open_step A (Ev_accept l k) = (if k = INVALID_SOCKET then A else insert k A)"
| "open_step A (Ev_close k) = A - {k}"
| "open_step A _ = A"

definition open_fds :: "history \<Rightarrow> cp_socket_t set" where
  "open_fds h = foldl open_step {} h"

text \<open>What a history says about the network does not depend on the storage calls in it.\<close>

lemma step_storage:
  "\<not> net_event e \<Longrightarrow> rcvd_step k acc e = acc" "\<not> net_event e \<Longrightarrow> answered_step k bs e = bs"
  "\<not> net_event e \<Longrightarrow> open_step A e = A"
  by (cases e; simp)+

lemma foldl_filter:
  assumes "\<And>acc e. \<not> P e \<Longrightarrow> f acc e = acc"
  shows "foldl f acc (filter P h) = foldl f acc h"
  by (induction h arbitrary: acc) (simp_all add: assms)

lemma net_views:
  assumes "net_trace s' = net_trace s"
  shows "rcvd k (trace s') = rcvd k (trace s)" "answered k (trace s') = answered k (trace s)"
    "open_fds (trace s') = open_fds (trace s)"
proof -
  note f = assms [unfolded net_trace_def]
  have fl: "foldl g acc (trace s') = foldl g acc (trace s)" if "\<And>acc e. \<not> net_event e \<Longrightarrow> g acc e = acc" for g acc
    using foldl_filter [of net_event g acc "trace s'"] foldl_filter [of net_event g acc "trace s"] that f by metis
  show "rcvd k (trace s') = rcvd k (trace s)" unfolding rcvd_def by (rule fl) (rule step_storage)
  show "answered k (trace s') = answered k (trace s)" unfolding answered_def by (rule fl) (rule step_storage)
  show "open_fds (trace s') = open_fds (trace s)" unfolding open_fds_def by (rule fl) (rule step_storage)
qed

lemma views_append:
  "rcvd k (h @ [e]) = rcvd_step k (rcvd k h) e" "answered k (h @ [e]) = answered_step k (answered k h) e"
  "open_fds (h @ [e]) = open_step (open_fds h) e"
  by (simp_all add: rcvd_def answered_def open_fds_def)

lemma foldl_idle: "\<forall>e \<in> set g. \<forall>acc. f acc e = acc \<Longrightarrow> foldl f acc g = acc"
  by (induction g arbitrary: acc) auto

lemma views_setup:
  assumes "sets_up k g"
  shows "rcvd j (h @ g) = rcvd j h" "answered j (h @ g) = answered j h" "open_fds (h @ g) = open_fds h"
proof -
  have "rcvd_step j acc e = acc \<and> answered_step j bs e = bs \<and> open_step A e = A" if "setup_event k e" for e acc bs A
    using that by (induction k e rule: setup_event.induct) simp_all
  with assms show "rcvd j (h @ g) = rcvd j h" "answered j (h @ g) = answered j h" "open_fds (h @ g) = open_fds h"
    by (simp_all add: rcvd_def answered_def open_fds_def foldl_idle sets_up_def)
qed

lemma views_accept:
  assumes "sets_up k g"
  shows "rcvd j (h @ Ev_accept l k # g) = (if j = k then [] else rcvd j h)"
    "answered j (h @ Ev_accept l k # g) = (if j = k then [] else answered j h)"
    "open_fds (h @ Ev_accept l k # g) = (if k = INVALID_SOCKET then open_fds h else insert k (open_fds h))"
  using views_setup(1,2) [OF assms, of j "h @ [Ev_accept l k]"] views_setup(3) [OF assms, of "h @ [Ev_accept l k]"] by (simp_all add: views_append)

lemma views_sends:
  assumes "only_sends k h h'"
  shows "rcvd j h' = rcvd j h" "open_fds h' = open_fds h" "j \<noteq> k \<Longrightarrow> answered j h' = answered j h"
    "\<exists>bs. sent_on k h' = sent_on k h @ bs \<and> answered k h' = answered k h @ bs"
proof -
  obtain g where g: "h' = h @ g" "\<forall>e \<in> set g. \<exists>b n. e = Ev_send k b 0 n" using assms by (auto simp: only_sends_def)
  then have "rcvd_step j acc e = acc \<and> open_step A e = A \<and> (j \<noteq> k \<longrightarrow> answered_step j bs e = bs)" if "e \<in> set g" for e acc bs A
    using that by fastforce
  then show "rcvd j h' = rcvd j h" "open_fds h' = open_fds h" "j \<noteq> k \<Longrightarrow> answered j h' = answered j h"
    by (simp_all add: g(1) rcvd_def answered_def open_fds_def foldl_idle)
  have "foldl (answered_step k) acc g = acc @ sent_on k g" for acc
    using g(2) by (induction g arbitrary: acc) auto
  then show "\<exists>bs. sent_on k h' = sent_on k h @ bs \<and> answered k h' = answered k h @ bs"
    by (simp add: g(1) answered_def)
qed


subsection \<open>The service invariant\<close>

text \<open>
  A client is served: its handler implements the receiver state its conversation leads to, has
  sent the answers to its first \<open>n\<close> requests, and holds the answers to the others.
\<close>

definition served :: "cp_socket_t \<Rightarrow> nat \<Rightarrow> world \<Rightarrow> bool" where
  "served k p s =
     (\<exists>ms a n. n \<le> length ms \<and> client_ok p k a s \<and> rx_run Rx_idle (rcvd k (trace s)) = Some (ms, a) \<and>
        answered k (trace s) = concat (answers (take n ms)) \<and>
        wires (o_session (objs s p)) s = answers (drop n ms))"

definition listens :: "cp_socket_t \<Rightarrow> nat \<Rightarrow> world \<Rightarrow> bool" where
  "listens l p s = (o_alive (objs s p) \<and> o_class (objs s p) = Cls_TCPServerImpl \<and> o_accepting (objs s p))"

abbreviation holds :: "nat \<Rightarrow> world \<Rightarrow> nat set" where
  "holds p s \<equiv> held (o_session (objs s p))"

definition serving :: "os \<Rightarrow> cp_socket_t \<Rightarrow> nat \<Rightarrow> world \<Rightarrow> bool" where
  "serving os l mp s =
     (reg_ok s \<and> store_ok os s \<and>
      (\<exists>p. map_find l (maps s mp) = Some p \<and> listens l p s) \<and>
      (\<forall>k p. map_find k (maps s mp) = Some p \<longrightarrow> 0 < k \<and> k < FD_SETSIZE \<and> k \<in> open_fds (trace s)) \<and>
      (\<forall>k p. map_find k (maps s mp) = Some p \<longrightarrow> k \<noteq> l \<longrightarrow> served k p s) \<and>
      (\<forall>k p j q. map_find k (maps s mp) = Some p \<longrightarrow> map_find j (maps s mp) = Some q \<longrightarrow>
         k \<noteq> l \<longrightarrow> j \<noteq> l \<longrightarrow> k \<noteq> j \<longrightarrow> holds p s \<inter> holds q s = {}))"

lemma client_holds_live:
  assumes "client_ok p k a s" "q \<in> holds p s"
  shows "live q s"
proof -
  have "hv_value (req (o_session (objs s p))) = Some q \<Longrightarrow> file_invar q s"
    using assms(1) by (cases a) (auto simp: client_ok_def hv_reading_def)
  moreover have "Some q \<in> hv_value ` set (resp (o_session (objs s p))) \<Longrightarrow> mem_invar q s"
    using assms(1) by (auto simp: client_ok_def session_ok_def resp_ok_def split: option.splits)
  ultimately show ?thesis using assms(2) by (auto simp: held_def live_def)
qed

text \<open>A step confined to other caches leaves a client as it was.\<close>

lemma client_ok_keeps:
  assumes c: "client_ok p k a s" and kp: "keeps X s s'" "holds p s \<inter> X = {}"
    and same: "objs s' p = objs s p" "heap_wf s'"
  shows "client_ok p k a s'" "wires (o_session (objs s' p)) s' = wires (o_session (objs s p)) s"
proof -
  let ?v = "o_session (objs s p)"
  have v: "cache_view q s' = cache_view q s" if "q \<in> holds p s" for q
    using kp that client_holds_live [OF c that] by (auto simp: keeps_def)
  have "rx_sim (req ?v) s' a"
  proof (cases a)
    case Rx_idle
    then show ?thesis using c by (simp add: client_ok_def)
  next
    case (Rx_body i n got)
    then have rd: "hv_header (req ?v) = \<lparr>hdr_id = i, hdr_length = n\<rparr>" "hv_to (req ?v) = TO_FILE"
      "hv_reading (req ?v) s got" using c by (simp_all add: client_ok_def)
    have "hv_reading (req ?v) s' got"
    proof (cases "hv_value (req ?v)")
      case None
      then show ?thesis using rd(3) by (simp add: hv_reading_def)
    next
      case (Some q)
      note eq = cache_view_cong(1,3,4) [OF v [OF req_held [OF Some]]]
      from rd(3) show ?thesis unfolding hv_reading_def Some option.case eq .
    qed
    then show ?thesis using Rx_body rd by simp
  qed
  moreover have r: "resp_ok h s' \<and> resp_wire h s' = resp_wire h s" if h: "h \<in> set (resp ?v)" for h
  proof -
    obtain q where q: "hv_value h = Some q" "mem_invar q s"
      using h c by (auto simp: client_ok_def session_ok_def resp_ok_def split: option.splits)
    then have "q \<in> holds p s" using h by (force simp: held_def)
    from cache_view_cong(2,5) [OF v [OF this]] q show ?thesis by (simp add: resp_ok_def resp_wire_def)
  qed
  ultimately show "client_ok p k a s'" "wires (o_session (objs s' p)) s' = wires (o_session (objs s p)) s"
    using c same by (auto simp: client_ok_def session_ok_def wires_def)
qed

lemma served_keeps:
  assumes "served k p s" "keeps X s s'" "holds p s \<inter> X = {}" "objs s' p = objs s p" "heap_wf s'"
    and "rcvd k (trace s') = rcvd k (trace s)" "answered k (trace s') = answered k (trace s)"
  shows "served k p s'"
  using assms(1) client_ok_keeps [OF _ assms(2-5)] unfolding served_def assms(6,7) by metis

text \<open>
  The effect of an event on the client of socket \<open>k\<close>: nothing but its own object, its own caches
  and its own conversation changes.
\<close>

definition client_step :: "os \<Rightarrow> cp_socket_t \<Rightarrow> nat \<Rightarrow> world \<Rightarrow> world \<Rightarrow> bool" where
  "client_step os k p s s' =
     (maps s' = maps s \<and> next_obj s' = next_obj s \<and> (\<forall>q. q \<noteq> p \<longrightarrow> objs s' q = objs s q) \<and>
      (\<exists>v. objs s' p = (objs s p)\<lparr>o_session := v\<rparr>) \<and>
      store_ok os s' \<and> keeps (holds p s) s s' \<and> holds p s' \<subseteq> holds p s \<union> {q. \<not> live q s} \<and>
      open_fds (trace s') = open_fds (trace s) \<and>
      (\<forall>j. j \<noteq> k \<longrightarrow> rcvd j (trace s') = rcvd j (trace s) \<and> answered j (trace s') = answered j (trace s)) \<and>
      prefix (rcvd k (trace s)) (rcvd k (trace s')) \<and> prefix (answered k (trace s)) (answered k (trace s')) \<and>
      served k p s')"

lemma reg_unique_key:
  assumes "reg_ok s" "map_find k (maps s mp) = Some p" "map_find j (maps s mp) = Some q" "k \<noteq> j"
  shows "p \<noteq> q"
  using reg_ok_unique [OF assms(1,2), of j mp] assms(3,4) by auto

text \<open>Such an event keeps the other clients served and the caches of all of them apart.\<close>

lemma client_step_frame:
  assumes s: "serving os l mp s" and k: "map_find k (maps s mp) = Some p" "k \<noteq> l"
    and st: "client_step os k p s s'" and j: "map_find j (maps s mp) = Some q" "j \<noteq> k"
  shows "objs s' q = objs s q" "j \<noteq> l \<Longrightarrow> served j q s'" "j \<noteq> l \<Longrightarrow> holds p s' \<inter> holds q s' = {}"
proof -
  have "reg_ok s" using s by (simp add: serving_def)
  then have "q \<noteq> p" using reg_unique_key [OF _ k(1) j(1)] j(2) by auto
  then show o: "objs s' q = objs s q" using st by (simp add: client_step_def)
  assume l: "j \<noteq> l"
  have sv: "served j q s" and dis: "holds p s \<inter> holds q s = {}"
    using s k j l unfolding serving_def by blast+
  have f: "keeps (holds p s) s s'" "heap_wf s'" "holds p s' \<subseteq> holds p s \<union> {q. \<not> live q s}"
    "rcvd j (trace s') = rcvd j (trace s)" "answered j (trace s') = answered j (trace s)"
    using st j(2) by (simp_all add: client_step_def store_ok_def)
  show "served j q s'" using served_keeps [OF sv f(1) _ o f(2,4,5)] dis by blast
  have "live x s" if "x \<in> holds q s" for x using sv client_holds_live that by (auto simp: served_def)
  then show "holds p s' \<inter> holds q s' = {}" using f(3) dis o by auto
qed

lemma client_step_registry:
  assumes "reg_ok s" "client_step os k p s s'"
  shows "reg_ok s'" "listens l q s' = listens l q s"
proof -
  from assms(2) obtain v where f: "maps s' = maps s" "next_obj s' = next_obj s" "\<And>q. q \<noteq> p \<Longrightarrow> objs s' q = objs s q"
    "objs s' p = (objs s p)\<lparr>o_session := v\<rparr>"
    by (auto simp: client_step_def)
  have upd: "objs s' q = (if q = p then (objs s p)\<lparr>o_session := v\<rparr> else objs s q)" for q
    using f(3,4) by simp
  have o: "o_alive (objs s' q) = o_alive (objs s q)" "o_sock (objs s' q) = o_sock (objs s q)"
    "o_handlers (objs s' q) = o_handlers (objs s q)" "o_class (objs s' q) = o_class (objs s q)"
    "o_accepting (objs s' q) = o_accepting (objs s q)" for q
    by (simp_all add: upd)
  show "reg_ok s'" using assms(1) by (simp add: reg_ok_def reg_entry_def f(1,2) o)
  show "listens l q s' = listens l q s" by (simp add: listens_def o)
qed

lemma serving_client_step:
  assumes s: "serving os l mp s" and k: "map_find k (maps s mp) = Some p" "k \<noteq> l"
    and st: "client_step os k p s s'"
  shows "serving os l mp s'"
proof -
  have reg: "reg_ok s" using s by (simp add: serving_def)
  note r = client_step_registry [OF reg st] and fr = client_step_frame [OF s k st]
  have f: "maps s' = maps s" "store_ok os s'" "open_fds (trace s') = open_fds (trace s)" "served k p s'"
    using st by (simp_all add: client_step_def)
  have sv: "served j q s'" if "map_find j (maps s mp) = Some q" "j \<noteq> l" for j q
    using fr(2) [OF that(1)] that f(4) k(1) by (cases "j = k") simp_all
  have "holds q s' \<inter> holds r s' = {}"
    if m: "map_find i (maps s mp) = Some q" "map_find j (maps s mp) = Some r" "i \<noteq> l" "j \<noteq> l" "i \<noteq> j" for i j q r
  proof -
    have d: "holds q s \<inter> holds r s = {}" using s m unfolding serving_def by blast
    consider "i = k" | "j = k" | "i \<noteq> k" "j \<noteq> k" by blast
    then show ?thesis
    proof cases
      case 1
      with fr(3) [OF m(2)] m k show ?thesis by auto
    next
      case 2
      with fr(3) [OF m(1)] m k show ?thesis by auto
    next
      case 3
      with d fr(1) [OF m(1)] fr(1) [OF m(2)] show ?thesis by simp
    qed
  qed
  with s r f sv show ?thesis unfolding serving_def by (simp only: f(1,3)) blast
qed


subsection \<open>Fuel\<close>

text \<open>A run that ends does not depend on the fuel, as long as there is enough of it.\<close>

lemma VH_read_loop_fuel:
  "VH_read_loop f os d n v s = Some x \<Longrightarrow> f \<le> f' \<Longrightarrow> VH_read_loop f' os d n v s = Some x"
proof (induction f arbitrary: f' d n v s)
  case (Suc f)
  then obtain g where "f' = Suc g" "f \<le> g" by (cases f') auto
  with Suc show ?case by (auto simp: VH_read_loop.simps(2) Let_def case_prod_beta split: if_splits)
qed simp

lemma VirusHandler_send_value_fuel:
  "VirusHandler_send_value f os vc p c s = Some x \<Longrightarrow> f \<le> f' \<Longrightarrow> VirusHandler_send_value f' os vc p c s = Some x"
proof (induction f arbitrary: f' s)
  case (Suc f)
  then obtain g where "f' = Suc g" "f \<le> g" by (cases f') auto
  with Suc show ?case by (auto simp: VirusHandler_send_value.simps(2) Let_def case_prod_beta split: if_splits)
qed simp

lemma VirusHandler_handle_write_fuel:
  "VirusHandler_handle_write f os vc p s = Some x \<Longrightarrow> f \<le> f' \<Longrightarrow> VirusHandler_handle_write f' os vc p s = Some x"
proof (induction f arbitrary: f' s)
  case (Suc f)
  then obtain g where g: "f' = Suc g" "f \<le> g" by (cases f') auto
  from Suc.prems(1) Suc.IH g VirusHandler_send_value_fuel [of f os vc p _ _ _ g] show ?case
    by (auto simp: g(1) VirusHandler_handle_write.simps(2) Let_def case_prod_beta split: list.splits option.splits)
qed simp

definition returns :: "(nat \<Rightarrow> 'a option) \<Rightarrow> 'a \<Rightarrow> bool" where
  "returns f x = (\<exists>n. \<forall>m \<ge> n. f m = Some x)"

lemma returns_const [simp]: "returns (\<lambda>n. Some x) y \<longleftrightarrow> x = y"
  by (auto simp: returns_def)

lemma returns_bind:
  assumes "returns f x" "returns (\<lambda>n. g n x) y"
  shows "returns (\<lambda>n. case f n of None \<Rightarrow> None | Some x \<Rightarrow> g n x) y"
proof -
  obtain a b where "\<forall>m \<ge> a. f m = Some x" "\<forall>m \<ge> b. g m x = Some y" using assms by (auto simp: returns_def)
  then show ?thesis unfolding returns_def by (intro exI [of _ "max a b"]) auto
qed

lemma read_event_fuel:
  assumes "handle_read_event f os p s = Some x"
  shows "returns (\<lambda>n. handle_read_event n os p s) x"
proof -
  have "handle_read_event n os p s = Some x" if "f \<le> n" for n
    using assms that
    by (auto simp: handle_read_event_def BaseSocket_handle_read_event_def v_handle_read_def VirusHandler_handle_read_def
        VH_received_def Let_def case_prod_beta split: if_splits sock_class.splits option.splits
        dest!: VH_read_loop_fuel [OF _ that])
  then show ?thesis by (auto simp: returns_def)
qed

lemma write_event_fuel:
  assumes "handle_write_event f os p s = Some x"
  shows "returns (\<lambda>n. handle_write_event n os p s) x"
proof -
  have "handle_write_event n os p s = Some x" if "f \<le> n" for n
    using assms that
    by (auto simp: handle_write_event_def BaseSocket_handle_write_event_def v_handle_write_def Let_def
        split: if_splits sock_class.splits dest!: VirusHandler_handle_write_fuel [OF _ that])
  then show ?thesis by (auto simp: returns_def)
qed

subsection \<open>The environment\<close>

text \<open>
  What the server relies on. The kernel takes everything that is sent, reports no exceptional
  condition and accepts into descriptors that are not open; the clients keep to the protocol:
  as long as a conversation makes sense, the next buffer of it does.
\<close>

definition no_exceptions :: "os \<Rightarrow> bool" where
  "no_exceptions os =
     (\<forall>h n r w e t. case os_select os h n r w e t of Inl _ \<Rightarrow> True | Inr (r', w', e') \<Rightarrow> e' = [])"

definition accepts_fresh :: "os \<Rightarrow> bool" where
  "accepts_fresh os =
     (\<forall>h l. case os_accept os h l of
        Inl _ \<Rightarrow> True
      | Inr (k, a) \<Rightarrow> 0 < k \<and> k < FD_SETSIZE \<and> k \<notin> open_fds h \<and> peer_named os k)"

definition clients_conform :: "os \<Rightarrow> bool" where
  "clients_conform os =
     (\<forall>h k. rx_run Rx_idle (rcvd k h) \<noteq> None \<longrightarrow>
        (case os_recv os h k 65535 0 of
           Inl _ \<Rightarrow> False
         | Inr d \<Rightarrow> d \<noteq> [] \<and> length d \<le> 65535 \<and> rx_run Rx_idle (rcvd k h @ [d]) \<noteq> None))"

definition environment_ok :: "os \<Rightarrow> bool" where
  "environment_ok os =
     (disk_ok os \<and> alloc_ok os \<and> clock_ticks os \<and> (\<forall>k. send_ok os k) \<and>
      no_exceptions os \<and> accepts_fresh os \<and> clients_conform os)"

lemma clients_conformD:
  assumes "clients_conform os" "rx_run Rx_idle (rcvd k h) \<noteq> None"
  obtains d where "os_recv os h k 65535 0 = Inr d" "d \<noteq> []" "length d \<le> 65535"
    "rx_run Rx_idle (rcvd k h @ [d]) \<noteq> None"
proof -
  have "case os_recv os h k 65535 0 of
      Inl _ \<Rightarrow> False | Inr d \<Rightarrow> d \<noteq> [] \<and> length d \<le> 65535 \<and> rx_run Rx_idle (rcvd k h @ [d]) \<noteq> None"
    using assms unfolding clients_conform_def by blast
  then show ?thesis using that by (cases "os_recv os h k 65535 0") auto
qed

subsection \<open>The events keep the service\<close>

lemma rx_run_snoc:
  "rx_run a (bs @ [d]) = (case rx_run a bs of None \<Rightarrow> None
     | Some (ms, b) \<Rightarrow> map_option (\<lambda>(ms', c). (ms @ ms', c)) (rx_parse b d))"
proof (induction bs arbitrary: a)
  case Nil
  show ?case by (cases "rx_parse a d") auto
next
  case (Cons x bs)
  then show ?case
    by (cases "rx_parse a x") (auto split: option.splits simp: option.map_comp comp_def split_def)
qed

lemma answers_append: "answers (xs @ ys) = answers xs @ answers ys"
  by (simp add: answers_def)

lemma answers_drop_take:
  assumes "n \<le> length ms"
  shows "answers (drop n (ms @ ms')) = answers (drop n ms) @ answers ms'" "take n (ms @ ms') = take n ms"
  using assms by (simp_all add: answers_append)


lemma serving_served:
  assumes "serving os l mp s" "map_find k (maps s mp) = Some p" "k \<noteq> l"
  obtains ms a n where "n \<le> length ms" "client_ok p k a s" "rx_run Rx_idle (rcvd k (trace s)) = Some (ms, a)"
    "answered k (trace s) = concat (answers (take n ms))" "wires (o_session (objs s p)) s = answers (drop n ms)"
  using assms unfolding serving_def served_def by blast

lemma client_req_wf:
  assumes "client_ok p k a s"
  shows "req_wf (req (o_session (objs s p))) s"
  using assms
  by (cases a) (auto simp: client_ok_def req_wf_def hv_inv_def hv_reading_def sizeof_Header_def split: option.splits)

lemma client_aligned: "client_ok p k a s \<Longrightarrow> hv_aligned (req (o_session (objs s p)))"
  by (auto simp: client_ok_def intro: rx_sim_aligned)

text \<open>A read event on a client.\<close>

lemma store_ok_cong:
  assumes "caches s' = caches s" "files s' = files s" "streams s' = streams s" "next_cache s' = next_cache s"
    "next_fp s' = next_fp s"
  shows "cache_view q s' = cache_view q s" "live q s' = live q s" "keeps X s s'"
    "ticks (trace s) \<le> ticks (trace s') \<Longrightarrow> store_ok os s \<Longrightarrow> store_ok os s'"
proof -
  show v: "cache_view q s' = cache_view q s" for q
    using assms(1-3) by (cases "caches s q") (simp_all add: cache_view_def)
  show "live q s' = live q s" by (rule live_cong [OF v])
  show k: "keeps X s s'" for X by (simp add: keeps_def v)
  show "store_ok os s'" if "ticks (trace s) \<le> ticks (trace s')" "store_ok os s"
    by (rule store_ok_keep [OF that(2) k [of "{}"] that(1)])
      (use that(2) assms in \<open>auto simp: store_ok_def heap_wf_def\<close>)
qed

text \<open>
  An event names at most as many files as its loop has turns; \<open>spare n s\<close> says that the clock has
  readings left for \<open>n\<close> events.
\<close>

definition spare :: "nat \<Rightarrow> world \<Rightarrow> bool" where
  "spare n s = (ticks (trace s) + 70000 * n \<le> LIFETIME)"

text \<open>A call alone leaves the store and the session as they were.\<close>

lemma session_after_call:
  fixes s :: world and ev :: event
  assumes "serving os l mp s" "client_ok p k a s"
  defines "s1 \<equiv> s\<lparr>trace := trace s @ [ev]\<rparr>"
  shows "store_ok os s1" "req_wf (req (o_session (objs s p))) s1" "session_ok (o_session (objs s p)) s1"
    "cache_view q s1 = cache_view q s" "live q s1 = live q s"
proof -
  have eq: "caches s1 = caches s" "files s1 = files s" "streams s1 = streams s" "next_cache s1 = next_cache s"
    "next_fp s1 = next_fp s" by (simp_all add: s1_def)
  note cong = store_ok_cong [OF eq]
  show "store_ok os s1" using assms(1) by (intro cong(4)) (simp_all add: s1_def serving_def)
  show "req_wf (req (o_session (objs s p))) s1"
    using client_req_wf [OF assms(2)] cache_view_cong(1) [OF cong(1)] by (simp add: req_wf_def split: option.splits)
  show "session_ok (o_session (objs s p)) s1"
    using assms(2) rx_sim_cong(2) [OF eq(1-3)] by (simp add: client_ok_def)
  show "cache_view q s1 = cache_view q s" "live q s1 = live q s" by (rule cong)+
qed

lemma client_recv_step:
  assumes s: "serving os l mp s" and k: "map_find k (maps s mp) = Some p" "k \<noteq> l" and env: "environment_ok os"
    and time: "spare 1 s"
  obtains s' where "returns (\<lambda>n. handle_read_event n os p s) s'" "client_step os k p s s'" "ub s' = ub s"
    "ticks (trace s') \<le> ticks (trace s) + 70000"
proof -
  obtain ms a n where c: "n \<le> length ms" "client_ok p k a s" "rx_run Rx_idle (rcvd k (trace s)) = Some (ms, a)"
    "answered k (trace s) = concat (answers (take n ms))" "wires (o_session (objs s p)) s = answers (drop n ms)"
    by (rule serving_served [OF s k])
  have e: "disk_ok os" "alloc_ok os" "clock_ticks os" "clients_conform os" using env by (simp_all add: environment_ok_def)
  obtain d where d: "os_recv os (trace s) k 65535 0 = Inr d" "d \<noteq> []" "length d \<le> 65535"
    "rx_run Rx_idle (rcvd k (trace s) @ [d]) \<noteq> None"
    by (rule clients_conformD [OF e(4)]) (use c(3) in auto)
  then obtain ms' b where parse: "rx_parse a d = Some (ms', b)" using c(3) by (auto simp: rx_run_snoc)
  define s1 where "s1 = s\<lparr>trace := trace s @ [Ev_recv k 65535 0 (Some d)]\<rparr>"
  have fuel: "65535 < (70000 :: nat)" by simp
  obtain v' s2 s' where run: "VH_read_loop 70000 os d (int (length d)) (o_session (objs s p)) s1 = Some (v', s2)"
    and s': "s' = s2\<lparr>objs := (objs s)(p := (objs s p)\<lparr>o_session := v'\<rparr>)\<rparr>"
      "handle_read_event 70000 os p s = Some s'" "client_ok p k b s'" "ub s' = ub s"
      "wires (o_session (objs s' p)) s' = wires (o_session (objs s p)) s @ answers ms'"
      "maps s' = maps s" "next_obj s' = next_obj s"
    by (rule client_recv_at [OF c(2) parse fuel d(1-3) e(1,2), folded s1_def])
  note st1 = session_after_call [where ev = "Ev_recv k 65535 0 (Some d)", OF s c(2), folded s1_def]
  have len: "length d < 2 ^ 31" using d(3) by simp
  have "ticks (trace s1) + 70000 \<le> LIFETIME" using time by (simp add: s1_def spare_def)
  note conf = VH_read_loop_confined [OF st1(1-3) client_aligned [OF c(2)] e(1-3) d(2) len this run]
  have eq2: "caches s' = caches s2" "files s' = files s2" "streams s' = streams s2" "next_cache s' = next_cache s2"
    "next_fp s' = next_fp s2" "trace s' = trace s2" by (simp_all add: s'(1))
  note vs = st1(4,5) store_ok_cong(1,4) [OF eq2(1-5)]
  have nt: "net_trace s' = net_trace s1"
    using VH_read_loop_net_trace [OF run] by (simp add: s'(1) net_trace_def)
  note views = net_views [OF nt]
  have tr: "rcvd k (trace s') = rcvd k (trace s) @ [d]" "answered k (trace s') = answered k (trace s)"
    "open_fds (trace s') = open_fds (trace s)"
    "j \<noteq> k \<Longrightarrow> rcvd j (trace s') = rcvd j (trace s) \<and> answered j (trace s') = answered j (trace s)" for j
    using views by (simp_all add: s1_def views_append)
  have "served k p s'"
    unfolding served_def
    by (rule exI [of _ "ms @ ms'"], rule exI [of _ b], rule exI [of _ n])
      (use c s'(3,5) tr parse in \<open>simp add: rx_run_snoc answers_append\<close>)
  then have "client_step os k p s s'"
    using conf vs tr s'(1,6,7) eq2(6) by (auto simp: client_step_def keeps_def confined_def)
  moreover have "ticks (trace s') \<le> ticks (trace s) + 70000" using conf by (simp add: confined_def eq2(6) s1_def)
  ultimately show ?thesis using that [OF read_event_fuel [OF s'(2)]] s'(4) by blast
qed


text \<open>A write event on a client.\<close>

lemma sends_ticks: "only_sends k h h' \<Longrightarrow> ticks h' = ticks h"
  by (auto simp: only_sends_def ticks_def count_list_0_iff)

lemma setup_ticks: "sets_up k g \<Longrightarrow> ticks g = 0"
  by (auto simp: sets_up_def ticks_def count_list_0_iff)

lemma client_flush_step:
  assumes s: "serving os l mp s" and k: "map_find k (maps s mp) = Some p" "k \<noteq> l" and env: "environment_ok os"
  obtains s' ms a where "returns (\<lambda>n. handle_write_event n os p s) s'" "client_step os k p s s'" "ub s' = ub s"
    "rx_run Rx_idle (rcvd k (trace s)) = Some (ms, a)" "rcvd k (trace s') = rcvd k (trace s)"
    "answered k (trace s') = concat (answers ms)" "ticks (trace s') = ticks (trace s)"
proof -
  obtain ms a n where c: "n \<le> length ms" "client_ok p k a s" "rx_run Rx_idle (rcvd k (trace s)) = Some (ms, a)"
    "answered k (trace s) = concat (answers (take n ms))" "wires (o_session (objs s p)) s = answers (drop n ms)"
    by (rule serving_served [OF s k])
  let ?v = "o_session (objs s p)"
  define F where "F = Suc (length (concat (wires ?v s)))"
  have io: "io_ok k (Flush os)" "length (concat (wires ?v s)) < F" using env by (simp_all add: environment_ok_def F_def)
  obtain h C s' where s': "s' = s\<lparr>trace := h, caches := C, objs := (objs s)(p := (objs s p)\<lparr>o_session := ?v\<lparr>resp := []\<rparr>\<rparr>)\<rparr>"
      "handle_write_event F os p s = Some s'" "client_ok p k a s'"
    and h: "sent_on k h = sent_on k (trace s) @ concat (wires ?v s)" "only_sends k (trace s) h"
    and C: "\<And>q. Some q \<notin> hv_value ` set (resp ?v) \<Longrightarrow> C q = caches s q"
      "\<And>q. Some q \<in> hv_value ` set (resp ?v) \<Longrightarrow> C q = None"
    by (rule client_flush_at [OF c(2) io]) blast
  note views = views_sends [OF h(2)]
  have ok: "store_ok os s" using s by (simp add: serving_def)
  have new: "caches s' = C" "files s' = files s" "streams s' = streams s" "trace s' = h" "ub s' = ub s" "maps s' = maps s"
    "next_obj s' = next_obj s" "objs s' = (objs s)(p := (objs s p)\<lparr>o_session := ?v\<lparr>resp := []\<rparr>\<rparr>)"
    by (simp_all add: s'(1))
  have keep: "keeps {q. Some q \<in> hv_value ` set (resp ?v)} s s'"
    by (intro keepsI) (simp_all add: new C(1))
  have keep': "keeps (holds p s) s s'" by (rule keeps_mono [OF keep]) (auto simp: held_def)
  have tk: "ticks h = ticks (trace s)" by (rule sends_ticks [OF h(2)])
  have wf: "heap_wf s'" using s'(3) by (simp add: client_ok_def)
  have "store_ok os s'"
    by (rule store_ok_keep [OF ok keep]) (use C tk wf in \<open>auto simp: new\<close>)
  moreover have ans: "answered k h = concat (answers ms)"
  proof -
    have "answered k h = answered k (trace s) @ concat (wires ?v s)" using views(4) h(1) by auto
    then show ?thesis by (simp add: c(4,5) answers_append [symmetric] flip: concat_append)
  qed
  moreover have "served k p s'"
    unfolding served_def
    by (rule exI [of _ ms], rule exI [of _ a], rule exI [of _ "length ms"])
      (use c(3) s'(3) ans views(1) in \<open>simp add: new wires_def answers_def\<close>)
  ultimately have "client_step os k p s s'"
    using keep' views(1-4) by (auto simp: client_step_def new held_def)
  then show ?thesis
    using that [OF write_event_fuel [OF s'(2)] _ new(5) c(3)] ans views(1) new(4) tk by simp
qed

text \<open>Calls that are no part of a conversation.\<close>

lemma serving_neutral:
  assumes s: "serving os l mp s" and more: "sys.more s' = sys.more s"
    and tr: "trace s' = trace s @ [e]" and e: "\<And>acc. \<forall>k > 0. rcvd_step k acc e = acc" "\<And>bs. \<forall>k > 0. answered_step k bs e = bs"
      "\<And>A. open_step A e = A"
  shows "serving os l mp s'"
proof -
  note w = world_of_sys [OF more]
  have st: "store_ok os s'" using s by (intro store_ok_cong(4) [OF w(4-8)]) (simp_all add: serving_def tr)
  have keep: "keeps {} s s'" by (rule store_ok_cong(3) [OF w(4-8)])
  have "served k p s'" if "map_find k (maps s mp) = Some p" "k \<noteq> l" for k p
  proof -
    have "0 < k" "served k p s" using s that by (auto simp: serving_def)
    moreover from this have "rcvd k (trace s') = rcvd k (trace s)" "answered k (trace s') = answered k (trace s)"
      using e(1,2) by (simp_all add: tr views_append)
    ultimately show ?thesis
      using served_keeps [OF _ keep] w(1) st by (simp add: store_ok_def)
  qed
  moreover have "open_fds (trace s') = open_fds (trace s)" using e(3) by (simp add: tr views_append)
  ultimately show ?thesis
    using s st reg_ok_sys [OF more] unfolding serving_def listens_def by (simp add: w)
qed


text \<open>A read event on the listening socket.\<close>

lemma accept_refused:
  assumes "listens l p s" "o_sock (objs s p) = l" "os_accept os (trace s) l = Inl err"
  shows "handle_read_event n os p s = Some (set_errno err (emit (Ev_accept l (-1)) s))"
  using assms
  by (simp add: listens_def handle_read_event_def BaseSocket_handle_read_event_def v_handle_accept_def
      TCPServerImpl_handle_accept_def BaseSocket_accept_def cp_accept_def sys_accept_def cp_socket_valid_def
      INVALID_SOCKET_def touch_def Let_def)

lemma serving_new_client:
  assumes s: "serving os l mp s" and k: "map_find k (maps s mp) = None" "0 < k" "k < FD_SETSIZE"
    and reg: "reg_ok s'" and c: "client_ok p k Rx_idle s'" "resp (o_session (objs s' p)) = []" "p = next_obj s"
    and m: "\<And>j. map_find j (maps s' mp) = (if j = k then Some p else map_find j (maps s mp))"
    and tr: "trace s' = trace s @ Ev_accept l k # g" "sets_up k g"
    and o: "\<And>q. q \<noteq> p \<Longrightarrow> objs s' q = objs s q"
    and st: "caches s' = caches s" "files s' = files s" "streams s' = streams s" "store_ok os s'"
  shows "serving os l mp s'"
proof -
  have v: "rcvd j (trace s') = (if j = k then [] else rcvd j (trace s))"
    "answered j (trace s') = (if j = k then [] else answered j (trace s))"
    "open_fds (trace s') = insert k (open_fds (trace s))" for j
    using k(2) by (simp_all add: tr(1) views_accept [OF tr(2)] INVALID_SOCKET_def)
  have old: "q \<noteq> p" if "map_find j (maps s mp) = Some q" for j q
    using s that c(3) by (auto simp: serving_def reg_ok_def reg_entry_def)
  have keep: "keeps {} s s'"
    using st(1-3) by (intro keepsI) simp_all
  have hp: "holds p s' = {}" using c(1,2) by (auto simp: client_ok_def held_def)
  have "served k p s'"
    unfolding served_def
    by (rule exI [of _ "[]"], rule exI [of _ Rx_idle], rule exI [of _ 0]) (use c v in \<open>simp add: wires_def answers_def\<close>)
  moreover have "served j q s'" if f: "map_find j (maps s mp) = Some q" "j \<noteq> l" for j q
  proof -
    have "j \<noteq> k" "served j q s" using s f k(1) by (auto simp: serving_def)
    with served_keeps [OF _ keep _ o [OF old [OF f(1)]]] v st(4) show ?thesis by (simp add: store_ok_def)
  qed
  ultimately have sv: "served j q s'" if "map_find j (maps s' mp) = Some q" "j \<noteq> l" for j q
    using that by (auto simp: m split: if_splits)
  have dis: "holds q s' \<inter> holds r s' = {}"
    if "map_find i (maps s' mp) = Some q" "map_find j (maps s' mp) = Some r" "i \<noteq> l" "j \<noteq> l" "i \<noteq> j" for i j q r
  proof (cases "i = k \<or> j = k")
    case True
    with that hp show ?thesis by (auto simp: m)
  next
    case False
    with that have f: "map_find i (maps s mp) = Some q" "map_find j (maps s mp) = Some r" by (simp_all add: m)
    then have "holds q s \<inter> holds r s = {}" using s that(3-5) unfolding serving_def by blast
    then show ?thesis using o old [OF f(1)] old [OF f(2)] by simp
  qed
  obtain pl where pl: "map_find l (maps s mp) = Some pl" "listens l pl s" using s by (auto simp: serving_def)
  have "l \<noteq> k" using pl(1) k(1) by auto
  then have "map_find l (maps s' mp) = Some pl" "listens l pl s'"
    using pl o [OF old [OF pl(1)]] by (simp_all add: m listens_def)
  moreover have "0 < j \<and> j < FD_SETSIZE \<and> j \<in> open_fds (trace s')" if "map_find j (maps s' mp) = Some q" for j q
    using that s k by (cases "j = k") (auto simp: m v serving_def)
  ultimately show ?thesis
    using reg st(4) sv dis unfolding serving_def by blast
qed

lemma serving_accepted:
  assumes s: "serving os l mp s" and p: "map_find l (maps s mp) = Some p" and env: "environment_ok os"
    and acc: "os_accept os (trace s) l = Inr (k, a)"
  obtains s' where "handle_read_event 0 os p s = Some s'" "serving os l mp s'" "ub s' = ub s"
    "ticks (trace s') = ticks (trace s)"
    "\<And>j q. map_find j (maps s mp) = Some q \<Longrightarrow> map_find j (maps s' mp) = Some q \<and>
       rcvd j (trace s') = rcvd j (trace s) \<and> answered j (trace s') = answered j (trace s)"
proof -
  have reg: "reg_ok s" and ok: "store_ok os s" and L: "listens l p s"
    using s p by (auto simp: serving_def)
  have fr: "0 < k" "k < FD_SETSIZE" "k \<notin> open_fds (trace s)" "peer_named os k"
  proof -
    have "case os_accept os (trace s) l of Inl _ \<Rightarrow> True
        | Inr (k, a) \<Rightarrow> 0 < k \<and> k < FD_SETSIZE \<and> k \<notin> open_fds (trace s) \<and> peer_named os k"
      using env by (simp add: environment_ok_def accepts_fresh_def)
    then show "0 < k" "k < FD_SETSIZE" "k \<notin> open_fds (trace s)" "peer_named os k" by (simp_all add: acc)
  qed
  have none: "map_find k (maps s mp) = None"
    using s fr(3) by (cases "map_find k (maps s mp)") (auto simp: serving_def)
  have h: "cp_socket_valid k" "heap_wf s" "o_class (objs s p) = Cls_TCPServerImpl" "o_accepting (objs s p)"
    using fr(1) ok L by (simp_all add: cp_socket_valid_def INVALID_SOCKET_def store_ok_def listens_def)
  from server_accepts [OF reg p h(3,4) acc h(1) none fr(4) h(2), of "0"] obtain s' g where
    s': "handle_read_event 0 os p s = Some s'" "client_ok (next_obj s) k Rx_idle s'"
      "resp (o_session (objs s' (next_obj s))) = []" "ub s' = ub s"
      "\<And>j. map_find j (maps s' mp) = (if j = k then Some (next_obj s) else map_find j (maps s mp))"
      "trace s' = trace s @ Ev_accept l k # g" "sets_up k g" "\<And>q. q \<noteq> next_obj s \<Longrightarrow> objs s' q = objs s q"
      "caches s' = caches s" "files s' = files s" "streams s' = streams s"
    by auto
  have reg': "reg_ok s'" by (rule read_events.handler_ok [OF reg p s'(1)])
  have "store_ok os s'"
    by (rule store_ok_keep [OF ok keepsI [of "{}"]]) (use s'(2,6,9-11) in \<open>auto simp: client_ok_def\<close>)
  from serving_new_client [OF s none fr(1,2) reg' s'(2,3) refl s'(5-11) this] have "serving os l mp s'" .
  moreover have "map_find j (maps s' mp) = Some q \<and>
      rcvd j (trace s') = rcvd j (trace s) \<and> answered j (trace s') = answered j (trace s)"
    if "map_find j (maps s mp) = Some q" for j q
  proof -
    have "j \<noteq> k" using none that by auto
    then show ?thesis using that s'(5) by (simp add: s'(6) views_accept [OF s'(7)])
  qed
  ultimately show ?thesis using that [OF s'(1) _ s'(4)] setup_ticks [OF s'(7)] by (simp add: s'(6))
qed

lemma serving_accept:
  assumes s: "serving os l mp s" and p: "map_find l (maps s mp) = Some p" and env: "environment_ok os"
  obtains s' where "returns (\<lambda>n. handle_read_event n os p s) s'" "serving os l mp s'" "ub s' = ub s"
    "ticks (trace s') = ticks (trace s)"
    "\<And>j q. map_find j (maps s mp) = Some q \<Longrightarrow> map_find j (maps s' mp) = Some q \<and>
       rcvd j (trace s') = rcvd j (trace s) \<and> answered j (trace s') = answered j (trace s)"
proof (cases "os_accept os (trace s) l")
  case (Inl err)
  have L: "listens l p s" "o_sock (objs s p) = l"
    using s p by (auto simp: serving_def reg_ok_def reg_entry_def)
  let ?s = "set_errno err (emit (Ev_accept l (-1)) s)"
  have "serving os l mp ?s" by (rule serving_neutral [OF s, of _ "Ev_accept l (-1)"]) (simp_all add: INVALID_SOCKET_def)
  moreover have "rcvd j (trace ?s) = rcvd j (trace s) \<and> answered j (trace ?s) = answered j (trace s)"
    if "map_find j (maps s mp) = Some q" for j q
    using s that by (auto simp: serving_def views_append)
  ultimately show ?thesis using that [of ?s] accept_refused [OF L Inl] by simp
next
  case (Inr x)
  obtain k a where x: "x = (k, a)" by (cases x)
  show ?thesis
    by (rule serving_accepted [OF s p env Inr [unfolded x]]) (use that read_event_fuel in blast)
qed


subsection \<open>Rounds of the event loop\<close>

text \<open>
  A run of \<open>n\<close> events in which no client is lost, no conversation is cut and nothing undefined
  happens.
\<close>

definition goes_on :: "nat \<Rightarrow> nat \<Rightarrow> world \<Rightarrow> world \<Rightarrow> bool" where
  "goes_on n mp s s' =
     (ub s' = ub s \<and> ticks (trace s') \<le> ticks (trace s) + 70000 * n \<and>
      (\<forall>j p. map_find j (maps s mp) = Some p \<longrightarrow> map_find j (maps s' mp) = Some p \<and>
         prefix (rcvd j (trace s)) (rcvd j (trace s')) \<and> prefix (answered j (trace s)) (answered j (trace s'))))"

lemma goes_on_refl: "goes_on n mp s s"
  by (simp add: goes_on_def)

lemma goes_on_trans:
  assumes "goes_on m mp s s1" "goes_on n mp s1 s2"
  shows "goes_on (m + n) mp s s2"
proof -
  have "ticks (trace s2) \<le> ticks (trace s) + 70000 * (m + n)" using assms by (simp add: goes_on_def)
  with assms show ?thesis unfolding goes_on_def using prefix_order.trans by (metis (no_types, lifting))
qed

lemma goes_on_spare: "goes_on m mp s s' \<Longrightarrow> spare (m + n) s \<Longrightarrow> spare n s'"
  by (simp add: goes_on_def spare_def)

lemma client_step_goes_on:
  assumes "client_step os k p s s'" "ub s' = ub s" "ticks (trace s') \<le> ticks (trace s) + 70000"
  shows "goes_on 1 mp s s'"
  unfolding goes_on_def
proof (intro conjI allI impI assms(2))
  show "ticks (trace s') \<le> ticks (trace s) + 70000 * 1" using assms(3) by simp
next
  fix j q assume "map_find j (maps s mp) = Some q"
  with assms(1) show "map_find j (maps s' mp) = Some q" "prefix (rcvd j (trace s)) (rcvd j (trace s'))"
    "prefix (answered j (trace s)) (answered j (trace s'))"
    by (cases "j = k"; simp add: client_step_def)+
qed

text \<open>
  The contract between the dispatch and the handlers, beside \<open>event_handler\<close>: in a state in which
  every client is served, an event on a registered object ends and leaves such a state.
\<close>

locale service_event =
  fixes os :: os and handler :: "nat \<Rightarrow> nat \<Rightarrow> world \<Rightarrow> world option"
  assumes event_served:
    "environment_ok os \<Longrightarrow> serving os l mp s \<Longrightarrow> spare 1 s \<Longrightarrow> map_find k (maps s mp) = Some p \<Longrightarrow>
      \<exists>s'. returns (\<lambda>n. handler n p s) s' \<and> serving os l mp s' \<and> goes_on 1 mp s s'"
begin

lemma serve_one_served:
  assumes "environment_ok os" "serving os l mp s" "spare 1 s"
  obtains c s' where "returns (\<lambda>n. serve_one ready (handler n) mp k fds s) (c, s')" "serving os l mp s'" "goes_on 1 mp s s'"
proof (cases "map_find k (maps s mp)")
  case None
  with assms(2) goes_on_refl show ?thesis by (intro that [of True s]) (simp_all add: serve_one_def)
next
  case (Some p)
  then have "o_alive (objs s p)" using assms(2) by (auto simp: serving_def reg_ok_def reg_entry_def)
  then have t: "touch p s = s" by simp
  show ?thesis
  proof (cases "FD_ISSET k fds \<and> ready p s")
    case False
    then have "serve_one ready (handler n) mp k fds s = Some (False, s)" for n
      using Some t by (auto simp: serve_one_def)
    with assms(2) goes_on_refl show ?thesis by (intro that [of False s]) simp_all
  next
    case True
    obtain s' where s': "returns (\<lambda>n. handler n p s) s'" "serving os l mp s'" "goes_on 1 mp s s'"
      using event_served [OF assms Some] by blast
    then have "returns (\<lambda>n. serve_one ready (handler n) mp k fds s) (False, s')"
      using True Some t by (auto simp: serve_one_def returns_def)
    then show ?thesis using s' that by blast
  qed
qed

end

lemma read_event_served:
  assumes env: "environment_ok os" and s: "serving os l mp s" "spare 1 s" and k: "map_find k (maps s mp) = Some p"
  shows "\<exists>s'. returns (\<lambda>n. handle_read_event n os p s) s' \<and> serving os l mp s' \<and> goes_on 1 mp s s'"
proof (cases "k = l")
  case True
  have p: "map_find l (maps s mp) = Some p" using True k by simp
  obtain s' where s': "returns (\<lambda>n. handle_read_event n os p s) s'" "serving os l mp s'" "ub s' = ub s"
    "ticks (trace s') = ticks (trace s)"
    "\<And>j q. map_find j (maps s mp) = Some q \<Longrightarrow> map_find j (maps s' mp) = Some q \<and>
       rcvd j (trace s') = rcvd j (trace s) \<and> answered j (trace s') = answered j (trace s)"
    by (rule serving_accept [OF s(1) p env]) blast
  then have "goes_on 1 mp s s'" by (simp add: goes_on_def)
  with s' show ?thesis by blast
next
  case False
  show ?thesis
    by (rule client_recv_step [OF s(1) k False env s(2)])
      (use serving_client_step [OF s(1) k False] client_step_goes_on in blast)
qed

lemma write_event_served:
  assumes env: "environment_ok os" and s: "serving os l mp s" and k: "map_find k (maps s mp) = Some p"
  shows "\<exists>s'. returns (\<lambda>n. handle_write_event n os p s) s' \<and> serving os l mp s' \<and> goes_on 1 mp s s'"
proof (cases "k = l")
  case True
  then have "listens l p s" using s k by (auto simp: serving_def)
  then have "handle_write_event n os p s = Some s" for n
    by (simp add: listens_def handle_write_event_def BaseSocket_handle_write_event_def)
  then show ?thesis using s goes_on_refl by simp
next
  case False
  show ?thesis
    by (rule client_flush_step [OF s k False env])
      (use serving_client_step [OF s k False] client_step_goes_on in \<open>metis le_add1\<close>)
qed

interpretation service_read: service_event os "\<lambda>n. handle_read_event n os" for os
  by unfold_locales (rule read_event_served)

interpretation service_write: service_event os "\<lambda>n. handle_write_event n os" for os
  by unfold_locales (rule write_event_served)

text \<open>Everything received up to \<open>s\<close> is answered by \<open>s'\<close>.\<close>

definition all_answered :: "cp_socket_t \<Rightarrow> world \<Rightarrow> world \<Rightarrow> bool" where
  "all_answered k s s' =
     (\<exists>ms a. rx_run Rx_idle (rcvd k (trace s)) = Some (ms, a) \<and>
        prefix (concat (answers ms)) (answered k (trace s')))"

lemma rx_run_prefix:
  assumes "rx_run a bs = Some (ms, b)" "rx_run a (bs @ cs) = Some (ms', b')"
  shows "prefix ms ms'"
  using assms(2)
proof (induction cs arbitrary: ms' b' rule: rev_induct)
  case Nil
  then show ?case using assms(1) by simp
next
  case (snoc d cs)
  then obtain m c m' where "rx_run a (bs @ cs) = Some (m, c)" "ms' = m @ m'"
    by (auto simp: rx_run_snoc append_assoc [symmetric] simp del: append_assoc split: option.splits)
  with snoc.IH show ?case by (auto intro: prefix_order.trans)
qed

lemma all_answered_goes_on:
  assumes "serving os l mp s" "map_find k (maps s mp) = Some p" "k \<noteq> l"
    and "goes_on m mp s t" "all_answered k t u" "goes_on n mp u s'" "map_find k (maps u mp) = Some q"
  shows "all_answered k s s'"
proof -
  obtain ms a where ms: "rx_run Rx_idle (rcvd k (trace s)) = Some (ms, a)"
    using serving_served [OF assms(1-3)] by blast
  obtain ms' b where ms': "rx_run Rx_idle (rcvd k (trace t)) = Some (ms', b)"
    "prefix (concat (answers ms')) (answered k (trace u))"
    using assms(5) by (auto simp: all_answered_def)
  have "prefix (rcvd k (trace s)) (rcvd k (trace t))" using assms(2,4) by (simp add: goes_on_def)
  then obtain cs where "rcvd k (trace t) = rcvd k (trace s) @ cs" by (rule prefixE)
  with rx_run_prefix [OF ms] ms'(1) have "prefix ms ms'" by simp
  then have "prefix (concat (answers ms)) (concat (answers ms'))"
    by (auto simp: answers_append elim!: prefixE)
  moreover have "prefix (answered k (trace u)) (answered k (trace s'))" using assms(6,7) by (simp add: goes_on_def)
  ultimately have "prefix (concat (answers ms)) (answered k (trace s'))"
    using ms'(2) prefix_order.trans by blast
  with ms show ?thesis by (auto simp: all_answered_def)
qed

lemma idle_client_answered:
  assumes "serving os l mp s" "map_find k (maps s mp) = Some p" "k \<noteq> l" "\<not> v_writable p s"
  shows "all_answered k s s"
proof -
  obtain ms a n where c: "n \<le> length ms" "client_ok p k a s" "rx_run Rx_idle (rcvd k (trace s)) = Some (ms, a)"
    "answered k (trace s) = concat (answers (take n ms))" "wires (o_session (objs s p)) s = answers (drop n ms)"
    by (rule serving_served [OF assms(1-3)])
  have "resp (o_session (objs s p)) = []" using assms(4) client_write_event(2) [OF c(2)] by simp
  then have "drop n ms = []" using c(5) by (simp add: wires_def answers_def)
  then show ?thesis using c(1,3,4) by (simp add: all_answered_def)
qed

lemma returns_unique: "returns f x \<Longrightarrow> returns f y \<Longrightarrow> x = y"
  unfolding returns_def by (metis max.cobounded1 max.cobounded2 option.inject)

lemma write_turn:
  assumes env: "environment_ok os" and s: "serving os l mp s" and k: "map_find k (maps s mp) = Some p" "k \<noteq> l" "k \<in> set w"
    and run: "returns (\<lambda>n. serve_one v_writable (handle_write_event n os) mp k w s) (c, s')"
  shows "all_answered k s s'"
proof -
  have "o_alive (objs s p)" using s k(1) by (auto simp: serving_def reg_ok_def reg_entry_def)
  then have t: "touch p s = s" by simp
  show ?thesis
  proof (cases "v_writable p s")
    case False
    then have "serve_one v_writable (handle_write_event n os) mp k w s = Some (False, s)" for n
      using k t by (simp add: serve_one_def FD_ISSET_def)
    then have "s' = s" using run by simp
    then show ?thesis using idle_client_answered [OF s k(1,2) False] by simp
  next
    case True
    obtain s2 ms a where s2: "returns (\<lambda>n. handle_write_event n os p s) s2" "rx_run Rx_idle (rcvd k (trace s)) = Some (ms, a)"
      "answered k (trace s2) = concat (answers ms)"
      by (rule client_flush_step [OF s k(1,2) env])
    have "returns (\<lambda>n. serve_one v_writable (handle_write_event n os) mp k w s) (False, s2)"
      using s2(1) True k t by (auto simp: serve_one_def FD_ISSET_def returns_def)
    from returns_unique [OF run this] s2(2,3) show ?thesis by (simp add: all_answered_def)
  qed
qed

text \<open>The turn of one descriptor in the dispatch.\<close>

definition turn :: "nat \<Rightarrow> os \<Rightarrow> nat \<Rightarrow> int list \<times> int list \<times> int list \<Rightarrow> cp_socket_t \<Rightarrow> world \<Rightarrow> world option" where
  "turn fuel os mp fds k s = dispatch_all fuel os mp fds [k] s"

lemma dispatch_turn:
  "dispatch_all fuel os mp (r, w, e) (k # ks) s =
    (case turn fuel os mp (r, w, e) k s of None \<Rightarrow> None | Some s \<Rightarrow> dispatch_all fuel os mp (r, w, e) ks s)"
  by (simp add: turn_def split: option.split bool.split)

lemma turn_served:
  assumes env: "environment_ok os" and s: "serving os l mp s" "spare 2 s"
  shows "\<exists>t. returns (\<lambda>n. turn n os mp (r, w, []) k s) t \<and> serving os l mp t \<and> goes_on 2 mp s t
    \<and> (k \<in> set w \<longrightarrow> k \<noteq> l \<longrightarrow> (\<forall>p. map_find k (maps s mp) = Some p \<longrightarrow> all_answered k s t))"
proof -
  have "spare 1 s" using s(2) by (simp add: spare_def)
  then obtain c1 s1 where one: "returns (\<lambda>n. serve_one v_readable (handle_read_event n os) mp k r s) (c1, s1)"
    "serving os l mp s1" "goes_on 1 mp s s1"
    by (rule service_read.serve_one_served [OF env s(1)])
  have "spare 1 s1" by (rule goes_on_spare [OF one(3)]) (use s(2) in \<open>simp add: numeral_2_eq_2\<close>)
  then obtain c2 s2 where two: "returns (\<lambda>n. serve_one v_writable (handle_write_event n os) mp k w s1) (c2, s2)"
    "serving os l mp s2" "goes_on 1 mp s1 s2"
    by (rule service_write.serve_one_served [OF env one(2)])
  obtain c3 where three: "serve_one (\<lambda>p s. v_readable p s \<or> v_writable p s)
      (\<lambda>p s. Some (handle_expt_event os p s)) mp k [] s2 = Some (c3, s2)"
    using poll_idle(2) [of k "[]", simplified FD_ISSET_def, simplified] by blast
  define t where "t = (if c1 then s1 else s2)"
  have t: "serving os l mp t" "goes_on 2 mp s t"
    using one two goes_on_trans [OF one(3) two(3)] by (auto simp: t_def goes_on_def)
  obtain a b where n: "\<forall>m \<ge> a. serve_one v_readable (handle_read_event m os) mp k r s = Some (c1, s1)"
    "\<forall>m \<ge> b. serve_one v_writable (handle_write_event m os) mp k w s1 = Some (c2, s2)"
    using one(1) two(1) unfolding returns_def by blast
  then have "turn m os mp (r, w, []) k s = Some t" if "max a b \<le> m" for m
    using that three by (cases c1; cases c2) (simp_all add: t_def turn_def)
  then have "returns (\<lambda>n. turn n os mp (r, w, []) k s) t" unfolding returns_def by blast
  moreover have "all_answered k s t" if k: "k \<in> set w" "k \<noteq> l" "map_find k (maps s mp) = Some p" for p
  proof -
    have f: "map_find k (maps s1 mp) = Some p" "map_find k (maps s2 mp) = Some p"
      using one(3) two(3) k(3) by (simp_all add: goes_on_def)
    have "serve_one v_readable (handle_read_event a os) mp k r s = Some (c1, s1)" using n(1) by simp
    then have "t = s2" using k(3) by (auto simp: t_def serve_one_def Let_def split: if_splits)
    moreover have "all_answered k s1 s2" by (rule write_turn [OF env one(2) f(1) k(2,1) two(1)])
    ultimately show ?thesis using all_answered_goes_on [OF s(1) k(3,2) one(3) _ goes_on_refl f(2)] by blast
  qed
  ultimately show ?thesis using t by blast
qed

lemma dispatch_served:
  assumes "environment_ok os" "serving os l mp s" "spare (2 * length ks) s"
  shows "\<exists>s'. returns (\<lambda>n. dispatch_all n os mp (r, w, []) ks s) s' \<and> serving os l mp s'
    \<and> goes_on (2 * length ks) mp s s'
    \<and> (\<forall>k p. k \<in> set ks \<longrightarrow> k \<in> set w \<longrightarrow> k \<noteq> l \<longrightarrow> map_find k (maps s mp) = Some p \<longrightarrow> all_answered k s s')"
  using assms(2,3)
proof (induction ks arbitrary: s)
  case Nil
  then show ?case using goes_on_refl by auto
next
  case (Cons k ks)
  have "spare 2 s" using Cons.prems(2) by (simp add: spare_def)
  with turn_served [OF assms(1) Cons.prems(1)] obtain t where
    t: "returns (\<lambda>n. turn n os mp (r, w, []) k s) t" "serving os l mp t" "goes_on 2 mp s t"
      "\<And>p. k \<in> set w \<Longrightarrow> k \<noteq> l \<Longrightarrow> map_find k (maps s mp) = Some p \<Longrightarrow> all_answered k s t"
    by blast
  have "spare (2 * length ks) t"
    by (rule goes_on_spare [OF t(3)]) (use Cons.prems(2) in simp)
  with Cons.IH [OF t(2)] obtain s' where
    s': "returns (\<lambda>n. dispatch_all n os mp (r, w, []) ks t) s'" "serving os l mp s'" "goes_on (2 * length ks) mp t s'"
      "\<And>j p. j \<in> set ks \<Longrightarrow> j \<in> set w \<Longrightarrow> j \<noteq> l \<Longrightarrow> map_find j (maps t mp) = Some p \<Longrightarrow> all_answered j t s'"
    by blast
  have "returns (\<lambda>n. dispatch_all n os mp (r, w, []) (k # ks) s) s'"
    unfolding dispatch_turn by (rule returns_bind [OF t(1), where g = "\<lambda>n. dispatch_all n os mp (r, w, []) ks", OF s'(1)])
  moreover have "goes_on (2 * length (k # ks)) mp s s'" using goes_on_trans [OF t(3) s'(3)] by simp
  moreover have "all_answered j s s'"
    if j: "j \<in> set (k # ks)" "j \<in> set w" "j \<noteq> l" "map_find j (maps s mp) = Some p" for j p
  proof -
    have f: "map_find j (maps t mp) = Some p" "map_find j (maps s' mp) = Some p"
      using t(3) s'(3) j(4) by (simp_all add: goes_on_def)
    show ?thesis
    proof (cases "j \<in> set ks")
      case True
      from all_answered_goes_on [OF Cons.prems(1) j(4,3) t(3) s'(4) [OF True j(2,3) f(1)] goes_on_refl f(2)] show ?thesis .
    next
      case False
      then have "all_answered j s t" using t(4) j by simp
      from all_answered_goes_on [OF Cons.prems(1) j(4,3) goes_on_refl this s'(3) f(1)] show ?thesis .
    qed
  qed
  ultimately show ?case using s'(2) by blast
qed

text \<open>The descriptors of the clients fit into the sets, so \<open>FD_SET\<close> is defined on all of them.\<close>

lemma select_args_fit:
  assumes "\<forall>(k, p) \<in> set m. 0 < k \<and> k < FD_SETSIZE \<and> o_alive (objs (snd x) p)"
  shows "snd (select_args m x) = snd x"
  using assms
proof (induction m arbitrary: x)
  case (Cons e m)
  obtain k p a s where x: "e = (k, p)" "x = (a, s)" by (metis prod.exhaust)
  have k: "0 < k" "k < FD_SETSIZE" "touch p s = s" using Cons.prems by (simp_all add: x)
  let ?y = "want_expt k (v_readable p s \<or> v_writable p s)
      (want_write k (v_writable p s \<and> \<not> BaseSocket_is_accepting p s) (want_read k (v_readable p s) (a, s)))"
  have "snd ?y = s" using k by (simp add: want_read_def want_write_def want_expt_def FD_SET_def Let_def)
  with Cons.IH [of ?y] Cons.prems show ?case by (simp add: x k(3) Let_def)
qed simp

lemma serving_select_args:
  assumes "serving os l mp s"
  shows "snd (select_args (maps s mp) (a, s)) = s"
proof -
  have "map_wf (maps s mp)" using assms by (simp add: serving_def reg_ok_def)
  with assms show ?thesis
    by (subst select_args_fit) (auto simp: serving_def reg_ok_def reg_entry_def map_find_set)
qed


lemma FD_SET_fits: "0 < k \<Longrightarrow> k < FD_SETSIZE \<Longrightarrow> FD_SET k fds s = (if k \<in> set fds then fds else fds @ [k], s)"
  by (simp add: FD_SET_def)

text \<open>Every client with something to send is in the write set.\<close>

lemma select_args_w:
  assumes "\<forall>(k, p) \<in> set m. 0 < k \<and> k < FD_SETSIZE \<and> o_alive (objs (snd x) p)"
  shows "set (sel_w (fst (select_args m x))) = set (sel_w (fst x)) \<union>
    {k. \<exists>p. (k, p) \<in> set m \<and> v_writable p (snd x) \<and> \<not> BaseSocket_is_accepting p (snd x)}"
  using assms
proof (induction m arbitrary: x)
  case (Cons e m)
  obtain k p a s where x: "e = (k, p)" "x = (a, s)" by (metis prod.exhaust)
  have k: "0 < k" "k < FD_SETSIZE" "touch p s = s" using Cons.prems by (simp_all add: x)
  let ?y = "want_expt k (v_readable p s \<or> v_writable p s)
      (want_write k (v_writable p s \<and> \<not> BaseSocket_is_accepting p s) (want_read k (v_readable p s) (a, s)))"
  have "snd ?y = s" "set (sel_w (fst ?y)) = set (sel_w a) \<union>
      (if v_writable p s \<and> \<not> BaseSocket_is_accepting p s then {k} else {})"
    using k by (auto simp: want_read_def want_write_def want_expt_def FD_SET_fits raise_max_def Let_def)
  with Cons.IH [of ?y] Cons.prems show ?case by (auto simp: x k(3) Let_def)
qed simp

lemma serving_entries:
  assumes "serving os l mp s"
  shows "\<forall>(k, p) \<in> set (maps s mp). 0 < k \<and> k < FD_SETSIZE \<and> o_alive (objs s p)"
proof -
  have "map_wf (maps s mp)" using assms by (simp add: serving_def reg_ok_def)
  with assms show ?thesis by (auto simp: serving_def reg_ok_def reg_entry_def map_find_set)
qed

lemma distinct_fds:
  assumes "distinct ks" "\<forall>k \<in> set ks. 0 < k \<and> k < FD_SETSIZE"
  shows "length ks \<le> 1024"
proof -
  have "length ks = card (set ks)" using assms(1) by (simp add: distinct_card)
  also have "\<dots> \<le> card {0..<1024 :: int}"
    by (rule card_mono) (use assms(2) in \<open>auto simp: FD_SETSIZE_def\<close>)
  finally show ?thesis by simp
qed

text \<open>A kernel in which a socket can always be written to.\<close>

definition writes_ready :: "os \<Rightarrow> bool" where
  "writes_ready os =
     (\<forall>h n r w e t. case os_select os h n r w e t of Inl _ \<Rightarrow> False | Inr (_, w', _) \<Rightarrow> set w \<subseteq> set w')"

lemma select_args_max:
  assumes "\<forall>k \<in> set (select_socks (fst x)). k \<le> max_fd (fst x)"
  shows "\<forall>k \<in> set (select_socks (fst (select_args m x))). k \<le> max_fd (fst (select_args m x))"
  using assms
proof (induction m arbitrary: x)
  case (Cons e m)
  obtain k p a s where x: "e = (k, p)" "x = (a, s)" by (metis prod.exhaust)
  let ?y = "want_expt k (v_readable p (touch p s) \<or> v_writable p (touch p s))
      (want_write k (v_writable p (touch p s) \<and> \<not> BaseSocket_is_accepting p (touch p s))
        (want_read k (v_readable p (touch p s)) (a, touch p s)))"
  have "\<forall>k \<in> set (select_socks (fst ?y)). k \<le> max_fd (fst ?y)"
    using Cons.prems by (auto simp: x want_read_def want_write_def want_expt_def raise_max_def Let_def case_prod_beta)
  from Cons.IH [OF this] show ?case by (simp add: x Let_def)
qed simp

lemma serving_selected:
  assumes s: "serving os l mp s"
  obtains a where "select_args (maps s mp) (\<lparr>sel_r = [], sel_w = [], sel_e = [], select_socks = [], max_fd = 0\<rparr>, s) = (a, s)"
    "length (select_socks a) \<le> 1024"
    "\<And>k p. map_find k (maps s mp) = Some p \<Longrightarrow> k \<noteq> l \<Longrightarrow> v_writable p s \<Longrightarrow> k \<in> set (select_socks a) \<and> k \<in> set (sel_w a)"
    "0 < max_fd a"
proof -
  define x0 where "x0 = (\<lparr>sel_r = [], sel_w = [], sel_e = [], select_socks = [], max_fd = 0\<rparr>, s)"
  have wf: "map_wf (maps s mp)" using s by (simp add: serving_def reg_ok_def)
  note en = serving_entries [OF s]
  have en': "\<forall>(k, p) \<in> set (maps s mp). 0 < k \<and> k < FD_SETSIZE \<and> o_alive (objs (snd x0) p)" using en by (simp add: x0_def)
  obtain a where a: "select_args (maps s mp) x0 = (a, s)"
    using serving_select_args [OF s] by (metis x0_def prod.collapse)
  have socks: "select_socks a = map fst (filter (\<lambda>(k, p). v_readable p s \<or> v_writable p s) (maps s mp))"
    using select_args_socks [of "maps s mp" x0] by (simp add: a) (simp add: x0_def)
  have "distinct (select_socks a)"
    using map_wf_distinct [OF wf] by (simp add: socks distinct_map_filter)
  then have len: "length (select_socks a) \<le> 1024"
    by (rule distinct_fds) (use en in \<open>auto simp: socks\<close>)
  have "k \<in> set (select_socks a) \<and> k \<in> set (sel_w a)"
    if k: "map_find k (maps s mp) = Some p" "k \<noteq> l" "v_writable p s" for k p
  proof -
    have m: "(k, p) \<in> set (maps s mp)" using k(1) wf by (simp add: map_find_set)
    obtain b where "client_ok p k b s" using serving_served [OF s k(1,2)] by blast
    then have "\<not> BaseSocket_is_accepting p s" by (simp add: client_ok_def BaseSocket_is_accepting_def)
    moreover have "k \<in> set (select_socks a)" using m k(3) by (force simp: socks)
    ultimately show ?thesis
      using select_args_w [OF en'] m k(3) by (auto simp: a) (auto simp: x0_def)
  qed
  moreover have "0 < max_fd a"
  proof -
    obtain p where p: "map_find l (maps s mp) = Some p" "listens l p s" "0 < l" using s by (auto simp: serving_def)
    then have "(l, p) \<in> set (maps s mp)" "o_sock (objs s p) = l"
      using s wf by (auto simp: map_find_set serving_def reg_ok_def reg_entry_def)
    moreover from this p(2,3) have "v_readable p s"
      by (simp add: listens_def v_readable_def BaseSocket_readable_def BaseSocket_socket_def cp_socket_valid_def INVALID_SOCKET_def)
    ultimately have "l \<in> set (select_socks a)" by (force simp: socks)
    moreover have "\<forall>k \<in> set (select_socks a). k \<le> max_fd a"
      using select_args_max [of x0 "maps s mp"] by (simp add: a) (simp add: x0_def)
    ultimately show ?thesis using p(3) by auto
  qed
  ultimately show ?thesis using that [of a] a len by (simp add: x0_def)
qed

lemma serving_call:
  assumes s: "serving os l mp s"
    and "sys.more s' = sys.more s" "trace s' = trace s @ [e]" "ub s' = ub s" "e \<noteq> Ev_gettimeofday"
    and "\<And>k acc. rcvd_step k acc e = acc" "\<And>k bs. answered_step k bs e = bs" "\<And>A. open_step A e = A"
  shows "serving os l mp s'" "goes_on n mp s s'"
  using serving_neutral [OF s assms(2,3)] assms(4-8) world_of_sys(2) [OF assms(2)]
  by (simp_all add: goes_on_def assms(3) views_append)

lemma idle_stays_answered:
  assumes "serving os l mp s" "map_find k (maps s mp) = Some p" "k \<noteq> l" "\<not> v_writable p s" "goes_on n mp s s'"
  shows "all_answered k s s'"
  by (rule all_answered_goes_on [OF assms(1-3) goes_on_refl idle_client_answered [OF assms(1-4)] assms(5,2)])

text \<open>What \<open>select\<close> reports.\<close>

lemma select_served:
  assumes env: "environment_ok os" and s: "serving os l mp s"
    and se: "sys_select os m r0 w0 e0 t s = (n, (r, w, e), s')"
  shows "serving os l mp s'" "goes_on i mp s s'" "n \<noteq> SOCKET_ERROR \<Longrightarrow> e = []"
    "writes_ready os \<Longrightarrow> n \<noteq> SOCKET_ERROR \<and> set w = set w0"
proof -
  show "serving os l mp s'" "goes_on i mp s s'"
    using se by (auto simp: sys_select_def Let_def split: sum.splits prod.splits intro!: serving_call [OF s])
  have "case os_select os (trace s) m r0 w0 e0 t of Inl _ \<Rightarrow> True | Inr (r', w', e') \<Rightarrow> e' = []"
    using env by (simp add: environment_ok_def no_exceptions_def)
  then show "n \<noteq> SOCKET_ERROR \<Longrightarrow> e = []"
    using se by (auto simp: sys_select_def SOCKET_ERROR_def Let_def split: sum.splits prod.splits)
  assume "writes_ready os"
  then have "case os_select os (trace s) m r0 w0 e0 t of Inl _ \<Rightarrow> False | Inr (_, w', _) \<Rightarrow> set w0 \<subseteq> set w'"
    unfolding writes_ready_def by blast
  then show "n \<noteq> SOCKET_ERROR \<and> set w = set w0"
    using se by (auto simp: sys_select_def SOCKET_ERROR_def Let_def split: sum.splits prod.splits)
qed

lemma selected_dispatch:
  assumes env: "environment_ok os" and s: "serving os l mp s" and time: "spare 2048 s"
    and se: "sys_select os m r0 (sel_w a) e0 t s = (n, (r, w, e), s2)" "n \<noteq> SOCKET_ERROR"
    and len: "length (select_socks a) \<le> 1024"
    and wants: "\<And>k p. map_find k (maps s mp) = Some p \<Longrightarrow> k \<noteq> l \<Longrightarrow> v_writable p s \<Longrightarrow>
      k \<in> set (select_socks a) \<and> k \<in> set (sel_w a)"
  shows "\<exists>s'. returns (\<lambda>f. dispatch_all f os mp (r, w, e) (select_socks a) s2) s' \<and> serving os l mp s'
    \<and> goes_on 2048 mp s s'
    \<and> (writes_ready os \<longrightarrow> (\<forall>k p. map_find k (maps s mp) = Some p \<longrightarrow> k \<noteq> l \<longrightarrow> all_answered k s s'))"
proof -
  note sel = select_served [OF env s se(1)]
  have "spare (2 * length (select_socks a)) s2"
    by (rule goes_on_spare [OF sel(2) [of 0]]) (use time len in \<open>simp add: spare_def\<close>)
  with sel(3) [OF se(2)] obtain s' where
    s': "returns (\<lambda>f. dispatch_all f os mp (r, w, e) (select_socks a) s2) s'" "serving os l mp s'"
      "goes_on (2 * length (select_socks a)) mp s2 s'"
      "\<And>k p. k \<in> set (select_socks a) \<Longrightarrow> k \<in> set w \<Longrightarrow> k \<noteq> l \<Longrightarrow> map_find k (maps s2 mp) = Some p \<Longrightarrow> all_answered k s2 s'"
    using dispatch_served [OF env sel(1), of "select_socks a" r w] by blast
  have g: "goes_on 2048 mp s s'" using goes_on_trans [OF sel(2) [of 0] s'(3)] len by (simp add: goes_on_def)
  have "all_answered k s s'" if k: "writes_ready os" "map_find k (maps s mp) = Some p" "k \<noteq> l" for k p
  proof (cases "v_writable p s")
    case True
    have f: "map_find k (maps s2 mp) = Some p" "map_find k (maps s' mp) = Some p"
      using sel(2) [of 0] g k(2) by (simp_all add: goes_on_def)
    have "all_answered k s2 s'" using s'(4) [OF _ _ k(3) f(1)] wants [OF k(2,3) True] sel(4) [OF k(1)] by simp
    then show ?thesis by (rule all_answered_goes_on [OF s k(2,3) sel(2) [of 0] _ goes_on_refl f(2)])
  next
    case False
    show ?thesis by (rule idle_stays_answered [OF s k(2,3) False g])
  qed
  then show ?thesis using s'(1,2) g by blast
qed

lemma round_served:
  assumes env: "environment_ok os" and s: "serving os l mp s" and time: "spare 2048 s"
  shows "\<exists>s'. returns (\<lambda>n. do_select n os t mp s) s' \<and> serving os l mp s' \<and> goes_on 2048 mp s s'
    \<and> (writes_ready os \<longrightarrow> (\<forall>k p. map_find k (maps s mp) = Some p \<longrightarrow> k \<noteq> l \<longrightarrow> all_answered k s s'))"
proof -
  have reg: "reg_ok s" using s by (simp add: serving_def)
  obtain a where sel: "select_args (maps s mp)
      (\<lparr>sel_r = [], sel_w = [], sel_e = [], select_socks = [], max_fd = 0\<rparr>, s) = (a, s)"
    and len: "length (select_socks a) \<le> 1024"
    and wants: "\<And>k p. map_find k (maps s mp) = Some p \<Longrightarrow> k \<noteq> l \<Longrightarrow> v_writable p s \<Longrightarrow>
      k \<in> set (select_socks a) \<and> k \<in> set (sel_w a)"
    and max: "max_fd a \<noteq> 0"
    by (rule serving_selected [OF s]) fastforce
  have ne: "map_size (maps s mp) \<noteq> 0" using s by (auto simp: serving_def map_size_def)
  obtain n r w e s2 where se: "sys_select os (max_fd a + 1) (sel_r a) (sel_w a) (sel_e a) (t * 1000) s = (n, (r, w, e), s2)"
    by (metis prod.exhaust)
  have all: "do_select m os t mp s =
      (if n = SOCKET_ERROR then Some s2 else dispatch_all m os mp (r, w, e) (select_socks a) s2)" for m
    using do_select_all_eq [OF reg, of m os t mp] ne max sel se by (simp add: do_select_all_def)
  show ?thesis
  proof (cases "n = SOCKET_ERROR")
    case True
    with select_served(1,2,4) [OF env s se] show ?thesis by (auto simp: all)
  next
    case ok: False
    with selected_dispatch [OF env s time se ok len wants] show ?thesis by (simp add: all)
  qed
qed

end
