(* ===== verification/Server_Service.thy ===== *)
theory Server_Service
  imports Served_Clients
begin

text \<open>
  The server from its construction on: the state the constructor builds is one in which every
  client is served, the rounds of the event loop do not depend on the fuel, and so the service
  invariant holds after any number of rounds the clock has names for.
\<close>

subsection \<open>Construction\<close>

text \<open>The states the constructor goes through.\<close>

lemma create_socket_state:
  assumes "o_alive (objs s p)" "o_handlers (objs s p) = Some mp" "map_find k (maps s mp) = None"
    "os_socket os (trace s) AF_INET SOCK_STREAM IPPROTO_TCP = Inr k" "cp_socket_valid k"
  shows "\<exists>fl r e. snd (BaseSocket_create_socket os p AF_INET SOCK_STREAM s) =
    s\<lparr>trace := trace s @ [Ev_socket AF_INET SOCK_STREAM IPPROTO_TCP k, Ev_getfl k fl, Ev_setfl k (fl OR O_NONBLOCK) r],
      errno := e, objs := (objs s)(p := (objs s p)\<lparr>o_family_type := (AF_INET, SOCK_STREAM), o_sock := k\<rparr>),
      maps := (maps s)(mp := map_insert k p (maps s mp))\<rparr>"
proof -
  define s1 where "s1 = s\<lparr>objs := (objs s)(p := (objs s p)\<lparr>o_family_type := (AF_INET, SOCK_STREAM)\<rparr>)\<rparr>"
  define s3 where "s3 = s\<lparr>trace := trace s @ [Ev_socket AF_INET SOCK_STREAM IPPROTO_TCP k],
      objs := (objs s)(p := (objs s p)\<lparr>o_family_type := (AF_INET, SOCK_STREAM), o_sock := k\<rparr>)\<rparr>"
  have up: "upd_obj p (\<lambda>x. x\<lparr>o_family_type := (AF_INET, SOCK_STREAM)\<rparr>) s = s1"
    using assms(1) by (simp add: upd_obj_def s1_def)
  have "cp_socket_tcp os AF_INET SOCK_STREAM IPPROTO_TCP s1 = (k, emit (Ev_socket AF_INET SOCK_STREAM IPPROTO_TCP k) s1)"
    using assms(4) by (simp add: cp_socket_tcp_def cp_socket_def sys_socket_def s1_def)
  moreover have "upd_obj p (\<lambda>x. x\<lparr>o_sock := k\<rparr>) (emit (Ev_socket AF_INET SOCK_STREAM IPPROTO_TCP k) s1) = s3"
    using assms(1) by (simp add: upd_obj_def s1_def s3_def)
  moreover obtain fl r e where "snd (cp_setblocking os k False s3) =
      s3\<lparr>trace := trace s3 @ [Ev_getfl k fl, Ev_setfl k (fl OR O_NONBLOCK) r], errno := e\<rparr>"
    by (rule cp_setblocking_state [of os k False s3]) simp
  moreover have "BaseSocket_set_socket p k (Some mp) (s3\<lparr>trace := h, errno := e\<rparr>) =
      s3\<lparr>trace := h, errno := e, maps := (maps s)(mp := map_insert k p (maps s mp))\<rparr>" for h
    using assms(1,3)
    by (simp add: BaseSocket_set_socket_def BaseSocket_add_channel_def channel_erase_def upd_obj_def s3_def)
  moreover have "o_sock (objs s3 p) = k" "o_handlers (objs s3 p) = Some mp" using assms(2) by (simp_all add: s3_def)
  ultimately have "snd (BaseSocket_create_socket os p AF_INET SOCK_STREAM s) =
      s3\<lparr>trace := trace s3 @ [Ev_getfl k fl, Ev_setfl k (fl OR O_NONBLOCK) r], errno := e, maps := (maps s)(mp := map_insert k p (maps s mp))\<rparr>"
    using assms(5) by (simp add: BaseSocket_create_socket_def up Let_def case_prod_beta)
  then show ?thesis by (intro exI [of _ fl] exI [of _ r] exI [of _ e]) (simp add: s3_def)
qed

lemma bind_state:
  assumes "o_alive (objs s p)" "pton_ok os" "host_addr os (host_ptr a) = Some x"
  shows "\<exists>e r. snd (BaseSocket_bind os p a af s) =
    s\<lparr>trace := trace s @ [Ev_bind (o_sock (objs s p)) \<lparr>sin_family = af, sin_port = htons (snd a), s_addr = x\<rparr> r],
      errno := e, objs := (objs s)(p := (objs s p)\<lparr>o_addr := a\<rparr>)\<rparr>"
proof -
  let ?b = "os_bind os (trace s) (o_sock (objs s p)) \<lparr>sin_family = af, sin_port = htons (snd a), s_addr = x\<rparr>"
  show ?thesis
    by (rule exI [of _ "case ?b of Inl e \<Rightarrow> e | Inr _ \<Rightarrow> errno s"], rule exI [of _ "case ?b of Inl e \<Rightarrow> -1 | Inr _ \<Rightarrow> 0"])
      (use assms in \<open>cases s; simp add: BaseSocket_bind_def Let_def cp_bind_host sys_bind_def upd_obj_def split: sum.split\<close>)
qed

lemma listen_state:
  assumes "o_alive (objs s p)"
  shows "\<exists>e r. snd (BaseSocket_listen os p n s) =
    s\<lparr>trace := trace s @ [Ev_listen (o_sock (objs s p)) n r], errno := e,
      objs := (objs s)(p := (objs s p)\<lparr>o_accepting := True\<rparr>)\<rparr>"
proof -
  let ?l = "os_listen os (trace s) (o_sock (objs s p)) n"
  show ?thesis
    by (rule exI [of _ "case ?l of Inl e \<Rightarrow> e | Inr _ \<Rightarrow> errno s"], rule exI [of _ "case ?l of Inl e \<Rightarrow> -1 | Inr _ \<Rightarrow> 0"])
      (use assms in \<open>cases s; simp add: BaseSocket_listen_def Let_def cp_listen_def sys_listen_def upd_obj_def split: sum.split\<close>)
qed
lemma server_state:
  fixes host :: "string option" and port :: u16
  assumes "map_find k (maps s mp) = None" "os_socket os (trace s) AF_INET SOCK_STREAM IPPROTO_TCP = Inr k" "cp_socket_valid k"
    and "pton_ok os" "host_addr os (host_ptr (case host of None \<Rightarrow> '''' | Some h \<Rightarrow> h, port)) = Some x"
  shows "\<exists>X e fl r y r1 r2. snd (TCPServer_ctor os host port (Some mp) s) =
    s\<lparr>trace := trace s @ [Ev_socket AF_INET SOCK_STREAM IPPROTO_TCP k, Ev_getfl k fl, Ev_setfl k (fl OR O_NONBLOCK) r,
        Ev_bind k y r1, Ev_listen k 5 r2], errno := e,
      objs := (objs s)(next_obj s := X), next_obj := Suc (next_obj s),
      maps := (maps s)(mp := map_insert k (next_obj s) (maps s mp))\<rparr>
    \<and> o_alive X \<and> o_class X = Cls_TCPServerImpl \<and> o_accepting X"
proof -
  let ?p = "next_obj s" and ?a = "(case host of None \<Rightarrow> '''' | Some h \<Rightarrow> h, port)"
  define s2 where "s2 = BaseSocket_ctor os ?p INVALID_SOCKET (Some mp) (snd (new_obj Cls_TCPServerImpl s))"
  define X where "X = objs s2 ?p"
  have X: "s2 = s\<lparr>objs := (objs s)(?p := X), next_obj := Suc ?p\<rparr>" "o_alive X"
    "o_class X = Cls_TCPServerImpl" "o_handlers X = Some mp"
    by (simp_all add: X_def s2_def BaseSocket_ctor_def cp_socket_valid_def upd_obj_def new_obj_def blank_obj_def)
  have s2: "o_alive (objs s2 ?p)" "o_class (objs s2 ?p) = Cls_TCPServerImpl" "o_handlers (objs s2 ?p) = Some mp"
    using X(2-4) by (simp_all add: X(1))
  have m: "map_find k (maps s2 mp) = None" "os_socket os (trace s2) AF_INET SOCK_STREAM IPPROTO_TCP = Inr k"
    using assms(1,2) by (simp_all add: X(1))
  obtain fl r e0 s3 where s3: "s3 = snd (BaseSocket_create_socket os ?p AF_INET SOCK_STREAM s2)" "s3 =
    s2\<lparr>trace := trace s2 @ [Ev_socket AF_INET SOCK_STREAM IPPROTO_TCP k, Ev_getfl k fl, Ev_setfl k (fl OR O_NONBLOCK) r],
      errno := e0, objs := (objs s2)(?p := (objs s2 ?p)\<lparr>o_family_type := (AF_INET, SOCK_STREAM), o_sock := k\<rparr>),
      maps := (maps s2)(mp := map_insert k ?p (maps s2 mp))\<rparr>"
    using create_socket_state [OF s2(1,3) m assms(3)] by blast
  have o3: "o_alive (objs s3 ?p)" "o_sock (objs s3 ?p) = k" "o_class (objs s3 ?p) = Cls_TCPServerImpl"
    using s2(1,2) by (simp_all add: s3(2))
  obtain e1 r1 s4 where s4: "s4 = snd (BaseSocket_bind os ?p ?a AF_INET s3)" "s4 =
      s3\<lparr>trace := trace s3 @ [Ev_bind k \<lparr>sin_family = AF_INET, sin_port = htons port, s_addr = x\<rparr> r1],
        errno := e1, objs := (objs s3)(?p := (objs s3 ?p)\<lparr>o_addr := ?a\<rparr>)\<rparr>"
    using bind_state [OF o3(1) assms(4,5), of AF_INET] o3(2) by auto
  have o4: "o_alive (objs s4 ?p)" "o_sock (objs s4 ?p) = k" using o3 by (simp_all add: s4(2))
  obtain e2 r2 s5 where s5: "s5 = snd (BaseSocket_listen os ?p 5 s4)" "s5 =
      s4\<lparr>trace := trace s4 @ [Ev_listen k 5 r2], errno := e2,
        objs := (objs s4)(?p := (objs s4 ?p)\<lparr>o_accepting := True\<rparr>)\<rparr>"
    using listen_state [OF o4(1), of os 5] o4(2) by auto
  have o5: "o_alive (objs s5 ?p)" "o_class (objs s5 ?p) = Cls_TCPServerImpl" "o_accepting (objs s5 ?p)"
    using o3 by (simp_all add: s5(2) s4(2))
  have "snd (TCPServer_ctor os host port (Some mp) s) = s5"
    using o5(1) by (simp add: TCPServer_ctor_def TCPServerImpl_ctor_def Let_def case_prod_beta
        BaseSocket_set_reuse_addr_def s5(1) s4(1) s3(1) s2_def new_obj_def)
  moreover have "s5 = s\<lparr>trace := trace s @ [Ev_socket AF_INET SOCK_STREAM IPPROTO_TCP k, Ev_getfl k fl, Ev_setfl k (fl OR O_NONBLOCK) r,
        Ev_bind k \<lparr>sin_family = AF_INET, sin_port = htons port, s_addr = x\<rparr> r1, Ev_listen k 5 r2], errno := e2,
      objs := (objs s)(?p := objs s5 ?p), next_obj := Suc ?p,
      maps := (maps s)(mp := map_insert k ?p (maps s mp))\<rparr>"
    by (simp add: s5(2) s4(2) s3(2) X(1))
  ultimately show ?thesis using o5 by blast
qed

definition starts_ok :: "os \<Rightarrow> string option \<Rightarrow> u16 \<Rightarrow> cp_socket_t \<Rightarrow> bool" where
  "starts_ok os host port l =
     (os_socket os [] AF_INET SOCK_STREAM IPPROTO_TCP = Inr l \<and> 0 < l \<and> l < FD_SETSIZE \<and> pton_ok os \<and>
      host_addr os (host_ptr (case host of None \<Rightarrow> '''' | Some h \<Rightarrow> h, port)) \<noteq> None)"

lemma serving_start:
  fixes mp :: nat
  assumes "starts_ok os host port l"
  defines "s \<equiv> snd (TCPServer_ctor os host port (Some mp) start_world)"
  shows "serving os l mp s" "ub s = []" "ticks (trace s) = 0"
proof -
  obtain x where x: "host_addr os (host_ptr (case host of None \<Rightarrow> '''' | Some h \<Rightarrow> h, port)) = Some x"
    using assms(1) by (auto simp: starts_ok_def)
  have ok: "map_find l (maps start_world mp) = None" "os_socket os (trace start_world) AF_INET SOCK_STREAM IPPROTO_TCP = Inr l"
    "cp_socket_valid l" "pton_ok os" "0 < l" "l < FD_SETSIZE"
    using assms(1) by (simp_all add: starts_ok_def start_world_def cp_socket_valid_def INVALID_SOCKET_def)
  obtain X e fl r y r1 r2 where s: "s = start_world\<lparr>trace := trace start_world @
        [Ev_socket AF_INET SOCK_STREAM IPPROTO_TCP l, Ev_getfl l fl, Ev_setfl l (fl OR O_NONBLOCK) r, Ev_bind l y r1, Ev_listen l 5 r2],
        errno := e, objs := (objs start_world)(next_obj start_world := X), next_obj := Suc (next_obj start_world),
        maps := (maps start_world)(mp := map_insert l (next_obj start_world) (maps start_world mp))\<rparr>"
    "o_alive X" "o_class X = Cls_TCPServerImpl" "o_accepting X"
    using server_state [OF ok(1-4) x] unfolding s_def by blast
  have reg: "reg_ok s" unfolding s_def by (rule reg_ok_TCPServer_ctor [OF reg_ok_start])
  have "caches s = (\<lambda>_. None)" "streams s = (\<lambda>_. None)" by (simp_all add: s(1) start_world_def)
  then have "\<not> live q s" "heap_wf s" for q
    using live_in_use [of q s] by (auto simp: heap_wf_def)
  then have "store_ok os s"
    using \<open>caches s = (\<lambda>_. None)\<close> by (simp add: store_ok_def live_def)
  moreover have m: "map_find k (maps s mp) = (if k = l then Some 0 else None)" for k
    by (simp add: s(1) start_world_def)
  moreover have "listens l 0 s" using s(2-4) by (simp add: listens_def s(1) start_world_def)
  moreover have "l \<in> open_fds (trace s)" using ok(5) by (simp add: s(1) start_world_def open_fds_def INVALID_SOCKET_def)
  ultimately show "serving os l mp s" using reg ok(5,6) by (auto simp: serving_def split: if_splits)
  show "ub s = []" "ticks (trace s) = 0" by (simp_all add: s(1) start_world_def)
qed

subsection \<open>A round does not depend on the fuel\<close>

lemma serve_one_fuel:
  assumes "\<And>p s x. handler f p s = Some x \<Longrightarrow> returns (\<lambda>n. handler n p s) x"
    and "serve_one ready (handler f) mp k fds s = Some y"
  shows "returns (\<lambda>n. serve_one ready (handler n) mp k fds s) y"
proof (cases "\<exists>p. map_find k (maps s mp) = Some p \<and> FD_ISSET k fds \<and> ready p (touch p s)")
  case True
  then obtain p x where p: "map_find k (maps s mp) = Some p" "FD_ISSET k fds" "ready p (touch p s)"
    and x: "handler f p (touch p s) = Some x" "y = (False, x)"
    using assms(2) by (auto simp: serve_one_def Let_def)
  obtain N where "\<forall>n \<ge> N. handler n p (touch p s) = Some x" using assms(1) [OF x(1)] by (auto simp: returns_def)
  with p x(2) have "\<forall>n \<ge> N. serve_one ready (handler n) mp k fds s = Some y" by (simp add: serve_one_def Let_def)
  then show ?thesis unfolding returns_def by blast
next
  case False
  then have "serve_one ready (handler n) mp k fds s = serve_one ready (handler f) mp k fds s" for n
    by (auto simp: serve_one_def Let_def split: option.splits)
  then show ?thesis using assms(2) by simp
qed

lemma read_turn_fuel:
  assumes "serve_one ready (handle_read_event f os) mp k fds s = Some y"
  shows "returns (\<lambda>n. serve_one ready (handle_read_event n os) mp k fds s) y"
  by (rule serve_one_fuel [where handler = "\<lambda>n. handle_read_event n os", OF _ assms]) (rule read_event_fuel)

lemma write_turn_fuel:
  assumes "serve_one ready (handle_write_event f os) mp k fds s = Some y"
  shows "returns (\<lambda>n. serve_one ready (handle_write_event n os) mp k fds s) y"
  by (rule serve_one_fuel [where handler = "\<lambda>n. handle_write_event n os", OF _ assms]) (rule write_event_fuel)

lemma dispatch_all_fuel:
  assumes "dispatch_all f os mp (r, w, e) ks s = Some x"
  shows "returns (\<lambda>n. dispatch_all n os mp (r, w, e) ks s) x"
  using assms
proof (induction ks arbitrary: s)
  case (Cons k ks)
  obtain c1 s1 where one: "serve_one v_readable (handle_read_event f os) mp k r s = Some (c1, s1)"
    using Cons.prems by (auto split: option.splits)
  obtain a where a: "\<forall>n \<ge> a. serve_one v_readable (handle_read_event n os) mp k r s = Some (c1, s1)"
    using read_turn_fuel [OF one] by (auto simp: returns_def)
  show ?case
  proof (cases c1)
    case True
    then have "dispatch_all f os mp (r, w, e) ks s1 = Some x" using Cons.prems one by simp
    from Cons.IH [OF this] obtain d where "\<forall>n \<ge> d. dispatch_all n os mp (r, w, e) ks s1 = Some x" by (auto simp: returns_def)
    with a True have "\<forall>n \<ge> max a d. dispatch_all n os mp (r, w, e) (k # ks) s = Some x" by simp
    then show ?thesis unfolding returns_def by blast
  next
    case False
    then obtain c2 s2 where two: "serve_one v_writable (handle_write_event f os) mp k w s1 = Some (c2, s2)"
      using Cons.prems one by (auto split: option.splits)
    obtain b where b: "\<forall>n \<ge> b. serve_one v_writable (handle_write_event n os) mp k w s1 = Some (c2, s2)"
      using write_turn_fuel [OF two] by (auto simp: returns_def)
    define y where "y = serve_one (\<lambda>p s. v_readable p s \<or> v_writable p s) (\<lambda>p s. Some (handle_expt_event os p s)) mp k e s2"
    obtain t where t: "c2 \<and> t = s2 \<or> \<not> c2 \<and> (\<exists>c. y = Some (c, t))" "dispatch_all f os mp (r, w, e) ks t = Some x"
      using Cons.prems one two False by (cases c2) (auto simp flip: y_def split: option.splits)
    from Cons.IH [OF t(2)] obtain d where "\<forall>n \<ge> d. dispatch_all n os mp (r, w, e) ks t = Some x" by (auto simp: returns_def)
    with a b t(1) False have "\<forall>n \<ge> max a (max b d). dispatch_all n os mp (r, w, e) (k # ks) s = Some x"
      by (auto simp flip: y_def)
    then show ?thesis unfolding returns_def by blast
  qed
qed simp

lemma do_select_fuel:
  assumes "reg_ok s" "do_select f os t mp s = Some x"
  shows "returns (\<lambda>n. do_select n os t mp s) x"
  using assms(2) dispatch_all_fuel
  unfolding do_select_all_eq [OF assms(1)]
  by (auto simp: do_select_all_def Let_def split: if_splits prod.splits)

subsection \<open>The service\<close>

text \<open>The states after a number of rounds of the event loop, whatever fuel the rounds are given.\<close>

inductive service :: "os \<Rightarrow> string option \<Rightarrow> u16 \<Rightarrow> nat \<Rightarrow> int \<Rightarrow> nat \<Rightarrow> world \<Rightarrow> bool"
  for os host port mp timeout_ms
where
  start: "service os host port mp timeout_ms 0 (snd (TCPServer_ctor os host port (Some mp) start_world))"
| round: "service os host port mp timeout_ms n s \<Longrightarrow> do_select fuel os timeout_ms mp s = Some s' \<Longrightarrow>
    service os host port mp timeout_ms (Suc n) s'"

lemma service_serving:
  assumes env: "environment_ok os" and st: "starts_ok os host port l"
    and "service os host port mp timeout_ms n s" "n < 10 ^ 17"
  shows "serving os l mp s \<and> ub s = [] \<and> ticks (trace s) \<le> 70000 * 2048 * n"
  using assms(3,4)
proof (induction rule: service.induct)
  case start
  then show ?case using serving_start [OF st] by simp
next
  case (round n s fuel s')
  then have s: "serving os l mp s" "ub s = []" "ticks (trace s) \<le> 70000 * 2048 * n" by simp_all
  have "spare 2048 s" using s(3) round.prems by (simp add: spare_def LIFETIME_def)
  then obtain s2 where s2: "returns (\<lambda>n. do_select n os timeout_ms mp s) s2" "serving os l mp s2" "goes_on 2048 mp s s2"
    using round_served [OF env s(1)] by blast
  have "reg_ok s" using s(1) by (simp add: serving_def)
  from returns_unique [OF do_select_fuel [OF this round.hyps(2)] s2(1)] s s2(2,3) show ?case
    by (simp add: goes_on_def)
qed

lemma serving_map: "serving os l mp s \<Longrightarrow> map_size (maps s mp) \<noteq> 0"
  by (auto simp: serving_def map_size_def)

text \<open>The rounds of \<open>loop\<close> are rounds of the service.\<close>

lemma loop_count_service:
  assumes env: "environment_ok os" and st: "starts_ok os host port l"
    and "service os host port mp timeout_ms m s" "m + n \<le> 10 ^ 17"
  shows "\<exists>s'. returns (\<lambda>h. loop_count n h os timeout_ms mp s) s' \<and> service os host port mp timeout_ms (m + n) s'"
  using assms(3,4)
proof (induction n arbitrary: m s)
  case (Suc n)
  have s: "serving os l mp s" "ticks (trace s) \<le> 70000 * 2048 * m"
    using service_serving [OF env st Suc.prems(1)] Suc.prems(2) by simp_all
  have "spare 2048 s" using s(2) Suc.prems(2) by (simp add: spare_def LIFETIME_def)
  then obtain s1 where s1: "returns (\<lambda>h. do_select h os timeout_ms mp s) s1"
    using round_served [OF env s(1)] by blast
  then obtain f where "do_select f os timeout_ms mp s = Some s1" by (auto simp: returns_def)
  from Suc.IH [OF service.round [OF Suc.prems(1) this]] Suc.prems(2) obtain s' where
    s': "returns (\<lambda>h. loop_count n h os timeout_ms mp s1) s'" "service os host port mp timeout_ms (m + Suc n) s'"
    by auto
  from returns_bind [OF s1, where g = "\<lambda>h. loop_count n h os timeout_ms mp", OF s'(1)] serving_map [OF s(1)] s'(2)
  show ?case by auto
qed auto

subsection \<open>A world of clients\<close>

text \<open>
  An environment that meets the hypotheses: the clock counts its readings, connections come in on
  descriptors that were never used, and every client sends requests without end, a request of
  1024 bytes at a time, or what is missing of one byte by byte.
\<close>

fun is_accept :: "event \<Rightarrow> bool" where
  "is_accept (Ev_accept l k) = True"
| "is_accept _ = False"

definition busy_os :: os where
  "busy_os = good_os
     \<lparr>os_gettimeofday := \<lambda>h. (ticks h div 10 ^ 6 mod 10 ^ 20, ticks h mod 10 ^ 6),
      os_accept := \<lambda>h l. (let k = 4 + int (length (filter is_accept h)) in
        if k < FD_SETSIZE \<and> k \<notin> open_fds h then Inr (k, \<lparr>sin_family = 2, sin_port = 0, s_addr = 0\<rparr>)
        else Inl EINVAL),
      os_select := \<lambda>h n r w e t. Inr (r, w, []),
      os_recv := \<lambda>h k n f. Inr (case rx_run Rx_idle (rcvd k h) of
          Some (ms, Rx_body i m got) \<Rightarrow> [0]
        | _ \<Rightarrow> message 7 (replicate 1024 0))\<rparr>"

lemma busy_clock: "clock_ticks busy_os"
proof -
  have "(a div 10 ^ 6 mod 10 ^ 20, a mod 10 ^ 6) \<noteq> (b div 10 ^ 6 mod 10 ^ 20, b mod 10 ^ 6)"
    if "a < b" "b < 10 ^ 26" for a b :: nat
  proof -
    have "a div 10 ^ 6 < 10 ^ 20" "b div 10 ^ 6 < 10 ^ 20" using that by (auto intro!: less_mult_imp_div_less)
    moreover have "\<not> (a div 10 ^ 6 = b div 10 ^ 6 \<and> a mod 10 ^ 6 = b mod 10 ^ 6)"
      using that(1) by (metis div_mult_mod_eq less_irrefl)
    ultimately show ?thesis by simp
  qed
  then show ?thesis by (simp add: clock_ticks_def busy_os_def LIFETIME_def)
qed

lemma rx_run_wf:
  assumes "rx_run a bs = Some (ms, b)" "rx_wf a"
  shows "rx_wf b"
  using assms
proof (induction bs arbitrary: a ms)
  case (Cons x bs)
  then show ?case by (auto split: option.splits dest: rx_parse_wf)
qed simp

lemma busy_clients: "clients_conform busy_os"
proof -
  let ?m = "message 7 (replicate 1024 0)"
  have m: "length ?m = 1032" "?m \<noteq> []" by (simp_all add: message_def net_header_def)
  have "rx_run Rx_idle (rcvd k h @ [case rx_run Rx_idle (rcvd k h) of
      Some (ms, Rx_body i m got) \<Rightarrow> [0] | _ \<Rightarrow> ?m]) \<noteq> None"
    if run: "rx_run Rx_idle (rcvd k h) = Some (ms, a)" for k h ms a
  proof (cases a)
    case Rx_idle
    then show ?thesis using run rx_parse_message [of "replicate 1024 0" 7] by (simp add: rx_run_snoc)
  next
    case (Rx_body i n got)
    then have "length got < unat n" using rx_run_wf [OF run] by simp
    then have "rx_parse a [0] \<noteq> None"
      by (auto simp: Rx_body rx_parse.simps(2) rx_parse.simps(1) Let_def drop_Cons')
    then show ?thesis using run Rx_body by (simp add: rx_run_snoc)
  qed
  then show ?thesis using m
    by (auto simp: clients_conform_def busy_os_def split: option.splits rx.splits)
qed

lemma busy_environment: "environment_ok busy_os" "starts_ok busy_os None 7890 3" "writes_ready busy_os"
proof -
  have "disk_ok busy_os" "alloc_ok busy_os" "send_ok busy_os k" "no_exceptions busy_os" "accepts_fresh busy_os" for k
    by (simp_all add: busy_os_def good_os_def disk_ok_def alloc_ok_def send_ok_def no_exceptions_def accepts_fresh_def
        peer_named_def Let_def)
  then show "environment_ok busy_os" using busy_clock busy_clients by (simp add: environment_ok_def)
  show "starts_ok busy_os None 7890 3" "writes_ready busy_os"
    by (simp_all add: starts_ok_def writes_ready_def busy_os_def good_os_def FD_SETSIZE_def pton_ok_def
        host_addr_def host_ptr_def)
qed

lemma busy_first_round:
  "\<exists>s'. do_select 1 busy_os 1000 1 (snd (TCPServer_ctor busy_os None 7890 (Some 1) start_world)) = Some s'
    \<and> map_find 4 (maps s' 1) = Some 1"
proof -
  define s where "s = snd (TCPServer_ctor busy_os None 7890 (Some 1) start_world)"
  have ok: "map_find 3 (maps start_world 1) = None" "os_socket busy_os (trace start_world) AF_INET SOCK_STREAM IPPROTO_TCP = Inr 3"
    "cp_socket_valid 3" "pton_ok busy_os"
    "host_addr busy_os (host_ptr (case None of None \<Rightarrow> '''' | Some h \<Rightarrow> h, 7890)) = Some INADDR_ANY"
    by (simp_all add: start_world_def busy_os_def good_os_def cp_socket_valid_def INVALID_SOCKET_def pton_ok_def
        host_addr_def host_ptr_def)
  obtain X e fl r y r1 r2 where s: "s = start_world\<lparr>trace := trace start_world @
        [Ev_socket AF_INET SOCK_STREAM IPPROTO_TCP 3, Ev_getfl 3 fl, Ev_setfl 3 (fl OR O_NONBLOCK) r, Ev_bind 3 y r1, Ev_listen 3 5 r2],
        errno := e, objs := (objs start_world)(next_obj start_world := X), next_obj := Suc (next_obj start_world),
        maps := (maps start_world)(1 := map_insert 3 (next_obj start_world) (maps start_world 1))\<rparr>"
    "o_alive X" "o_class X = Cls_TCPServerImpl" "o_accepting X"
    using server_state [OF ok] unfolding s_def by blast
  have reg: "reg_ok s" unfolding s_def by (rule reg_ok_TCPServer_ctor [OF reg_ok_start])
  have v: "maps s 1 = [(3, 0)]" "objs s 0 = X" "next_obj s = 1" "heap_wf s"
    by (simp_all add: s(1) start_world_def heap_wf_def)
  have "map_find 3 (maps s 1) = Some 0" unfolding v(1) by simp
  then have "o_sock (objs s 0) = 3" using reg unfolding reg_ok_def reg_entry_def by blast
  then have x: "o_sock (objs s 0) = 3" "o_alive (objs s 0)" "o_class (objs s 0) = Cls_TCPServerImpl" "o_accepting (objs s 0)"
    using s(2-4) v(2) by simp_all
  define s2 where "s2 = emit (Ev_select 4 [3] [] [3] 1000000 1) s"
  have reg2: "reg_ok s2" using reg_ok_sys [of s2 s] reg by (simp add: s2_def)
  have acc: "os_accept busy_os (trace s2) 3 = Inr (4, \<lparr>sin_family = 2, sin_port = 0, s_addr = 0\<rparr>)"
    by (simp add: busy_os_def s2_def s(1) start_world_def open_fds_def FD_SETSIZE_def INVALID_SOCKET_def)
  have named: "peer_named busy_os 4" "cp_socket_valid 4"
    by (simp_all add: peer_named_def busy_os_def good_os_def cp_socket_valid_def INVALID_SOCKET_def)
  have e2: "map_find 3 (maps s2 1) = Some 0" "o_class (objs s2 0) = Cls_TCPServerImpl" "o_accepting (objs s2 0)"
    "map_find 4 (maps s2 1) = None" "heap_wf s2" "next_obj s2 = 1" "o_sock (objs s2 0) = 3" "o_alive (objs s2 0)"
    using x v by (simp_all add: s2_def heap_wf_def)
  obtain s' where s': "handle_read_event 1 busy_os 0 s2 = Some s'"
    "\<And>j m. map_find j (maps s' m) = (if m = 1 \<and> j = 4 then Some 1 else map_find j (maps s2 m))"
    using server_accepts [OF reg2 e2(1-3) acc named(2) e2(4) named(1) e2(5), of 1] e2(6) by auto
  have sel: "sys_select busy_os 4 [3] [] [3] 1000000 s = (1, ([3], [], []), s2)"
    by (simp add: sys_select_def busy_os_def s2_def Let_def)
  have "do_select 1 busy_os 1000 1 s = Some s'"
    using sel s' x v e2
    by (simp add: do_select_all_eq [OF reg] do_select_all_def map_size_def want_read_def want_write_def want_expt_def
        FD_SET_def FD_SETSIZE_def raise_max_def v_readable_def v_writable_def BaseSocket_readable_def BaseSocket_writable_def
        BaseSocket_socket_def BaseSocket_is_accepting_def cp_socket_valid_def INVALID_SOCKET_def SOCKET_ERROR_def
        serve_one_def FD_ISSET_def touch_def Let_def)
  moreover have "map_find 4 (maps s' 1) = Some 1" by (simp add: s'(2))
  ultimately show ?thesis unfolding s_def by blast
qed

subsection \<open>Properties\<close>

text \<open>
  C1. A server that comes up (\<open>starts_ok\<close>: its socket is created with a descriptor below 1024 and its
  host can be read) in an environment that does not fail and with clients that keep to the
  protocol (\<open>environment_ok\<close>: disk, allocator and \<open>send\<close> take what they are given, \<open>recv\<close> does not fail and
  no client hangs up, sends a body of fewer than 1024 bytes or splits a header between buffers, no
  exceptional event is reported, the clock shows no time twice, accepted descriptors are new, have
  a peer name and lie below 1024): in every state it reaches in its first \<open>10 ^ 17\<close> rounds, with any
  number of clients connecting and sending in any order, nothing undefined has happened, and
  every registered client has been sent exactly the answers to the first \<open>m\<close> of the requests its conversation
  holds, in order, while its handler has the answers to the others queued: no answer is lost,
  doubled, reordered, or sent to another client.
\<close>

theorem server_answers_every_client:
  assumes "environment_ok os" "starts_ok os host port l" "service os host port mp timeout_ms n s" "n < 10 ^ 17"
  shows "ub s = [] \<and> (\<forall>k p. map_find k (maps s mp) = Some p \<and> k \<noteq> l \<longrightarrow>
    (\<exists>ms a m. m \<le> length ms \<and> rx_run Rx_idle (rcvd k (trace s)) = Some (ms, a)
      \<and> answered k (trace s) = concat (answers (take m ms))
      \<and> wires (o_session (objs s p)) s = answers (drop m ms)))"
proof -
  have s: "serving os l mp s" "ub s = []" using service_serving [OF assms] by simp_all
  have "\<exists>ms a m. m \<le> length ms \<and> rx_run Rx_idle (rcvd k (trace s)) = Some (ms, a)
      \<and> answered k (trace s) = concat (answers (take m ms)) \<and> wires (o_session (objs s p)) s = answers (drop m ms)"
    if "map_find k (maps s mp) = Some p" "k \<noteq> l" for k p
    by (rule serving_served [OF s(1) that]) blast
  with s(2) show ?thesis by blast
qed

theorem server_answers_every_client_witness:
  "\<exists>s. service busy_os None 7890 1 1000 1 s \<and> map_find 4 (maps s 1) = Some 1 \<and> ub s = []
    \<and> (\<exists>ms a m. m \<le> length ms \<and> rx_run Rx_idle (rcvd 4 (trace s)) = Some (ms, a)
      \<and> answered 4 (trace s) = concat (answers (take m ms)) \<and> wires (o_session (objs s 1)) s = answers (drop m ms))"
proof -
  obtain s where s: "do_select 1 busy_os 1000 1 (snd (TCPServer_ctor busy_os None 7890 (Some 1) start_world)) = Some s"
    "map_find 4 (maps s 1) = Some 1" using busy_first_round by blast
  have "service busy_os None 7890 1 1000 (Suc 0) s" by (rule service.round [OF service.start s(1)])
  with server_answers_every_client [OF busy_environment(1,2), of 1 1000 1 s] s(2) show ?thesis by auto
qed

text \<open>
  C2. Under the same hypotheses (the server came up, the environment does not fail, the clients stay
  connected and keep to the protocol): the next round of \<open>do_select\<close> from any such state ends, whatever
  it finds ready, without undefined behaviour and with every client still registered; and when
  \<open>select\<close> reports the sockets that can be written to, every request a client had completed before
  the round is answered after it.
\<close>

theorem server_round_answers:
  assumes "environment_ok os" "starts_ok os host port l" "service os host port mp timeout_ms n s" "n < 10 ^ 17"
  shows "\<exists>N s'. (\<forall>fuel \<ge> N. do_select fuel os timeout_ms mp s = Some s') \<and> ub s' = []
    \<and> (\<forall>k p. map_find k (maps s mp) = Some p \<and> k \<noteq> l \<longrightarrow> map_find k (maps s' mp) = Some p
      \<and> (writes_ready os \<longrightarrow>
          (\<exists>ms a. rx_run Rx_idle (rcvd k (trace s)) = Some (ms, a) \<and> prefix (concat (answers ms)) (answered k (trace s')))))"
proof -
  have s: "serving os l mp s" "ub s = []" "ticks (trace s) \<le> 70000 * 2048 * n"
    using service_serving [OF assms(1-4)] by simp_all
  have "spare 2048 s" using s(3) assms(4) by (simp add: spare_def LIFETIME_def)
  then obtain s' where s': "returns (\<lambda>n. do_select n os timeout_ms mp s) s'" "goes_on 2048 mp s s'"
    "\<And>k p. writes_ready os \<Longrightarrow> map_find k (maps s mp) = Some p \<Longrightarrow> k \<noteq> l \<Longrightarrow> all_answered k s s'"
    using round_served [OF assms(1) s(1)] by blast
  from s'(1) obtain N where "\<forall>fuel \<ge> N. do_select fuel os timeout_ms mp s = Some s'" by (auto simp: returns_def)
  with s'(2,3) s(2) show ?thesis unfolding goes_on_def all_answered_def by (intro exI [of _ N] exI [of _ s']) simp
qed

theorem server_round_answers_witness:
  "\<exists>s N s'. service busy_os None 7890 1 1000 1 s \<and> (\<forall>fuel \<ge> N. do_select fuel busy_os 1000 1 s = Some s')
    \<and> map_find 4 (maps s' 1) = Some 1
    \<and> (\<exists>ms a. rx_run Rx_idle (rcvd 4 (trace s)) = Some (ms, a) \<and> prefix (concat (answers ms)) (answered 4 (trace s')))"
proof -
  obtain s where s: "do_select 1 busy_os 1000 1 (snd (TCPServer_ctor busy_os None 7890 (Some 1) start_world)) = Some s"
    "map_find 4 (maps s 1) = Some 1" using busy_first_round by blast
  have sv: "service busy_os None 7890 1 1000 1 s" using service.round [OF service.start s(1)] by simp
  obtain N s' where s': "\<forall>fuel \<ge> N. do_select fuel busy_os 1000 1 s = Some s'"
    "\<forall>k p. map_find k (maps s 1) = Some p \<and> k \<noteq> 3 \<longrightarrow> map_find k (maps s' 1) = Some p
      \<and> (\<exists>ms a. rx_run Rx_idle (rcvd k (trace s)) = Some (ms, a) \<and> prefix (concat (answers ms)) (answered k (trace s')))"
    using server_round_answers [OF busy_environment(1,2) sv] busy_environment(3) by auto
  from s'(2) s(2) have "map_find 4 (maps s' 1) = Some 1
      \<and> (\<exists>ms a. rx_run Rx_idle (rcvd 4 (trace s)) = Some (ms, a) \<and> prefix (concat (answers ms)) (answered 4 (trace s')))"
    by auto
  with sv s'(1) show ?thesis by blast
qed

text \<open>
  C3. \<open>loop\<close> with a count below \<open>10 ^ 17\<close>, run on the server the constructor has built, under the hypotheses of
  \<open>starts_ok\<close> and \<open>environment_ok\<close> (no call fails, no client hangs up, sends a body of fewer than 1024
  bytes or splits a header, no time is shown twice): it ends after exactly that many rounds, for any number of clients, still listening and without undefined behaviour, and no
  client has been sent anything but answers to its own requests, in their order.
\<close>

theorem server_loop_serves:
  assumes "environment_ok os" "starts_ok os host port l" "count \<noteq> 0" "unat count < 10 ^ 17"
  shows "\<exists>N s'. (\<forall>hfuel \<ge> N. loop fuel hfuel os timeout_ms count (Some mp)
        (snd (TCPServer_ctor os host port (Some mp) start_world)) = Some s')
    \<and> service os host port mp timeout_ms (unat count) s' \<and> ub s' = [] \<and> map_find l (maps s' mp) \<noteq> None
    \<and> (\<forall>k p. map_find k (maps s' mp) = Some p \<and> k \<noteq> l \<longrightarrow>
        (\<exists>ms a. rx_run Rx_idle (rcvd k (trace s')) = Some (ms, a) \<and> prefix (answered k (trace s')) (concat (answers ms))))"
proof -
  let ?s = "snd (TCPServer_ctor os host port (Some mp) start_world)"
  obtain s' where s': "returns (\<lambda>h. loop_count (unat count) h os timeout_ms mp ?s) s'"
    "service os host port mp timeout_ms (unat count) s'"
    using loop_count_service [OF assms(1,2) service.start, of "unat count"] assms(4) by auto
  then obtain N where N: "\<forall>h \<ge> N. loop_count (unat count) h os timeout_ms mp ?s = Some s'"
    by (auto simp: returns_def)
  have "map_size (maps ?s mp) \<noteq> 0" by (rule serving_map [OF serving_start(1) [OF assms(2)]])
  then have "\<forall>h \<ge> N. loop fuel h os timeout_ms count (Some mp) ?s = Some s'" using N assms(3) by (simp add: loop_def)
  moreover have sv: "serving os l mp s'" "ub s' = []" using service_serving [OF assms(1,2) s'(2)] assms(4) by simp_all
  moreover have "map_find l (maps s' mp) \<noteq> None" using sv(1) by (auto simp: serving_def)
  moreover have "\<exists>ms a. rx_run Rx_idle (rcvd k (trace s')) = Some (ms, a) \<and> prefix (answered k (trace s')) (concat (answers ms))"
    if k: "map_find k (maps s' mp) = Some p" "k \<noteq> l" for k p
  proof (rule serving_served [OF sv(1) k])
    fix ms a n
    assume r: "rx_run Rx_idle (rcvd k (trace s')) = Some (ms, a)" "answered k (trace s') = concat (answers (take n ms))"
    have "concat (answers ms) = concat (answers (take n ms)) @ concat (answers (drop n ms))"
      unfolding concat_append [symmetric] answers_append [symmetric] by simp
    then show ?thesis using r by auto
  qed
  ultimately show ?thesis using s'(2) by blast
qed

theorem server_loop_serves_witness:
  "\<exists>N s'. (\<forall>hfuel \<ge> N. loop 0 hfuel busy_os 1000 2 (Some 1)
        (snd (TCPServer_ctor busy_os None 7890 (Some 1) start_world)) = Some s')
    \<and> service busy_os None 7890 1 1000 2 s' \<and> ub s' = []"
  using server_loop_serves [OF busy_environment(1,2), of 2 0 1000 1] by auto

end
