(* ===== verification/Test_Client.thy ===== *)
theory Test_Client
  imports Cp_Socket Virus_Session
begin

text \<open>
  \<^bold>\<open>src/client/test_client.cpp\<close>: \<open>fake_client_send_file\<close>, the client that sends one file as a
  request and prints the response. The file it opens is an argument (\<open>None\<close> when it cannot be
  opened); the result says how far the client got, with the id, length and error code it
  prints when a whole response arrived. \<open>loop_send_recv\<close> is the older client, which sends each word
  typed on its standard input over a connection of its own.
\<close>

datatype client_result =
    Open_failed
  | Socket_failed
  | Failed
  | Response u32 u32 u32

definition srv_host :: string where "srv_host = ''127.0.0.1''"
definition srv_port :: u16 where "srv_port = 7890"

text \<open>The label \<open>loop_send_recv_end\<close>: the socket is closed, also after the connection failed.\<close>

definition client_end :: "cp_socket_t \<Rightarrow> client_result \<Rightarrow> 'a sys_scheme \<Rightarrow> client_result \<times> 'a sys_scheme" where
  "client_end sclient res s = (res, cp_close_socket sclient s)"

definition client_recv_response ::
  "os \<Rightarrow> cp_socket_t \<Rightarrow> 'a sys_scheme \<Rightarrow> client_result \<times> 'a sys_scheme"
where
  "client_recv_response os sclient s =
     (let (n_recv, h, s) = sys_recv os sclient 8 0 s in
      if n_recv = SOCKET_ERROR \<or> n_recv = 0 \<or> n_recv \<noteq> 8 then client_end sclient Failed s
      else
        (let (n_recv, e, s) = sys_recv os sclient 4 0 s in
         if n_recv = SOCKET_ERROR \<or> n_recv = 0 \<or> n_recv \<noteq> 4 then client_end sclient Failed s
         else
           client_end sclient
             (Response (ntohl (hdr_id (header_of_bytes h))) (ntohl (hdr_length (header_of_bytes h)))
               (ntohl (un_le32 e))) s))"

definition fake_client_send_file ::
  "os \<Rightarrow> byte list option \<Rightarrow> 'a sys_scheme \<Rightarrow> client_result \<times> 'a sys_scheme"
where
  "fake_client_send_file os content s =
     (case content of
        None \<Rightarrow> (Open_failed, s)
      | Some data \<Rightarrow>
          (let (sclient, s) = sys_socket os AF_INET SOCK_STREAM IPPROTO_TCP s in
           if sclient = INVALID_SOCKET then (Socket_failed, s)
           else
             (let serAddr = stack_sockaddr os AF_INET (htons srv_port) s;
                  (ret, a) = os_inet_pton os srv_host;
                  serAddr = (if ret = 1 then serAddr\<lparr>s_addr := a\<rparr> else serAddr);
                  (ret, s) = sys_connect os sclient serAddr s
              in if ret = SOCKET_ERROR then client_end sclient Failed (cp_close_socket sclient s)
                 else
                   (let len = u32_of_int (int (length data));
                        header = \<lparr>hdr_id = htonl 123456, hdr_length = htonl len\<rparr>;
                        (n_send, s) = sys_send os sclient (header_bytes header) 0 s
                    in if n_send = SOCKET_ERROR \<or> n_send = 0 then client_end sclient Failed s
                       else
                         (let (d, s) = read_block 0 (unat (size_of_int (int_of_u32 (ntohl (hdr_length header)))))
                                          (take (unat len) data) s;
                              (n_send, s) = sys_send os sclient d 0 s
                          in if n_send = SOCKET_ERROR \<or> n_send = 0 then client_end sclient Failed s
                             else client_recv_response os sclient (emit (Ev_sleep 500000) s))))))"

text \<open>\<open>main\<close>: on Windows (\<open>wsa_startup\<close> given) nothing is done when the library cannot be initialised.\<close>

definition client_main ::
  "(u16 \<Rightarrow> int) option \<Rightarrow> os \<Rightarrow> byte list option \<Rightarrow> 'a sys_scheme \<Rightarrow> int \<times> 'a sys_scheme"
where
  "client_main wsa_startup os content s =
     (if (case wsa_startup of None \<Rightarrow> False | Some start \<Rightarrow> start 0x0202 \<noteq> 0) then (0, s)
      else (let (_, s) = fake_client_send_file os content s in (0, s)))"

text \<open>An environment in which the connection is made and both sends are taken whole.\<close>

definition client_net :: "os \<Rightarrow> cp_socket_t \<Rightarrow> bool" where
  "client_net os k =
     ((\<forall>h a b c. os_socket os h a b c = Inr k) \<and> (\<forall>h a. os_connect os h k a = Inr ()) \<and>
      (\<forall>h bs f. os_send os h k bs f = Inr (length bs)))"

lemma client_sends:
  assumes net: "client_net os k" "k \<noteq> INVALID_SOCKET" and d: "data \<noteq> []" "length data < 2 ^ 31"
  shows "\<exists>res s'. fake_client_send_file os (Some data) s = (res, s')
    \<and> sent_on k (trace s') = sent_on k (trace s) @ message 123456 data \<and> ub s' = ub s"
proof -
  have len: "unat (of_nat (length data) :: u32) = length data"
    using d(2) by (intro unat_of_nat_u32) simp
  have rr: "sent_on k (trace (snd (client_recv_response os k t))) = sent_on k (trace t)"
    "ub (snd (client_recv_response os k t)) = ub t" for t :: "'a sys_scheme"
    by (auto simp: client_recv_response_def client_end_def sys_recv_def cp_close_socket_def Let_def
        split: sum.splits)
  have h: "header_bytes \<lparr>hdr_id = htonl 123456, hdr_length = htonl (of_nat (length data))\<rparr> =
      net_header 123456 (of_nat (length data))"
    by (simp add: net_header_host)
  have "\<exists>t. fake_client_send_file os (Some data) s = client_recv_response os k t
      \<and> sent_on k (trace t) = sent_on k (trace s) @ message 123456 data \<and> ub t = ub s"
    using net d
    by (auto simp: fake_client_send_file_def sys_socket_def sys_connect_def sys_send_def client_net_def Let_def
        case_prod_beta read_block_def in_block_def len size_of_int_u32_small h SOCKET_ERROR_def message_def)
  then show ?thesis using rr by (metis prod.collapse)
qed

text \<open>
  C27. The client sends its file as one message of the wire format the server reads: the header
  with id 123456 and the length of the file in network byte order, then the file.
\<close>

theorem client_sends_message:
  assumes net: "client_net os k" "k \<noteq> INVALID_SOCKET" and d: "data \<noteq> []" "length data < 2 ^ 31"
  shows "\<exists>res s'. fake_client_send_file os (Some data) s = (res, s')
    \<and> sent_on k (trace s') = sent_on k (trace s) @ message 123456 data \<and> ub s' = ub s"
  by (rule client_sends [OF assms])

theorem client_sends_message_witness:
  "\<exists>res s'. fake_client_send_file good_os (Some [1, 2]) start_cstate = (res, s')
    \<and> sent_on 3 (trace s') = message 123456 [1, 2]"
  using client_sends_message [of good_os 3 "[1, 2]" start_cstate]
  by (auto simp: client_net_def good_os_def INVALID_SOCKET_def start_cstate_def)

lemma client_decodes:
  assumes "sys_recv os k 8 0 s = (8, take 8 (response_wire i st), s1)"
    and "sys_recv os k 4 0 s1 = (4, drop 8 (response_wire i st), s2)"
  shows "fst (client_recv_response os k s) = Response i 4 (ntohl (state_code st))"
proof -
  have w: "take 8 (response_wire i st) = header_bytes \<lparr>hdr_id = htonl i, hdr_length = htonl 4\<rparr>"
    "drop 8 (response_wire i st) = le32 (state_code st)"
    by (simp_all add: response_wire_def net_header_host sizeof_State_def state_bytes_def)
  then show ?thesis
    using assms header_of_bytes_inverse [of "\<lparr>hdr_id = htonl i, hdr_length = htonl 4\<rparr>" "[]"]
    by (simp add: client_recv_response_def client_end_def w SOCKET_ERROR_def)
qed

lemma ntohl_state_code_value: "ntohl (state_code st) = 16777216 * state_code st"
proof -
  have "ntohl 0 = 0" "ntohl 1 = 16777216" "ntohl 2 = 33554432" "ntohl 3 = 50331648" by code_simp+
  then show ?thesis by (cases st) simp_all
qed

lemma ntohl_state_code: "ntohl (state_code st) = state_code st \<longleftrightarrow> st = OK"
proof -
  have "ntohl 0 = 0" "ntohl 1 \<noteq> 1" "ntohl 2 \<noteq> 2" "ntohl 3 \<noteq> 3" by code_simp+
  then show ?thesis by (cases st) simp_all
qed

text \<open>
  C28. Given the response the server sends (header, then the state as the server writes it), the
  client prints the id and the length 4, but as error code the state with its four bytes reversed,
  which is 2^24 times the state: it agrees with the state only when that is \<open>OK\<close>.
\<close>

theorem client_misreads_state:
  assumes "sys_recv os k 8 0 s = (8, take 8 (response_wire i st), s1)"
    and "sys_recv os k 4 0 s1 = (4, drop 8 (response_wire i st), s2)"
  shows "\<exists>code. fst (client_recv_response os k s) = Response i 4 code
    \<and> le32 code = rev (state_bytes st) \<and> code = 2 ^ 24 * state_code st \<and> (code = state_code st \<longleftrightarrow> st = OK)"
proof -
  have "le32 (ntohl (state_code st)) = rev (state_bytes st)"
    by (simp add: ntohl_def le32_un_le32 state_bytes_def)
  then show ?thesis using client_decodes [OF assms] ntohl_state_code [of st] ntohl_state_code_value [of st] by simp
qed

theorem client_misreads_state_witness:
  "fst (client_recv_response (good_os\<lparr>os_recv := \<lambda>h k n f. Inr (if n = 8
        then take 8 (response_wire 7 INTERNAL_ERROR) else drop 8 (response_wire 7 INTERNAL_ERROR))\<rparr>) 3 start_cstate) =
      Response 7 4 50331648"
proof -
  let ?w = "response_wire 7 INTERNAL_ERROR"
  let ?os = "good_os\<lparr>os_recv := \<lambda>h k n f. Inr (if n = 8 then take 8 ?w else drop 8 ?w)\<rparr>"
  have "length ?w = 12" by (simp add: response_wire_def)
  then have "sys_recv ?os 3 8 0 start_cstate = (8, take 8 ?w, emit (Ev_recv 3 8 0 (Some (take 8 ?w))) start_cstate)"
    "sys_recv ?os 3 4 0 s = (4, drop 8 ?w, emit (Ev_recv 3 4 0 (Some (drop 8 ?w))) s)" for s :: cstate
    by (simp_all add: sys_recv_def Let_def)
  from client_misreads_state [OF this] show ?thesis by simp
qed

subsection \<open>The conversation client\<close>

text \<open>
  The words of the standard input are an argument; at its end \<open>cin >> send_buff\<close> leaves the initial
  contents of the string. The loop may run forever, so it takes fuel: \<open>None\<close> is a client that is
  still running.
\<close>

fun loop_send_recv :: "nat \<Rightarrow> os \<Rightarrow> string list \<Rightarrow> 'a sys_scheme \<Rightarrow> 'a sys_scheme option" where
  "loop_send_recv 0 os input s = None"
| "loop_send_recv (Suc fuel) os input s =
     (let (sclient, s) = sys_socket os AF_INET SOCK_STREAM IPPROTO_TCP s in
      if sclient = INVALID_SOCKET then Some s
      else
        (let serAddr = stack_sockaddr os AF_INET (htons srv_port) s;
             (ret, a) = os_inet_pton os srv_host;
             serAddr = (if ret = 1 then serAddr\<lparr>s_addr := a\<rparr> else serAddr);
             (ret, s) = sys_connect os sclient serAddr s
         in if ret = SOCKET_ERROR then Some (cp_close_socket sclient s)
            else
              (let send_buff = (case input of [] \<Rightarrow> ''sssssssssss'' | w # _ \<Rightarrow> w);
                   input = tl input
               in if take 4 send_buff = ''quit'' then Some (cp_close_socket sclient s)
                  else
                    (let (_, s) = sys_send os sclient (bytes_of send_buff) 0 s;
                         (n_recv, d, s) = sys_recv os sclient 255 0 s
                     in if n_recv = SOCKET_ERROR then Some s
                        else if n_recv = 0 then Some s
                        else
                          (let n_recv = (if n_recv > 254 then 254 else n_recv);
                               s = (if n_recv < 255 then s else fault OutOfBounds s)
                           in loop_send_recv fuel os input (cp_close_socket sclient s))))))"

declare loop_send_recv.simps(2) [simp del]

text \<open>The sockets a history opened and closed, in order.\<close>

fun connection_event :: "event \<Rightarrow> bool" where
  "connection_event (Ev_socket af ty pr r) = True"
| "connection_event (Ev_close k) = True"
| "connection_event _ = False"

definition connections :: "history \<Rightarrow> history" where
  "connections h = filter connection_event h"

lemma connections_append [simp]: "connections (h @ h') = connections h @ connections h'"
  by (simp add: connections_def)

text \<open>A server that answers everything it is sent with at least one byte.\<close>

definition answering :: "os \<Rightarrow> cp_socket_t \<Rightarrow> bool" where
  "answering os k = (\<forall>h. \<exists>d. os_recv os h k 255 0 = Inr d \<and> d \<noteq> [])"

lemma conversation_round:
  assumes "client_net os k" "k \<noteq> INVALID_SOCKET" "answering os k" "take 4 w \<noteq> ''quit''"
  shows "\<exists>s'. loop_send_recv (Suc fuel) os (w # ws) s = loop_send_recv fuel os ws s' \<and> ub s' = ub s
    \<and> sent_on k (trace s') = sent_on k (trace s) @ bytes_of w
    \<and> connections (trace s') = connections (trace s) @ [Ev_socket AF_INET SOCK_STREAM IPPROTO_TCP k, Ev_close k]"
proof -
  define s1 where "s1 = snd (sys_socket os AF_INET SOCK_STREAM IPPROTO_TCP s)"
  define ad where "ad = (let a = stack_sockaddr os AF_INET (htons srv_port) s1; (ret, x) = os_inet_pton os srv_host
      in if ret = 1 then a\<lparr>s_addr := x\<rparr> else a)"
  define s2 where "s2 = snd (sys_connect os k ad s1)"
  define s3 where "s3 = snd (sys_send os k (bytes_of w) 0 s2)"
  obtain d where d: "os_recv os (trace s3) k 255 0 = Inr d" "d \<noteq> []"
    using assms(3) by (auto simp: answering_def)
  have e: "sys_socket os AF_INET SOCK_STREAM IPPROTO_TCP s = (k, s1)" "sys_connect os k ad s1 = (0, s2)"
    "sys_send os k (bytes_of w) 0 s2 = (int (length (bytes_of w)), s3)"
    using assms(1) by (simp_all add: s1_def s2_def s3_def client_net_def sys_socket_def sys_connect_def sys_send_def
        Let_def)
  have f: "ub s3 = ub s" "sent_on k (trace s3) = sent_on k (trace s) @ bytes_of w" 
    "connections (trace s3) = connections (trace s) @ [Ev_socket AF_INET SOCK_STREAM IPPROTO_TCP k]"
    using assms(1)
    by (simp_all add: s3_def s2_def s1_def client_net_def sys_socket_def sys_connect_def sys_send_def connections_def
        Let_def)
  let ?s = "cp_close_socket k (emit (Ev_recv k 255 0 (Some (take 255 d))) s3)"
  have "loop_send_recv (Suc fuel) os (w # ws) s = loop_send_recv fuel os ws ?s"
    using assms(2,4) d e
    by (simp add: loop_send_recv.simps(2) sys_recv_def SOCKET_ERROR_def Let_def case_prod_beta ad_def)
  then show ?thesis using f by (intro exI [of _ ?s]) (simp add: cp_close_socket_def connections_def)
qed

text \<open>
  C39. The conversation client, when every socket, connection and send succeeds and the server answers
  everything it is sent: it sends the words typed before the first one that starts with \<open>quit\<close>, in
  order, ends at that word and stays inside its buffer. For each word, \<open>quit\<close> included, it opens one
  socket and closes it before it opens the next; it opens and closes no other.
\<close>

theorem loop_send_recv_converses:
  assumes net: "client_net os k" "k \<noteq> INVALID_SOCKET" "answering os k"
    and ws: "\<forall>w \<in> set ws. take 4 w \<noteq> ''quit''" "take 4 q = ''quit''" and fuel: "length ws < fuel"
  shows "\<exists>s'. loop_send_recv fuel os (ws @ q # rest) s = Some s' \<and> ub s' = ub s
    \<and> sent_on k (trace s') = sent_on k (trace s) @ concat (map bytes_of ws)
    \<and> connections (trace s') = connections (trace s)
        @ concat (replicate (Suc (length ws)) [Ev_socket AF_INET SOCK_STREAM IPPROTO_TCP k, Ev_close k])"
  using ws(1) fuel
proof (induction ws arbitrary: s fuel)
  case Nil
  then obtain f where "fuel = Suc f" by (cases fuel) auto
  with net ws(2) show ?case
    by (simp add: loop_send_recv.simps(2) client_net_def sys_socket_def sys_connect_def cp_close_socket_def
        connections_def SOCKET_ERROR_def Let_def case_prod_beta)
next
  case (Cons w ws)
  then obtain f where f: "fuel = Suc f" by (cases fuel) auto
  obtain s1 where s1: "loop_send_recv (Suc f) os (w # ws @ q # rest) s = loop_send_recv f os (ws @ q # rest) s1"
    "ub s1 = ub s" "sent_on k (trace s1) = sent_on k (trace s) @ bytes_of w"
    "connections (trace s1) = connections (trace s) @ [Ev_socket AF_INET SOCK_STREAM IPPROTO_TCP k, Ev_close k]"
    using conversation_round [OF net, of w f "ws @ q # rest" s] Cons.prems(1) by auto
  with Cons.IH [of f s1] Cons.prems f show ?case by auto
qed

theorem loop_send_recv_converses_witness:
  "\<exists>s'. loop_send_recv 3 (good_os\<lparr>os_recv := \<lambda>h k n f. Inr [1]\<rparr>) [''ab'', ''c'', ''quit''] start_cstate = Some s'
    \<and> ub s' = [] \<and> sent_on 3 (trace s') = bytes_of ''abc'' \<and> length (connections (trace s')) = 6"
  using loop_send_recv_converses [of "good_os\<lparr>os_recv := \<lambda>h k n f. Inr [1]\<rparr>" 3 "[''ab'', ''c'']" "''quit''" 3 "[]" start_cstate]
  by (auto simp: client_net_def answering_def good_os_def INVALID_SOCKET_def start_cstate_def bytes_of_def connections_def)

end
