(* ===== verification/Cache_Part_Windows.thy ===== *)
theory Cache_Part_Windows
  imports Cache_Part
begin

text \<open>
  The Windows branch of \<^bold>\<open>src/cache_part.cpp\<close>: a \<open>gettimeofday\<close> made of \<open>GetLocalTime\<close> and \<open>mktime\<close>, and the
  file names built from it. \<open>mktime\<close> is a parameter; \<open>long\<close> has 32 bits there, and the macro \<open>MAX_PATH\<close>
  of the system header, 260, has replaced the 1024 of \<open>cache_part.h\<close> by then.
\<close>

record SYSTEMTIME =
  wYear :: u16
  wMonth :: u16
  wDay :: u16
  wHour :: u16
  wMinute :: u16
  wSecond :: u16
  wMilliseconds :: u16

record tm =
  tm_year :: int
  tm_mon :: int
  tm_mday :: int
  tm_hour :: int
  tm_min :: int
  tm_sec :: int
  tm_isdst :: int

definition gettimeofday_win :: "(tm \<Rightarrow> int) \<Rightarrow> SYSTEMTIME \<Rightarrow> u32 \<times> u32" where
  "gettimeofday_win mktime wtm =
     (let t = \<lparr>tm_year = uint (wYear wtm) - 1900, tm_mon = uint (wMonth wtm) - 1, tm_mday = uint (wDay wtm),
               tm_hour = uint (wHour wtm), tm_min = uint (wMinute wtm), tm_sec = uint (wSecond wtm),
               tm_isdst = -1\<rparr>;
          clock = mktime t
      in (word_of_int clock, word_of_int (uint (wMilliseconds wtm) * 1000)))"

definition MAX_PATH_win :: nat where "MAX_PATH_win = 260"

definition cache_path_win :: "string \<Rightarrow> u32 \<times> u32 \<Rightarrow> string" where
  "cache_path_win d now =
     take (MAX_PATH_win - 1)
       (d @ [CHR 0x5C] @ ''cache_'' @ dec_digits (unat (fst now)) @ ''_'' @ dec_digits (unat (snd now)))"

lemma dec_digits_u32: "length (dec_digits (unat (x :: u32))) \<le> 10"
  using dec_digits_length [of "unat x" 9] unat_bound [of x] by simp

lemma cache_path_win_inj:
  assumes "length d \<le> 200"
  shows "cache_path_win d now = cache_path_win d now' \<longleftrightarrow> now = now'"
proof
  have "cache_path_win d t = d @ CHR 0x5C # ''cache_'' @ dec_digits (unat (fst t)) @ CHR ''_'' # dec_digits (unat (snd t))" for t
    using assms dec_digits_u32 [of "fst t"] dec_digits_u32 [of "snd t"] by (simp add: cache_path_win_def MAX_PATH_win_def)
  moreover assume "cache_path_win d now = cache_path_win d now'"
  ultimately have "unat (fst now) = unat (fst now') \<and> unat (snd now) = unat (snd now')"
    by (intro digits_underscore_split) simp
  then show "now = now'" by (simp add: prod_eq_iff word_unat_eq_iff)
qed simp

lemma millis_u32: "0 \<le> i \<Longrightarrow> i < 1000 \<Longrightarrow> uint (word_of_int (i * 1000) :: u32) = i * 1000"
  by (simp only: uint_word_of_int_eq) (simp add: take_bit_int_eq_self)

text \<open>
  On Windows the name of a cache file changes only once a millisecond: two caches made within
  the same second have the same file exactly when they are made within the same millisecond, so
  that a second has at most a thousand names, where the microseconds of Linux give a million.
\<close>

theorem windows_names_per_millisecond:
  assumes "length d \<le> 200" "wMilliseconds t < 1000" "wMilliseconds t' < 1000"
    and "t' = t\<lparr>wMilliseconds := wMilliseconds t'\<rparr>"
  shows "cache_path_win d (gettimeofday_win mktime t) = cache_path_win d (gettimeofday_win mktime t')
    \<longleftrightarrow> wMilliseconds t = wMilliseconds t'"
proof -
  have f: "wYear t' = wYear t" "wMonth t' = wMonth t" "wDay t' = wDay t" "wHour t' = wHour t" "wMinute t' = wMinute t"
    "wSecond t' = wSecond t" by (subst assms(4), simp)+
  have "uint (wMilliseconds t) < 1000" "uint (wMilliseconds t') < 1000"
    using assms(2,3) by (simp_all add: word_less_def)
  then have "word_of_int (uint (wMilliseconds t) * 1000) = (word_of_int (uint (wMilliseconds t') * 1000) :: u32)
      \<longleftrightarrow> uint (wMilliseconds t) = uint (wMilliseconds t')"
    using millis_u32 [of "uint (wMilliseconds t)"] millis_u32 [of "uint (wMilliseconds t')"]
    by (metis mult_cancel_right uint_ge_0 zero_neq_numeral)
  then show ?thesis
    unfolding cache_path_win_inj [OF assms(1)] gettimeofday_win_def f Let_def prod.inject word_uint_eq_iff [of "wMilliseconds t"]
    by simp
qed

theorem windows_names_per_millisecond_witness:
  "cache_path_win ''.'' (gettimeofday_win (\<lambda>t. 0) \<lparr>wYear = 2018, wMonth = 9, wDay = 1, wHour = 8, wMinute = 0, wSecond = 0, wMilliseconds = 5\<rparr>)
    \<noteq> cache_path_win ''.'' (gettimeofday_win (\<lambda>t. 0) \<lparr>wYear = 2018, wMonth = 9, wDay = 1, wHour = 8, wMinute = 0, wSecond = 0, wMilliseconds = 6\<rparr>)"
  using windows_names_per_millisecond [of "''.''"
      "\<lparr>wYear = 2018, wMonth = 9, wDay = 1, wHour = 8, wMinute = 0, wSecond = 0, wMilliseconds = 5\<rparr>"
      "\<lparr>wYear = 2018, wMonth = 9, wDay = 1, wHour = 8, wMinute = 0, wSecond = 0, wMilliseconds = 6\<rparr>"]
  by simp

end
