(* ===== verification/Cp_Socket_Windows.thy ===== *)
theory Cp_Socket_Windows
  imports Cp_Socket Stdio
begin

text \<open>
  The Windows branches of \<^bold>\<open>src/cp_socket.cpp\<close> that have logic of their own: the conversions between
  wide and narrow strings (also in \<^bold>\<open>char_2_wchar/main.cpp\<close>), \<open>cp_socket_init\<close>, and the branches of
  \<open>cp_inet_pton\<close> and \<open>cp_setblocking\<close>. \<open>wchar_t\<close> has 16 bits there. The encoding of the C locale is a
  parameter: \<open>enc\<close> gives the bytes of a wide character, \<open>dec\<close> the first wide character of some
  bytes and how many bytes it takes.
\<close>

subsection \<open>Wide strings\<close>

text \<open>
  \<open>wcstombs_s\<close> with \<open>_TRUNCATE\<close>: the characters that fit, one byte being kept for the terminator;
  a character without encoding leaves the empty string. \<open>mbstowcs_s\<close> is its counterpart.
\<close>

fun mb_fill :: "(u16 \<Rightarrow> byte list option) \<Rightarrow> nat \<Rightarrow> u16 list \<Rightarrow> byte list option" where
  "mb_fill enc room [] = Some []"
| "mb_fill enc room (w # ws) =
     (case enc w of
        None \<Rightarrow> None
      | Some b \<Rightarrow>
          if length b \<le> room then map_option ((@) b) (mb_fill enc (room - length b) ws) else Some [])"

definition wcstombs_s :: "(u16 \<Rightarrow> byte list option) \<Rightarrow> nat \<Rightarrow> u16 list \<Rightarrow> byte list" where
  "wcstombs_s enc sz ws = (case mb_fill enc (sz - 1) ws of None \<Rightarrow> [] | Some bs \<Rightarrow> bs)"

fun wide_fill :: "(byte list \<Rightarrow> (u16 \<times> nat) option) \<Rightarrow> nat \<Rightarrow> byte list \<Rightarrow> u16 list option" where
  "wide_fill dec 0 bs = Some []"
| "wide_fill dec (Suc room) bs =
     (if bs = [] then Some []
      else case dec bs of
             None \<Rightarrow> None
           | Some (w, n) \<Rightarrow> map_option ((#) w) (wide_fill dec room (drop n bs)))"

definition mbstowcs_s :: "(byte list \<Rightarrow> (u16 \<times> nat) option) \<Rightarrow> nat \<Rightarrow> byte list \<Rightarrow> u16 list" where
  "mbstowcs_s dec sz bs = (case wide_fill dec (sz - 1) bs of None \<Rightarrow> [] | Some ws \<Rightarrow> ws)"

text \<open>A string read through a pointer ends at the first zero.\<close>

definition c_str :: "'a::zero list \<Rightarrow> 'a list" where
  "c_str xs = takeWhile (\<lambda>x. x \<noteq> 0) xs"

definition sizeof_wchar_t :: nat where "sizeof_wchar_t = 2"

definition wstr_2_str :: "(u16 \<Rightarrow> byte list option) \<Rightarrow> u16 list option \<Rightarrow> byte list" where
  "wstr_2_str enc cws =
     (case cws of
        None \<Rightarrow> []
      | Some p \<Rightarrow>
          (let ws = c_str p;
               dByteNum = sizeof_wchar_t * length ws + 1
           in c_str (wcstombs_s enc dByteNum (c_str ws))))"

definition str_2_wstr :: "(byte list \<Rightarrow> (u16 \<times> nat) option) \<Rightarrow> byte list option \<Rightarrow> u16 list" where
  "str_2_wstr dec cstr =
     (case cstr of
        None \<Rightarrow> []
      | Some p \<Rightarrow>
          (let s = c_str p;
               charNum = length s + 1
           in c_str (mbstowcs_s dec charNum (c_str s))))"

text \<open>The same functions on string objects, which know their length, in \<open>char_2_wchar\<close>.\<close>

definition wstring_2_string :: "(u16 \<Rightarrow> byte list option) \<Rightarrow> u16 list \<Rightarrow> byte list" where
  "wstring_2_string enc ws =
     (let dByteNum = sizeof_wchar_t * length ws + 1 in c_str (wcstombs_s enc dByteNum (c_str ws)))"

definition string_2_wstring :: "(byte list \<Rightarrow> (u16 \<times> nat) option) \<Rightarrow> byte list \<Rightarrow> u16 list" where
  "string_2_wstring dec s =
     (let charNum = length s + 1 in c_str (mbstowcs_s dec charNum (c_str s)))"

text \<open>
  The program of \<open>char_2_wchar\<close>. \<open>cout\<close> has no overload for wide strings: what it prints for them is an
  address, a parameter here.
\<close>

definition narrow :: "byte list \<Rightarrow> string" where
  "narrow bs = map (\<lambda>b. char_of (unat b)) bs"

definition char_2_wchar_main ::
  "(u16 \<Rightarrow> byte list option) \<Rightarrow> (byte list \<Rightarrow> (u16 \<times> nat) option) \<Rightarrow> (u16 list \<Rightarrow> string) \<Rightarrow> string list"
where
  "char_2_wchar_main enc dec show_address =
     (let wstr = [65, 66, 67, 68, 69, 70, 71];
          str = [65, 66, 67, 68, 69, 70, 71];
          str_obj = wstring_2_string enc wstr;
          wstr_obj = string_2_wstring dec str
      in [''wide_str ['' @ show_address wstr @ ''] trans to -> str ['' @ narrow str_obj @ '']'',
          ''str ['' @ narrow str @ ''] trans to -> wide_str ['' @ show_address wstr_obj @ '']''])"

subsection \<open>Initialisation, addresses and blocking mode\<close>

text \<open>\<open>WSAStartup\<close> is a parameter; on Linux there is nothing to initialise.\<close>

definition cp_socket_init :: "(u16 \<Rightarrow> int) option \<Rightarrow> int" where
  "cp_socket_init wsa_startup =
     (case wsa_startup of
        None \<Rightarrow> 0
      | Some start \<Rightarrow> (let ret = start 0x0202 in if ret \<noteq> 0 then ret else 0))"

definition cp_inet_pton_win :: "(string \<Rightarrow> u32) \<Rightarrow> int \<Rightarrow> string option \<Rightarrow> sockaddr_in \<Rightarrow> int \<times> sockaddr_in" where
  "cp_inet_pton_win inet_addr af p_host p_addr =
     (case p_host of
        None \<Rightarrow> (1, p_addr\<lparr>s_addr := INADDR_ANY\<rparr>)
      | Some h \<Rightarrow>
          if h = ''0.0.0.0'' then (1, p_addr\<lparr>s_addr := INADDR_ANY\<rparr>)
          else
            (let p_addr = p_addr\<lparr>s_addr := inet_addr h\<rparr> in
             if s_addr p_addr = INADDR_ANY then (0, p_addr\<lparr>s_addr := INADDR_NONE\<rparr>)
             else if s_addr p_addr = INADDR_NONE then (-1, p_addr)
             else (1, p_addr)))"

text \<open>\<open>ioctlsocket(sock, FIONBIO, &mode)\<close> is a parameter.\<close>

definition cp_setblocking_win :: "(cp_socket_t \<Rightarrow> u32 \<Rightarrow> int) \<Rightarrow> cp_socket_t \<Rightarrow> bool \<Rightarrow> int" where
  "cp_setblocking_win ioctl_fionbio sock is_block =
     (let mode = (if is_block then 0 else 1) in ioctl_fionbio sock mode)"

subsection \<open>Round trip of the conversions\<close>

text \<open>
  An encoding of wide characters by at most two bytes, none of them zero, that can be read back;
  the single-byte and double-byte code pages of Windows are of this kind.
\<close>

definition codec_ok :: "(u16 \<Rightarrow> byte list option) \<Rightarrow> (byte list \<Rightarrow> (u16 \<times> nat) option) \<Rightarrow> u16 set \<Rightarrow> bool" where
  "codec_ok enc dec A =
     (\<forall>w \<in> A. w \<noteq> 0 \<and> (\<exists>b. enc w = Some b \<and> b \<noteq> [] \<and> length b \<le> 2 \<and> 0 \<notin> set b
        \<and> (\<forall>r. dec (b @ r) = Some (w, length b))))"

lemma c_str_id [simp]: "0 \<notin> set xs \<Longrightarrow> c_str xs = xs"
  unfolding c_str_def by (rule takeWhile_eq_all_conv [THEN iffD2]) auto

lemma mb_fill_fits:
  assumes "codec_ok enc dec A" "set ws \<subseteq> A" "2 * length ws \<le> room"
  shows "\<exists>bs. mb_fill enc room ws = Some bs \<and> 0 \<notin> set bs \<and> length ws \<le> length bs
    \<and> (\<forall>n. length ws \<le> n \<longrightarrow> wide_fill dec n bs = Some ws)"
  using assms(2,3)
proof (induction ws arbitrary: room)
  case Nil
  have "wide_fill dec n [] = Some []" for n by (cases n) simp_all
  then show ?case by simp
next
  case (Cons w ws)
  obtain b where b: "enc w = Some b" "b \<noteq> []" "length b \<le> 2" "0 \<notin> set b" "\<And>r. dec (b @ r) = Some (w, length b)"
    using assms(1) Cons.prems(1) by (auto simp: codec_ok_def)
  have "2 * length ws \<le> room - length b" using Cons.prems(2) b(3) by simp
  with Cons.IH Cons.prems(1) obtain bs where bs: "mb_fill enc (room - length b) ws = Some bs" "0 \<notin> set bs"
    "length ws \<le> length bs" "\<forall>n. length ws \<le> n \<longrightarrow> wide_fill dec n bs = Some ws"
    by fastforce
  have "wide_fill dec n (b @ bs) = Some (w # ws)" if "Suc (length ws) \<le> n" for n
    using that b(2,5) bs(4) by (cases n) auto
  moreover have "length (w # ws) \<le> length (b @ bs)" using b(2) bs(3) by (cases b) auto
  moreover have "length b \<le> room" using b(3) Cons.prems(2) by simp
  ultimately show ?case using b(1,4) bs(1,2) by auto
qed

text \<open>
  C38. The string conversions lose nothing in a code page of at most two bytes per character: the
  buffers are large enough, and a wide string converted to a narrow one and back is the same.
\<close>

theorem wide_string_roundtrip:
  assumes "codec_ok enc dec A" "set ws \<subseteq> A"
  shows "str_2_wstr dec (Some (wstr_2_str enc (Some ws))) = ws
    \<and> string_2_wstring dec (wstring_2_string enc ws) = ws"
proof -
  have nz: "0 \<notin> set ws" using assms by (auto simp: codec_ok_def)
  obtain bs where "mb_fill enc (2 * length ws) ws = Some bs" "0 \<notin> set bs" "length ws \<le> length bs"
    "wide_fill dec (length bs) bs = Some ws"
    using mb_fill_fits [OF assms, of "2 * length ws"] by auto
  with nz show ?thesis
    by (simp add: str_2_wstr_def wstr_2_str_def string_2_wstring_def wstring_2_string_def wcstombs_s_def
        mbstowcs_s_def sizeof_wchar_t_def)
qed

theorem wide_string_roundtrip_witness:
  "str_2_wstr (\<lambda>bs. case bs of [] \<Rightarrow> None | b # _ \<Rightarrow> Some (ucast b, 1))
     (Some (wstr_2_str (\<lambda>w. if w < 128 then Some [ucast w] else None) (Some [65, 66, 67]))) = [65, 66, 67]"
proof -
  let ?enc = "\<lambda>w :: u16. if w < 128 then Some [ucast w :: byte] else None"
  let ?dec = "\<lambda>bs :: byte list. case bs of [] \<Rightarrow> None | b # _ \<Rightarrow> Some (ucast b :: u16, 1 :: nat)"
  have "codec_ok ?enc ?dec {65, 66, 67}" "set [65, 66, 67] \<subseteq> {65, 66, 67 :: u16}"
    unfolding codec_ok_def by simp_all
  then show ?thesis by (rule wide_string_roundtrip [THEN conjunct1])
qed

text \<open>
  In an encoding that keeps ASCII the program converts in both directions, and prints the wide
  string both times as an address.
\<close>

lemma char_2_wchar_output:
  assumes "\<forall>w \<in> {65..71}. enc w = Some [ucast w]" "\<forall>b r. b \<in> {65..71} \<longrightarrow> dec (b # r) = Some (ucast b, 1)"
  shows "char_2_wchar_main enc dec show_address =
    [''wide_str ['' @ show_address [65, 66, 67, 68, 69, 70, 71] @ ''] trans to -> str [ABCDEFG]'',
     ''str [ABCDEFG] trans to -> wide_str ['' @ show_address [65, 66, 67, 68, 69, 70, 71] @ '']'']"
proof -
  have e: "enc 65 = Some [65]" "enc 66 = Some [66]" "enc 67 = Some [67]" "enc 68 = Some [68]" "enc 69 = Some [69]"
    "enc 70 = Some [70]" "enc 71 = Some [71]"
    using assms(1) by simp_all
  have d: "dec (65 # r) = Some (65, 1)" "dec (66 # r) = Some (66, 1)" "dec (67 # r) = Some (67, 1)"
    "dec (68 # r) = Some (68, 1)" "dec (69 # r) = Some (69, 1)" "dec (70 # r) = Some (70, 1)" "dec (71 # r) = Some (71, 1)" for r
    using assms(2) by simp_all
  have n: "narrow [65, 66, 67, 68, 69, 70, 71] = ''ABCDEFG''" by code_simp
  have "wstring_2_string enc [65, 66, 67, 68, 69, 70, 71] = [65, 66, 67, 68, 69, 70, 71]"
    by (simp add: wstring_2_string_def wcstombs_s_def sizeof_wchar_t_def e)
  moreover have "string_2_wstring dec [65, 66, 67, 68, 69, 70, 71] = [65, 66, 67, 68, 69, 70, 71]"
    by (simp add: string_2_wstring_def mbstowcs_s_def d)
  ultimately show ?thesis by (simp add: char_2_wchar_main_def n Let_def)
qed

subsection \<open>Addresses on both platforms\<close>

text \<open>
  The dotted decimal notation of an address, and the address in network byte order: the form both
  \<open>inet_addr\<close> and \<open>inet_pton\<close> document. \<open>inet_addr\<close> also reads shorter, octal and hexadecimal forms,
  of which nothing is assumed.
\<close>

definition dotted :: "byte \<Rightarrow> byte \<Rightarrow> byte \<Rightarrow> byte \<Rightarrow> string" where
  "dotted a b c d =
     dec_digits (unat a) @ ''.'' @ dec_digits (unat b) @ ''.'' @ dec_digits (unat c) @ ''.'' @ dec_digits (unat d)"

lemma split_at_first:
  "x \<notin> set xs \<Longrightarrow> x \<notin> set ys \<Longrightarrow> xs @ x # r = ys @ x # r' \<longleftrightarrow> xs = ys \<and> r = r'"
proof (induction xs arbitrary: ys)
  case Nil
  then show ?case by (cases ys) auto
next
  case (Cons y xs)
  then show ?case by (cases ys) auto
qed

lemma dec_digits_no_dot: "CHR ''.'' \<notin> set (dec_digits n)"
  using dec_digits_lower [of "CHR ''.''" n] by auto

lemma dotted_inj: "dotted a b c d = dotted a' b' c' d' \<longleftrightarrow> a = a' \<and> b = b' \<and> c = c' \<and> d = d'"
  by (simp add: dotted_def split_at_first [OF dec_digits_no_dot dec_digits_no_dot] word_unat_eq_iff)

lemma dotted_any: "dotted a b c d = ''0.0.0.0'' \<longleftrightarrow> a = 0 \<and> b = 0 \<and> c = 0 \<and> d = 0"
proof -
  have "''0.0.0.0'' = dotted 0 0 0 0" by code_simp
  then show ?thesis by (simp only: dotted_inj)
qed

lemma un_le32_quad: "un_le32 [a, b, c, d] = un_le32 [a', b', c', d'] \<longleftrightarrow> a = a' \<and> b = b' \<and> c = c' \<and> d = d'"
proof -
  have "le32 (un_le32 [a, b, c, d]) = [a, b, c, d]" "le32 (un_le32 [a', b', c', d']) = [a', b', c', d']"
    by (rule le32_un_le32, simp)+
  then show ?thesis by (metis list.inject)
qed

lemma un_le32_special:
  "un_le32 [a, b, c, d] = INADDR_ANY \<longleftrightarrow> a = 0 \<and> b = 0 \<and> c = 0 \<and> d = 0"
  "un_le32 [a, b, c, d] = INADDR_NONE \<longleftrightarrow> a = 255 \<and> b = 255 \<and> c = 255 \<and> d = 255"
proof -
  have e: "INADDR_ANY = un_le32 [0, 0, 0, 0]" "INADDR_NONE = un_le32 [255, 255, 255, 255]" by code_simp+
  show "un_le32 [a, b, c, d] = INADDR_ANY \<longleftrightarrow> a = 0 \<and> b = 0 \<and> c = 0 \<and> d = 0"
    "un_le32 [a, b, c, d] = INADDR_NONE \<longleftrightarrow> a = 255 \<and> b = 255 \<and> c = 255 \<and> d = 255"
    unfolding e by (rule un_le32_quad)+
qed

text \<open>
  C37. The two branches of \<open>cp_inet_pton\<close> on an address in dotted decimal notation, where \<open>inet_addr\<close> and
  \<open>inet_pton\<close> read it as documented: both accept it and store its address, 0.0.0.0 included, which
  \<open>inet_addr\<close> alone could not be trusted with; only 255.255.255.255 is rejected by the Windows branch, as
  its address is the value by which \<open>inet_addr\<close> reports an error. For a null host both store the
  any address.
\<close>

theorem inet_pton_platforms_agree:
  assumes "inet_addr (dotted a b c d) = un_le32 [a, b, c, d]"
    and "os_inet_pton os (dotted a b c d) = (1, un_le32 [a, b, c, d])"
  shows "cp_inet_pton os af (Some (dotted a b c d)) p = (1, p\<lparr>s_addr := un_le32 [a, b, c, d]\<rparr>)
    \<and> cp_inet_pton_win inet_addr af (Some (dotted a b c d)) p =
        (if [a, b, c, d] = [255, 255, 255, 255] then - 1 else 1, p\<lparr>s_addr := un_le32 [a, b, c, d]\<rparr>)
    \<and> cp_inet_pton os af None p = (1, p\<lparr>s_addr := INADDR_ANY\<rparr>)
    \<and> cp_inet_pton_win inet_addr af None p = (1, p\<lparr>s_addr := INADDR_ANY\<rparr>)"
proof -
  let ?x = "un_le32 [a, b, c, d]" and ?h = "dotted a b c d"
  have any: "?h = ''0.0.0.0'' \<longleftrightarrow> ?x = INADDR_ANY" by (simp only: un_le32_special dotted_any)
  have none: "[a, b, c, d] = [255, 255, 255, 255] \<longleftrightarrow> ?x = INADDR_NONE" by (simp only: un_le32_special list.inject simp_thms)
  have "INADDR_ANY \<noteq> INADDR_NONE" by (simp add: INADDR_ANY_def INADDR_NONE_def)
  then show ?thesis
    unfolding none cp_inet_pton_def cp_inet_pton_win_def
    by (cases "?x = INADDR_ANY") (simp_all add: any assms Let_def del: un_le32.simps)
qed

theorem inet_pton_platforms_agree_witness:
  "cp_inet_pton_win (\<lambda>h. un_le32 [127, 0, 0, 1]) AF_INET (Some ''127.0.0.1'') \<lparr>sin_family = 2, sin_port = 0, s_addr = 7\<rparr> =
    cp_inet_pton (good_os\<lparr>os_inet_pton := \<lambda>h. (1, un_le32 [127, 0, 0, 1])\<rparr>) AF_INET (Some ''127.0.0.1'')
      \<lparr>sin_family = 2, sin_port = 0, s_addr = 7\<rparr>"
proof -
  have "dotted 127 0 0 1 = ''127.0.0.1''" by code_simp
  with inet_pton_platforms_agree [of "\<lambda>h. un_le32 [127, 0, 0, 1]" 127 0 0 1
      "good_os\<lparr>os_inet_pton := \<lambda>h. (1, un_le32 [127, 0, 0, 1])\<rparr>"]
  show ?thesis by simp
qed

end
