(* ===== verification/Winsock.thy ===== *)
theory Winsock
  imports Cp_Socket_Windows Stdio "HOL-Library.Signed_Division"
begin

text \<open>
  The program \<^bold>\<open>socket_exception\<close>: the wrappers of \<open>cp_socket.cpp\<close> as they are compiled on Windows,
  and a \<open>main\<close> that calls them without initialising the library and then divides by zero to see
  whether the exception is caught. Winsock is a parameter: the record \<open>winsock\<close> gives the result
  of every call from the history of the calls before it. A \<open>SOCKET\<close> is an unsigned integer of 64
  bits, and a failed call leaves its code for \<open>WSAGetLastError\<close>. The state keeps that code, the history,
  the undefined behaviours and what the program has printed.
\<close>

subsection \<open>Winsock\<close>

type_synonym SOCKET = "64 word"

definition INVALID_SOCKET_ws :: SOCKET where "INVALID_SOCKET_ws = - 1"
definition WSANOTINITIALISED :: int where "WSANOTINITIALISED = 10093"

datatype ws_event =
    Ws_startup u16 int
  | Ws_cleanup
  | Ws_socket int int int SOCKET
  | Ws_bind SOCKET sockaddr_in int
  | Ws_listen SOCKET int int
  | Ws_connect SOCKET sockaddr_in int
  | Ws_accept SOCKET SOCKET
  | Ws_send SOCKET "byte list" int int
  | Ws_recv SOCKET nat int "byte list option"
  | Ws_select "SOCKET list" "SOCKET list" "SOCKET list" "int option" int
  | Ws_ioctl SOCKET u32 int
  | Ws_close SOCKET
  | Ws_getpeername SOCKET int
  | Ws_sleep u32

type_synonym ws_history = "ws_event list"

text \<open>
  A failing call is \<open>Inl e\<close> with its error code. \<open>inet_addr\<close> and \<open>inet_pton\<close> are pure, \<open>ws_inet_ntoa\<close>
  is \<open>None\<close> for the null pointer, \<open>ws_junk\<close> is an uninitialised byte of the stack.
\<close>

record winsock =
  ws_startup :: "ws_history \<Rightarrow> u16 \<Rightarrow> int"
  ws_socket :: "ws_history \<Rightarrow> int \<Rightarrow> int \<Rightarrow> int \<Rightarrow> int + SOCKET"
  ws_bind :: "ws_history \<Rightarrow> SOCKET \<Rightarrow> sockaddr_in \<Rightarrow> int + unit"
  ws_listen :: "ws_history \<Rightarrow> SOCKET \<Rightarrow> int \<Rightarrow> int + unit"
  ws_connect :: "ws_history \<Rightarrow> SOCKET \<Rightarrow> sockaddr_in \<Rightarrow> int + unit"
  ws_accept :: "ws_history \<Rightarrow> SOCKET \<Rightarrow> int + (SOCKET \<times> sockaddr_in)"
  ws_send :: "ws_history \<Rightarrow> SOCKET \<Rightarrow> byte list \<Rightarrow> int \<Rightarrow> int + nat"
  ws_recv :: "ws_history \<Rightarrow> SOCKET \<Rightarrow> nat \<Rightarrow> int \<Rightarrow> int + byte list"
  ws_select :: "ws_history \<Rightarrow> SOCKET list \<Rightarrow> SOCKET list \<Rightarrow> SOCKET list \<Rightarrow> int option \<Rightarrow>
                  int + (SOCKET list \<times> SOCKET list \<times> SOCKET list)"
  ws_ioctl :: "ws_history \<Rightarrow> SOCKET \<Rightarrow> u32 \<Rightarrow> int + unit"
  ws_getpeername :: "ws_history \<Rightarrow> SOCKET \<Rightarrow> int + sockaddr_in"
  ws_inet_addr :: "string \<Rightarrow> u32"
  ws_inet_ntoa :: "ws_history \<Rightarrow> u32 \<Rightarrow> string option"
  ws_inet_pton :: "string \<Rightarrow> int \<times> u32"
  ws_junk :: "ws_history \<Rightarrow> byte"

record win =
  ws_trace :: ws_history
  ws_error :: int
  ws_ub :: "fault list"
  ws_out :: string

definition ws_emit :: "ws_event \<Rightarrow> 'a win_scheme \<Rightarrow> 'a win_scheme" where
  "ws_emit ev s = s\<lparr>ws_trace := ws_trace s @ [ev]\<rparr>"

definition ws_fail :: "int \<Rightarrow> ws_event \<Rightarrow> 'a win_scheme \<Rightarrow> 'a win_scheme" where
  "ws_fail e ev s = (ws_emit ev s)\<lparr>ws_error := e\<rparr>"

definition ws_fault :: "fault \<Rightarrow> 'a win_scheme \<Rightarrow> 'a win_scheme" where
  "ws_fault f s = s\<lparr>ws_ub := ws_ub s @ [f]\<rparr>"

definition ws_print :: "string \<Rightarrow> 'a win_scheme \<Rightarrow> 'a win_scheme" where
  "ws_print str s = s\<lparr>ws_out := ws_out s @ str\<rparr>"

declare ws_emit_def [simp] ws_fail_def [simp] ws_fault_def [simp] ws_print_def [simp]

subsection \<open>The wrappers\<close>

definition cp_socket_init_ws :: "winsock \<Rightarrow> 'a win_scheme \<Rightarrow> int \<times> 'a win_scheme" where
  "cp_socket_init_ws w s =
     (let wd = 0x0202; ret = ws_startup w (ws_trace s) wd; s = ws_emit (Ws_startup wd ret) s
      in if ret \<noteq> 0 then (ret, s) else (0, s))"

definition cp_socket_uninit_ws :: "'a win_scheme \<Rightarrow> 'a win_scheme" where
  "cp_socket_uninit_ws s = ws_emit Ws_cleanup s"

definition cp_socket_valid_ws :: "SOCKET \<Rightarrow> bool" where
  "cp_socket_valid_ws sock = (sock \<noteq> 0 \<and> sock \<noteq> INVALID_SOCKET_ws)"

definition cp_socket_ws :: "winsock \<Rightarrow> int \<Rightarrow> int \<Rightarrow> int \<Rightarrow> 'a win_scheme \<Rightarrow> SOCKET \<times> 'a win_scheme" where
  "cp_socket_ws w af ty protocol s =
     (case ws_socket w (ws_trace s) AF_INET ty protocol of
        Inl e \<Rightarrow> (INVALID_SOCKET_ws, ws_fail e (Ws_socket AF_INET ty protocol INVALID_SOCKET_ws) s)
      | Inr k \<Rightarrow> (k, ws_emit (Ws_socket AF_INET ty protocol k) s))"

definition cp_socket_udp_ws :: "winsock \<Rightarrow> int \<Rightarrow> int \<Rightarrow> int \<Rightarrow> 'a win_scheme \<Rightarrow> SOCKET \<times> 'a win_scheme" where
  "cp_socket_udp_ws w af ty protocol s = cp_socket_ws w af ty protocol s"

definition cp_socket_tcp_ws :: "winsock \<Rightarrow> int \<Rightarrow> int \<Rightarrow> int \<Rightarrow> 'a win_scheme \<Rightarrow> SOCKET \<times> 'a win_scheme" where
  "cp_socket_tcp_ws w af ty protocol s = cp_socket_ws w af ty protocol s"

text \<open>
  \<open>strncpy_s(dst, len, src, count)\<close>: the first \<open>count\<close> characters of \<open>src\<close>, which have to fit together
  with the terminator; otherwise, and for a null source, the runtime stops the call and the
  buffer is left empty.
\<close>

definition strncpy_s :: "nat \<Rightarrow> string option \<Rightarrow> nat \<Rightarrow> 'a win_scheme \<Rightarrow> string \<times> 'a win_scheme" where
  "strncpy_s len src count s =
     (case src of
        None \<Rightarrow> ('''', ws_fault InvalidParameter s)
      | Some str \<Rightarrow>
          if length (take count str) < len then (take count str, s) else ('''', ws_fault InvalidParameter s))"

definition cp_inet_ntop_ws ::
  "winsock \<Rightarrow> sockaddr_in option \<Rightarrow> string option \<Rightarrow> nat \<Rightarrow> 'a win_scheme \<Rightarrow> string option \<times> 'a win_scheme"
where
  "cp_inet_ntop_ws w src dst len s =
     (case (dst, src) of
        (Some old, Some a) \<Rightarrow>
          (let (dst, s) = strncpy_s len (ws_inet_ntoa w (ws_trace s) (s_addr a)) len s in (Some dst, s))
      | _ \<Rightarrow> (None, s))"

definition stack_sockaddr_ws :: "winsock \<Rightarrow> int \<Rightarrow> u16 \<Rightarrow> 'a win_scheme \<Rightarrow> sockaddr_in" where
  "stack_sockaddr_ws w af port s =
     \<lparr>sin_family = af, sin_port = port, s_addr = un_le32 (replicate 4 (ws_junk w (ws_trace s)))\<rparr>"

definition cp_inet_pton_ws :: "winsock \<Rightarrow> int \<Rightarrow> string option \<Rightarrow> sockaddr_in \<Rightarrow> int \<times> sockaddr_in" where
  "cp_inet_pton_ws w af p_host p_addr =
     (case p_host of
        None \<Rightarrow> (1, p_addr\<lparr>s_addr := INADDR_ANY\<rparr>)
      | Some h \<Rightarrow>
          if h = ''0.0.0.0'' then (1, p_addr\<lparr>s_addr := INADDR_ANY\<rparr>)
          else
            (let p_addr = p_addr\<lparr>s_addr := ws_inet_addr w h\<rparr> in
             if s_addr p_addr = INADDR_ANY then (0, p_addr\<lparr>s_addr := INADDR_NONE\<rparr>)
             else if s_addr p_addr = INADDR_NONE then (-1, p_addr)
             else (1, p_addr)))"

definition cp_bind_ws :: "winsock \<Rightarrow> SOCKET \<Rightarrow> int \<Rightarrow> string option \<Rightarrow> u16 \<Rightarrow> 'a win_scheme \<Rightarrow> int \<times> 'a win_scheme" where
  "cp_bind_ws w sock af p_srv_host srv_port s =
     (let sin = stack_sockaddr_ws w af (htons srv_port) s;
          (ret, sin) = cp_inet_pton_ws w af p_srv_host sin
      in if ret = 0 \<or> ret = -1 then (-2, s)
         else case ws_bind w (ws_trace s) sock sin of
                Inl e \<Rightarrow> (-1, ws_fail e (Ws_bind sock sin (-1)) s)
              | Inr _ \<Rightarrow> (0, ws_emit (Ws_bind sock sin 0) s))"

definition cp_listen_ws :: "winsock \<Rightarrow> SOCKET \<Rightarrow> int \<Rightarrow> 'a win_scheme \<Rightarrow> int \<times> 'a win_scheme" where
  "cp_listen_ws w sock maxconn s =
     (case ws_listen w (ws_trace s) sock maxconn of
        Inl e \<Rightarrow> (-1, ws_fail e (Ws_listen sock maxconn (-1)) s)
      | Inr _ \<Rightarrow> (0, ws_emit (Ws_listen sock maxconn 0) s))"

definition ws_sys_connect :: "winsock \<Rightarrow> SOCKET \<Rightarrow> sockaddr_in \<Rightarrow> 'a win_scheme \<Rightarrow> int \<times> 'a win_scheme" where
  "ws_sys_connect w sock a s =
     (case ws_connect w (ws_trace s) sock a of
        Inl e \<Rightarrow> (-1, ws_fail e (Ws_connect sock a (-1)) s)
      | Inr _ \<Rightarrow> (0, ws_emit (Ws_connect sock a 0) s))"

definition cp_connect_ws :: "winsock \<Rightarrow> SOCKET \<Rightarrow> int \<Rightarrow> string option \<Rightarrow> u16 \<Rightarrow> 'a win_scheme \<Rightarrow> int \<times> 'a win_scheme" where
  "cp_connect_ws w sock af p_srv_host srv_port s =
     (let sin = stack_sockaddr_ws w af (htons srv_port) s in
      if p_srv_host = None \<or> srv_port = 0 then (-2, s)
      else
        (let (ret, sin) = cp_inet_pton_ws w af p_srv_host sin
         in if ret = 0 \<or> ret = -1 then (-3, s) else ws_sys_connect w sock sin s))"

definition cp_accept_ws :: "winsock \<Rightarrow> SOCKET \<Rightarrow> sockaddr_in \<Rightarrow> 'a win_scheme \<Rightarrow> SOCKET \<times> sockaddr_in \<times> 'a win_scheme" where
  "cp_accept_ws w sock p_addr s =
     (case ws_accept w (ws_trace s) sock of
        Inl e \<Rightarrow> (INVALID_SOCKET_ws, p_addr, ws_fail e (Ws_accept sock INVALID_SOCKET_ws) s)
      | Inr (c, peer) \<Rightarrow> (c, peer, ws_emit (Ws_accept sock c) s))"

definition ws_read_block :: "nat \<Rightarrow> nat \<Rightarrow> byte list \<Rightarrow> 'a win_scheme \<Rightarrow> byte list \<times> 'a win_scheme" where
  "ws_read_block off n blk s =
     (take n (drop off blk), if in_block off n blk then s else ws_fault OutOfBounds s)"

definition ws_sys_send :: "winsock \<Rightarrow> SOCKET \<Rightarrow> byte list \<Rightarrow> int \<Rightarrow> 'a win_scheme \<Rightarrow> int \<times> 'a win_scheme" where
  "ws_sys_send w sock d flags s =
     (case ws_send w (ws_trace s) sock d flags of
        Inl e \<Rightarrow> (-1, ws_fail e (Ws_send sock d flags (-1)) s)
      | Inr n \<Rightarrow> (let r = int (min n (length d)) in (r, ws_emit (Ws_send sock d flags r) s)))"

definition cp_send_ws :: "winsock \<Rightarrow> SOCKET \<Rightarrow> byte list option \<Rightarrow> int \<Rightarrow> int \<Rightarrow> 'a win_scheme \<Rightarrow> int \<times> 'a win_scheme" where
  "cp_send_ws w sock buf len flags s =
     (case buf of
        None \<Rightarrow> (0, s)
      | Some b \<Rightarrow>
          if len < 1 then (0, s)
          else (let (d, s) = ws_read_block 0 (nat len) b s in ws_sys_send w sock d flags s))"

definition ws_sys_recv :: "winsock \<Rightarrow> SOCKET \<Rightarrow> nat \<Rightarrow> int \<Rightarrow> 'a win_scheme \<Rightarrow> int \<times> byte list \<times> 'a win_scheme" where
  "ws_sys_recv w sock n flags s =
     (case ws_recv w (ws_trace s) sock n flags of
        Inl e \<Rightarrow> (-1, [], ws_fail e (Ws_recv sock n flags None) s)
      | Inr d \<Rightarrow> (let d = take n d in (int (length d), d, ws_emit (Ws_recv sock n flags (Some d)) s)))"

definition cp_recv_ws :: "winsock \<Rightarrow> SOCKET \<Rightarrow> bool \<Rightarrow> int \<Rightarrow> int \<Rightarrow> 'a win_scheme \<Rightarrow> int \<times> byte list \<times> 'a win_scheme" where
  "cp_recv_ws w sock buf len flags s =
     (if \<not> buf \<or> len < 1 then (0, [], s) else ws_sys_recv w sock (nat len) flags s)"

function cp_send_all_loop_ws :: "winsock \<Rightarrow> SOCKET \<Rightarrow> byte list \<Rightarrow> int \<Rightarrow> int \<Rightarrow> int \<Rightarrow> 'a win_scheme \<Rightarrow> int \<times> 'a win_scheme" where
  "cp_send_all_loop_ws w sock b len flags n_total_send s =
     (let (d, s) = ws_read_block (nat n_total_send) (nat (len - n_total_send)) b s;
          (n_curr_send, s) = ws_sys_send w sock d flags s
      in if n_curr_send > 0 then
           (if n_total_send + n_curr_send < len
            then cp_send_all_loop_ws w sock b len flags (n_total_send + n_curr_send) s
            else (len, s))
         else if n_curr_send = 0 then (0, s)
         else (-1, s))"
  by pat_completeness auto
termination
  by (relation "measure (\<lambda>(w, sock, b, len, flags, n, s). nat (len - n))") auto

declare cp_send_all_loop_ws.simps [simp del]

definition cp_send_all_ws :: "winsock \<Rightarrow> SOCKET \<Rightarrow> byte list option \<Rightarrow> int \<Rightarrow> int \<Rightarrow> 'a win_scheme \<Rightarrow> int \<times> 'a win_scheme" where
  "cp_send_all_ws w sock buf len flags s =
     (case buf of
        None \<Rightarrow> (0, s)
      | Some b \<Rightarrow> if len < 1 then (0, s) else cp_send_all_loop_ws w sock b len flags 0 s)"

text \<open>
  The \<open>fd_set\<close> of Windows is an array of \<open>FD_SETSIZE\<close> sockets with a counter. \<open>FD_SET\<close> leaves a full set as
  it is; nothing tells the program.
\<close>

definition FD_SETSIZE_ws :: nat where "FD_SETSIZE_ws = 64"

definition FD_SET_ws :: "SOCKET \<Rightarrow> SOCKET list \<Rightarrow> SOCKET list" where
  "FD_SET_ws k fds = (if k \<in> set fds \<or> FD_SETSIZE_ws \<le> length fds then fds else fds @ [k])"

definition FD_ISSET_ws :: "SOCKET \<Rightarrow> SOCKET list \<Rightarrow> bool" where
  "FD_ISSET_ws k fds = (k \<in> set fds)"

text \<open>
  \<open>select\<close> leaves in each set the sockets that are ready and returns their number; the first
  argument is ignored on Windows. The timeout is in microseconds, \<open>None\<close> is a null pointer.
\<close>

definition ws_sys_select ::
  "winsock \<Rightarrow> SOCKET list \<Rightarrow> SOCKET list \<Rightarrow> SOCKET list \<Rightarrow> int option \<Rightarrow> 'a win_scheme \<Rightarrow>
    int \<times> (SOCKET list \<times> SOCKET list \<times> SOCKET list) \<times> 'a win_scheme"
where
  "ws_sys_select w r wr e t s =
     (case ws_select w (ws_trace s) r wr e t of
        Inl err \<Rightarrow> (-1, (r, wr, e), ws_fail err (Ws_select r wr e t (-1)) s)
      | Inr (r', wr', e') \<Rightarrow>
          (let r' = filter (\<lambda>k. k \<in> set r') r;
               wr' = filter (\<lambda>k. k \<in> set wr') wr;
               e' = filter (\<lambda>k. k \<in> set e') e;
               ret = int (length r' + length wr' + length e')
           in (ret, (r', wr', e'), ws_emit (Ws_select r wr e t ret) s)))"

partial_function (option) cp_clear_recv_buffer_ws :: "winsock \<Rightarrow> SOCKET \<Rightarrow> 'a win_scheme \<Rightarrow> 'a win_scheme option" where
  "cp_clear_recv_buffer_ws w sock s =
     (let fds = FD_SET_ws sock [];
          (ret, (fds, _, _), s) = ws_sys_select w fds [] [] (Some 0) s
      in if ret = 0 then Some s
         else if ret = SOCKET_ERROR then Some s
         else
           (let s = (if FD_ISSET_ws sock fds then snd (snd (ws_sys_recv w sock 100 0 s)) else s)
            in cp_clear_recv_buffer_ws w sock s))"

definition cp_setblocking_ws :: "winsock \<Rightarrow> SOCKET \<Rightarrow> bool \<Rightarrow> 'a win_scheme \<Rightarrow> int \<times> 'a win_scheme" where
  "cp_setblocking_ws w sock is_block s =
     (let mode = (if is_block then 0 else 1)
      in case ws_ioctl w (ws_trace s) sock mode of
           Inl e \<Rightarrow> (-1, ws_fail e (Ws_ioctl sock mode (-1)) s)
         | Inr _ \<Rightarrow> (0, ws_emit (Ws_ioctl sock mode 0) s))"

definition cp_close_socket_ws :: "SOCKET \<Rightarrow> 'a win_scheme \<Rightarrow> 'a win_scheme" where
  "cp_close_socket_ws sock s = ws_emit (Ws_close sock) s"

definition create_connection_ws :: "winsock \<Rightarrow> string \<Rightarrow> u16 \<Rightarrow> 'a win_scheme \<Rightarrow> SOCKET \<times> 'a win_scheme" where
  "create_connection_ws w server_ip server_port s =
     (let (sock, s) = cp_socket_tcp_ws w AF_INET SOCK_STREAM IPPROTO_TCP s in
      if sock = INVALID_SOCKET_ws then (- 1, s)
      else
        (let srv_addr = stack_sockaddr_ws w AF_INET (htons server_port) s;
             (ret, a) = ws_inet_pton w server_ip;
             srv_addr = (if ret = 1 then srv_addr\<lparr>s_addr := a\<rparr> else srv_addr);
             (ret, s) = ws_sys_connect w sock srv_addr s
         in if ret = SOCKET_ERROR then (- 1, cp_close_socket_ws sock s) else (sock, s)))"

definition cp_getpeername_ws :: "winsock \<Rightarrow> SOCKET \<Rightarrow> sockaddr_in \<Rightarrow> 'a win_scheme \<Rightarrow> int \<times> sockaddr_in \<times> 'a win_scheme" where
  "cp_getpeername_ws w sock sin s =
     (case ws_getpeername w (ws_trace s) sock of
        Inl e \<Rightarrow> (-1, sin, ws_fail e (Ws_getpeername sock (-1)) s)
      | Inr peer \<Rightarrow> (0, peer, ws_emit (Ws_getpeername sock 0) s))"

text \<open>The string conversions of this file, character for character those of \<open>cp_socket.cpp\<close>.\<close>

definition wstr_2_str_ws :: "(u16 \<Rightarrow> byte list option) \<Rightarrow> u16 list option \<Rightarrow> byte list" where
  "wstr_2_str_ws enc cws =
     (case cws of
        None \<Rightarrow> []
      | Some p \<Rightarrow>
          (let ws = c_str p;
               dByteNum = sizeof_wchar_t * length ws + 1
           in c_str (wcstombs_s enc dByteNum (c_str ws))))"

definition str_2_wstr_ws :: "(byte list \<Rightarrow> (u16 \<times> nat) option) \<Rightarrow> byte list option \<Rightarrow> u16 list" where
  "str_2_wstr_ws dec cstr =
     (case cstr of
        None \<Rightarrow> []
      | Some p \<Rightarrow>
          (let s = c_str p;
               charNum = length s + 1
           in c_str (mbstowcs_s dec charNum (c_str s))))"

subsection \<open>The program\<close>

definition show_int :: "int \<Rightarrow> string" where
  "show_int i = (if i < 0 then CHR ''-'' # dec_digits (nat (- i)) else dec_digits (nat i))"

text \<open>
  The quotient of two variables of type \<open>int\<close>. A division by zero throws nothing a handler of
  \<open>std::exception\<close> could catch; nothing is defined after it.
\<close>

definition int_div :: "int \<Rightarrow> int \<Rightarrow> win \<Rightarrow> int option \<times> win" where
  "int_div b a s = (if a = 0 then (None, ws_fault DivideByZero s) else (Some (b sdiv a), s))"

definition main_ws :: "winsock \<Rightarrow> win \<Rightarrow> int option \<times> win" where
  "main_ws w s =
     (let (sock, s) = cp_socket_tcp_ws w AF_INET SOCK_STREAM IPPROTO_TCP s;
          (_, s) = cp_bind_ws w sock AF_INET (Some ''127.0.0.1'') 9956 s;
          sin = stack_sockaddr_ws w 0 0 s;
          (ret, sin, s) = cp_getpeername_ws w sock sin s;
          s = (if ret = 0 then
                 (let (ip, s) = cp_inet_ntop_ws w (Some sin) (Some '''') 16 s
                  in case ip of
                       None \<Rightarrow> ws_fault NullDeref s
                     | Some peer_host \<Rightarrow>
                         ws_print (peer_host @ '' '' @ dec_digits (unat (ntohs (sin_port sin))) @ [char_of (10 :: nat)]) s)
               else ws_print (''catch exception failed, use os error code:'' @ show_int (ws_error s) @ [char_of (10 :: nat)]) s);
          a = 0;
          b = 1;
          (c, s) = int_div b a s
      in case c of None \<Rightarrow> (None, s) | Some _ \<Rightarrow> (Some 0, s))"

subsection \<open>Sending\<close>

fun ws_sent_by :: "SOCKET \<Rightarrow> ws_event \<Rightarrow> byte list" where
  "ws_sent_by k (Ws_send c bs fl r) = (if c = k then take (nat r) bs else [])"
| "ws_sent_by k _ = []"

definition ws_sent_on :: "SOCKET \<Rightarrow> ws_history \<Rightarrow> byte list" where
  "ws_sent_on k h = concat (map (ws_sent_by k) h)"

interpretation ws_sender: chunked_sender "\<lambda>b len. cp_send_all_loop_ws w sock b len flags"
    "\<lambda>d. ws_sys_send w sock d flags" "\<lambda>s. ws_sent_on sock (ws_trace s)" ws_ub for w sock flags
proof
  show "\<exists>n s'. ws_sys_send w sock d flags s = (n, s') \<and> - 1 \<le> n \<and> n \<le> int (length d)
      \<and> ws_sent_on sock (ws_trace s') = ws_sent_on sock (ws_trace s) @ take (nat n) d \<and> ws_ub s' = ws_ub s" for d s
    by (cases "ws_send w (ws_trace s) sock d flags") (simp_all add: ws_sys_send_def ws_sent_on_def Let_def)
  fix t len :: int and b :: "byte list" and s
  assume "0 \<le> t" "t < len" "nat len \<le> length b"
  then have "ws_read_block (nat t) (nat (len - t)) b s = (take (nat (len - t)) (drop (nat t) b), s)"
    by (auto simp: ws_read_block_def in_block_def)
  then show "cp_send_all_loop_ws w sock b len flags t s =
      (let (n, s) = ws_sys_send w sock (take (nat (len - t)) (drop (nat t) b)) flags s
       in if n > 0 then (if t + n < len then cp_send_all_loop_ws w sock b len flags (t + n) s else (len, s))
          else if n = 0 then (0, s) else (-1, s))"
    by (subst cp_send_all_loop_ws.simps) simp
qed

text \<open>
  On Windows too \<open>cp_send_all\<close> ends and sends an in-order prefix of its buffer: all of it when it
  returns \<open>len\<close>, a proper prefix when it returns 0 or -1.
\<close>

lemma cp_send_all_ws_delivers:
  assumes "1 \<le> len" "nat len \<le> length b"
  shows "\<exists>k ret s'. cp_send_all_ws w sock (Some b) len flags s = (ret, s') \<and> ws_ub s' = ws_ub s
    \<and> ws_sent_on sock (ws_trace s') = ws_sent_on sock (ws_trace s) @ take k b
    \<and> (if ret = len then k = nat len else k < nat len \<and> (ret = 0 \<or> ret = -1))"
  using ws_sender.loop_effect [of 0 len b w sock flags s] assms
  by (simp add: cp_send_all_ws_def split del: if_split cong: if_cong)

subsection \<open>Blocking mode\<close>

text \<open>What the successful \<open>FIONBIO\<close> calls of a history leave: whether the socket is non-blocking.\<close>

fun ws_mode_step :: "SOCKET \<Rightarrow> bool \<Rightarrow> ws_event \<Rightarrow> bool" where
  "ws_mode_step k m (Ws_ioctl c mode r) = (if c = k \<and> r = 0 then mode \<noteq> 0 else m)"
| "ws_mode_step k m _ = m"

definition ws_nonblocking :: "SOCKET \<Rightarrow> ws_history \<Rightarrow> bool" where
  "ws_nonblocking k h = foldl (ws_mode_step k) False h"

text \<open>
  On Windows \<open>cp_setblocking\<close> leaves the socket in the mode it was asked for, and in the mode it
  had when the call fails: the flaw of the Linux branch, which cannot make a socket blocking again,
  is not there.
\<close>

theorem cp_setblocking_ws_sets_mode:
  "\<exists>ret s'. cp_setblocking_ws w sock is_block s = (ret, s') \<and>
    (if ret = 0 then ws_nonblocking sock (ws_trace s') \<longleftrightarrow> \<not> is_block
     else ret = SOCKET_ERROR \<and> ws_nonblocking sock (ws_trace s') = ws_nonblocking sock (ws_trace s))"
  by (cases "ws_ioctl w (ws_trace s) sock (if is_block then 0 else 1)")
    (simp_all add: cp_setblocking_ws_def Let_def ws_nonblocking_def SOCKET_ERROR_def)

subsection \<open>Connections\<close>

fun ws_open_step :: "SOCKET set \<Rightarrow> ws_event \<Rightarrow> SOCKET set" where
  "ws_open_step A (Ws_socket af ty pr k) = (if k = INVALID_SOCKET_ws then A else insert k A)"
| "ws_open_step A (Ws_accept l k) = (if k = INVALID_SOCKET_ws then A else insert k A)"
| "ws_open_step A (Ws_close k) = A - {k}"
| "ws_open_step A _ = A"

definition ws_open :: "ws_history \<Rightarrow> SOCKET set" where
  "ws_open h = foldl ws_open_step {} h"

text \<open>
  \<open>create_connection\<close> leaks no socket: on failure the sockets that are open are those that were,
  otherwise there is one more, the one it returns.
\<close>

lemma create_connection_ws_no_leak:
  assumes "\<And>k. ws_socket w (ws_trace s) AF_INET SOCK_STREAM IPPROTO_TCP = Inr k \<Longrightarrow> k \<notin> ws_open (ws_trace s)"
    and "create_connection_ws w ip port s = (k, s')"
  shows "ws_open (ws_trace s') = (if k = INVALID_SOCKET_ws then ws_open (ws_trace s) else insert k (ws_open (ws_trace s)))"
  using assms
  by (auto simp: create_connection_ws_def cp_socket_tcp_ws_def cp_socket_ws_def ws_sys_connect_def cp_close_socket_ws_def
      ws_open_def INVALID_SOCKET_ws_def SOCKET_ERROR_def Let_def split: sum.splits prod.splits if_splits)

subsection \<open>The experiment\<close>

text \<open>How often the library was initialised and not released again.\<close>

fun ws_ref_step :: "nat \<Rightarrow> ws_event \<Rightarrow> nat" where
  "ws_ref_step n (Ws_startup v r) = (if r = 0 then Suc n else n)"
| "ws_ref_step n Ws_cleanup = n - 1"
| "ws_ref_step n _ = n"

definition ws_started :: "ws_history \<Rightarrow> bool" where
  "ws_started h = (0 < foldl ws_ref_step 0 h)"

text \<open>
  What the documentation of Winsock says of the calls the program makes: before a successful
  \<open>WSAStartup\<close> they fail with \<open>WSANOTINITIALISED\<close>.
\<close>

definition winsock_documented :: "winsock \<Rightarrow> bool" where
  "winsock_documented w =
     (\<forall>h. \<not> ws_started h \<longrightarrow>
        (\<forall>af ty pr. ws_socket w h af ty pr = Inl WSANOTINITIALISED) \<and>
        (\<forall>k a. ws_bind w h k a = Inl WSANOTINITIALISED) \<and>
        (\<forall>k. ws_getpeername w h k = Inl WSANOTINITIALISED))"

definition start_win :: win where
  "start_win = \<lparr>ws_trace = [], ws_error = 0, ws_ub = [], ws_out = ''''\<rparr>"

text \<open>
  C36. The experiment does not test what it means to: \<open>main\<close> never initialises Winsock, so that no
  socket is created, the address is bound to \<open>INVALID_SOCKET\<close> and every call fails with 10093, whatever
  the peer; and the division by zero that follows is undefined behaviour, not an exception: the
  handler of \<open>std::exception\<close> prints nothing.
\<close>

theorem main_ws_uninitialised:
  assumes "winsock_documented w" "ws_inet_addr w ''127.0.0.1'' = 0x0100007F"
  shows "\<exists>s'. main_ws w start_win = (None, s') \<and> ws_ub s' = [DivideByZero]
    \<and> ws_trace s' = [Ws_socket AF_INET SOCK_STREAM IPPROTO_TCP INVALID_SOCKET_ws,
        Ws_bind INVALID_SOCKET_ws \<lparr>sin_family = AF_INET, sin_port = htons 9956, s_addr = 0x0100007F\<rparr> (-1),
        Ws_getpeername INVALID_SOCKET_ws (-1)]
    \<and> ws_out s' = ''catch exception failed, use os error code:10093'' @ [char_of (10 :: nat)]"
proof -
  have off: "ws_socket w [] af ty pr = Inl 10093" "ws_bind w [Ws_socket i j l m] k a = Inl 10093"
    "ws_getpeername w [Ws_socket i j l m, Ws_bind k a r] k' = Inl 10093" for af ty pr i j l m k a r k'
    using assms(1) by (simp_all add: winsock_documented_def ws_started_def WSANOTINITIALISED_def)
  have "show_int 10093 = ''10093''"
    by (simp add: show_int_def dec_digits.simps) (simp add: char_of_def bit_0)
  then show ?thesis
    using assms(2) off
    by (simp add: main_ws_def start_win_def cp_socket_tcp_ws_def cp_socket_ws_def cp_bind_ws_def cp_inet_pton_ws_def
        stack_sockaddr_ws_def cp_getpeername_ws_def int_div_def INADDR_ANY_def INADDR_NONE_def Let_def)
qed

definition strict_winsock :: winsock where
  "strict_winsock =
     \<lparr>ws_startup = (\<lambda>h v. 0),
      ws_socket = (\<lambda>h a b c. if ws_started h then Inr 64 else Inl WSANOTINITIALISED),
      ws_bind = (\<lambda>h k a. if ws_started h then Inr () else Inl WSANOTINITIALISED),
      ws_listen = (\<lambda>h k n. if ws_started h then Inr () else Inl WSANOTINITIALISED),
      ws_connect = (\<lambda>h k a. if ws_started h then Inr () else Inl WSANOTINITIALISED),
      ws_accept = (\<lambda>h k. Inl WSANOTINITIALISED), ws_send = (\<lambda>h k bs f. Inr (length bs)),
      ws_recv = (\<lambda>h k n f. Inr []), ws_select = (\<lambda>h r w e t. Inr ([], [], [])), ws_ioctl = (\<lambda>h k m. Inr ()),
      ws_getpeername = (\<lambda>h k. Inl WSANOTINITIALISED), ws_inet_addr = (\<lambda>a. 0x0100007F),
      ws_inet_ntoa = (\<lambda>h a. Some ''127.0.0.1''), ws_inet_pton = (\<lambda>a. (1, 0x0100007F)), ws_junk = (\<lambda>h. 0)\<rparr>"

theorem main_ws_uninitialised_witness:
  "\<exists>s'. main_ws strict_winsock start_win = (None, s') \<and> ws_ub s' = [DivideByZero]
    \<and> ws_out s' = ''catch exception failed, use os error code:10093'' @ [char_of (10 :: nat)]"
proof -
  have "winsock_documented strict_winsock" "ws_inet_addr strict_winsock ''127.0.0.1'' = 0x0100007F"
    by (simp_all add: winsock_documented_def strict_winsock_def)
  from main_ws_uninitialised [OF this] show ?thesis by blast
qed

subsection \<open>The server on Windows\<close>

text \<open>
  \<open>base_socket.cpp\<close> has a static object that initialises Winsock before \<open>main\<close> and releases it after;
  the results of both calls are ignored.
\<close>

definition Startup_ctor :: "winsock \<Rightarrow> win \<Rightarrow> win" where
  "Startup_ctor w s = snd (cp_socket_init_ws w s)"

definition Startup_dtor :: "win \<Rightarrow> win" where
  "Startup_dtor s = cp_socket_uninit_ws s"

lemma Startup_initialises:
  assumes "ws_startup w (ws_trace s) 0x0202 = 0"
  shows "ws_started (ws_trace (Startup_ctor w s))"
    "foldl ws_ref_step 0 (ws_trace (Startup_dtor (Startup_ctor w s))) = foldl ws_ref_step 0 (ws_trace s)"
  using assms by (simp_all add: Startup_ctor_def Startup_dtor_def cp_socket_init_ws_def cp_socket_uninit_ws_def
      ws_started_def Let_def)

text \<open>The wrappers of this program are those of the server in its Windows build.\<close>

lemma same_branches:
  "cp_inet_pton_ws w = cp_inet_pton_win (ws_inet_addr w)" "wstr_2_str_ws = wstr_2_str" "str_2_wstr_ws = str_2_wstr"
  "fst (cp_socket_init_ws w s) = cp_socket_init (Some (ws_startup w (ws_trace s)))"
  "fst (cp_setblocking_ws w k b s) =
    cp_setblocking_win (\<lambda>c mode. case ws_ioctl w (ws_trace s) k mode of Inl _ \<Rightarrow> -1 | Inr _ \<Rightarrow> 0) i b"
  by (simp_all add: fun_eq_iff cp_inet_pton_ws_def cp_inet_pton_win_def wstr_2_str_ws_def wstr_2_str_def str_2_wstr_ws_def
      str_2_wstr_def cp_socket_init_ws_def cp_socket_init_def cp_setblocking_ws_def cp_setblocking_win_def Let_def
      split: sum.split)

end
