(* ===== verification/Winsock_Select.thy ===== *)
theory Winsock_Select
  imports Winsock Ss_Map
begin

text \<open>
  \<open>do_select\<close> of \<^bold>\<open>src/base_socket.cpp\<close> in its Windows build. The loop is the one of Linux, but the
  sets are not: a set holds 64 sockets of any value, and a socket that finds it full is left out.
  The objects in the map are a parameter here, the record \<open>sock_ops\<close> of the methods the loop calls:
  what is shown holds for every class of handlers.

  The lemmas show which sockets \<open>select\<close> is asked for, and that the sockets beyond the first 64 are
  not served.
\<close>

subsection \<open>The round\<close>

record 'w sock_ops =
  ops_map :: "'w \<Rightarrow> (SOCKET, nat) ss_map"
  ops_readable :: "nat \<Rightarrow> 'w \<Rightarrow> bool"
  ops_writable :: "nat \<Rightarrow> 'w \<Rightarrow> bool"
  ops_accepting :: "nat \<Rightarrow> 'w \<Rightarrow> bool"
  ops_read_event :: "nat \<Rightarrow> 'w \<Rightarrow> 'w option"
  ops_write_event :: "nat \<Rightarrow> 'w \<Rightarrow> 'w option"
  ops_expt_event :: "nat \<Rightarrow> 'w \<Rightarrow> 'w option"

record sel_ws =
  ws_r :: "SOCKET list"
  ws_w :: "SOCKET list"
  ws_e :: "SOCKET list"
  ws_socks :: "SOCKET list"
  ws_max_fd :: SOCKET

definition raise_max_ws :: "SOCKET \<Rightarrow> sel_ws \<Rightarrow> sel_ws" where
  "raise_max_ws k a = (if ws_max_fd a < k then a\<lparr>ws_max_fd := k\<rparr> else a)"

definition want_ws :: "SOCKET \<Rightarrow> bool \<Rightarrow> bool \<Rightarrow> bool \<Rightarrow> sel_ws \<Rightarrow> sel_ws" where
  "want_ws k isr isw accepting a =
     (let a = (if isr then raise_max_ws k (a\<lparr>ws_r := FD_SET_ws k (ws_r a)\<rparr>) else a);
          a = (if isw \<and> \<not> accepting then raise_max_ws k (a\<lparr>ws_w := FD_SET_ws k (ws_w a)\<rparr>) else a)
      in if isr \<or> isw
         then raise_max_ws k (a\<lparr>ws_e := FD_SET_ws k (ws_e a), ws_socks := ws_socks a @ [k]\<rparr>) else a)"

fun select_args_ws :: "'w sock_ops \<Rightarrow> (SOCKET, nat) ss_map \<Rightarrow> 'w \<Rightarrow> sel_ws \<Rightarrow> sel_ws" where
  "select_args_ws ops [] s a = a"
| "select_args_ws ops ((k, p) # m) s a =
     select_args_ws ops m s
       (want_ws k (ops_readable ops p s) (ops_writable ops p s) (ops_accepting ops p s) a)"

definition poll_one_ws ::
  "'w sock_ops \<Rightarrow> (nat \<Rightarrow> 'w \<Rightarrow> bool) \<Rightarrow> (nat \<Rightarrow> 'w \<Rightarrow> 'w option) \<Rightarrow> SOCKET \<Rightarrow> SOCKET list \<Rightarrow> int \<Rightarrow> 'w \<Rightarrow>
    (bool \<times> int \<times> 'w) option"
where
  "poll_one_ws ops ready handler k fds retv s =
     (if retv > 0 then
        (case map_find k (ops_map ops s) of
           None \<Rightarrow> Some (True, retv, s)
         | Some p \<Rightarrow>
             if FD_ISSET_ws k fds \<and> ready p s then
               (case handler p s of
                  None \<Rightarrow> None
                | Some s \<Rightarrow> Some (False, retv - 1, s))
             else Some (False, retv, s))
      else Some (False, retv, s))"

fun dispatch_socks_ws ::
  "'w sock_ops \<Rightarrow> SOCKET list \<times> SOCKET list \<times> SOCKET list \<Rightarrow> SOCKET list \<Rightarrow> int \<Rightarrow> 'w \<Rightarrow> 'w option"
where
  "dispatch_socks_ws ops fds [] retv s = Some s"
| "dispatch_socks_ws ops (r, w, e) (k # ks) retv s =
     (case poll_one_ws ops (ops_readable ops) (ops_read_event ops) k r retv s of
        None \<Rightarrow> None
      | Some (True, retv, s) \<Rightarrow> dispatch_socks_ws ops (r, w, e) ks retv s
      | Some (False, retv, s) \<Rightarrow>
          (case poll_one_ws ops (ops_writable ops) (ops_write_event ops) k w retv s of
             None \<Rightarrow> None
           | Some (True, retv, s) \<Rightarrow> dispatch_socks_ws ops (r, w, e) ks retv s
           | Some (False, retv, s) \<Rightarrow>
               (case poll_one_ws ops (\<lambda>p s. ops_readable ops p s \<or> ops_writable ops p s)
                       (ops_expt_event ops) k e retv s of
                  None \<Rightarrow> None
                | Some (_, retv, s) \<Rightarrow> dispatch_socks_ws ops (r, w, e) ks retv s)))"

definition empty_sel_ws :: sel_ws where
  "empty_sel_ws = \<lparr>ws_r = [], ws_w = [], ws_e = [], ws_socks = [], ws_max_fd = 0\<rparr>"

definition do_select_ws ::
  "winsock \<Rightarrow> 'a win_scheme sock_ops \<Rightarrow> int \<Rightarrow> 'a win_scheme \<Rightarrow> 'a win_scheme option"
where
  "do_select_ws w ops timeout_ms s =
     (if map_size (ops_map ops s) = 0 then Some s
      else
        (let a = select_args_ws ops (ops_map ops s) s empty_sel_ws
         in if ws_max_fd a = 0 then Some (ws_emit (Ws_sleep (word_of_int timeout_ms)) s)
            else
              (let (retv, fds, s) = ws_sys_select w (ws_r a) (ws_w a) (ws_e a) (Some (timeout_ms * 1000)) s
               in if retv = 0 then Some s
                  else if retv = SOCKET_ERROR then Some s
                  else dispatch_socks_ws ops fds (ws_socks a) retv s)))"

subsection \<open>What \<open>select\<close> is asked for\<close>

text \<open>Filling a set one by one keeps the first 64 sockets.\<close>

lemma FD_SET_fill:
  assumes "distinct (fds @ ks)" "length fds \<le> FD_SETSIZE_ws"
  shows "fold FD_SET_ws ks fds = take FD_SETSIZE_ws (fds @ ks)"
  using assms
proof (induction ks arbitrary: fds)
  case (Cons k ks)
  show ?case
  proof (cases "length fds < FD_SETSIZE_ws")
    case True
    with Cons.prems Cons.IH [of "fds @ [k]"] show ?thesis by (simp add: FD_SET_ws_def)
  next
    case False
    with Cons.prems Cons.IH [of fds] show ?thesis by (simp add: FD_SET_ws_def)
  qed
qed simp

definition readers :: "'w sock_ops \<Rightarrow> (SOCKET, nat) ss_map \<Rightarrow> 'w \<Rightarrow> SOCKET list" where
  "readers ops m s = map fst (filter (\<lambda>(k, p). ops_readable ops p s) m)"

definition writers :: "'w sock_ops \<Rightarrow> (SOCKET, nat) ss_map \<Rightarrow> 'w \<Rightarrow> SOCKET list" where
  "writers ops m s = map fst (filter (\<lambda>(k, p). ops_writable ops p s \<and> \<not> ops_accepting ops p s) m)"

definition watched :: "'w sock_ops \<Rightarrow> (SOCKET, nat) ss_map \<Rightarrow> 'w \<Rightarrow> SOCKET list" where
  "watched ops m s = map fst (filter (\<lambda>(k, p). ops_readable ops p s \<or> ops_writable ops p s) m)"

lemma want_ws_fields:
  "ws_r (want_ws k isr isw acc a) = (if isr then FD_SET_ws k (ws_r a) else ws_r a)"
  "ws_w (want_ws k isr isw acc a) = (if isw \<and> \<not> acc then FD_SET_ws k (ws_w a) else ws_w a)"
  "ws_e (want_ws k isr isw acc a) = (if isr \<or> isw then FD_SET_ws k (ws_e a) else ws_e a)"
  "ws_socks (want_ws k isr isw acc a) = ws_socks a @ (if isr \<or> isw then [k] else [])"
  by (simp_all add: want_ws_def raise_max_ws_def Let_def)

lemma select_args_ws_fields:
  "ws_r (select_args_ws ops m s a) = fold FD_SET_ws (readers ops m s) (ws_r a)"
  "ws_w (select_args_ws ops m s a) = fold FD_SET_ws (writers ops m s) (ws_w a)"
  "ws_e (select_args_ws ops m s a) = fold FD_SET_ws (watched ops m s) (ws_e a)"
  "ws_socks (select_args_ws ops m s a) = ws_socks a @ watched ops m s"
  by (induction ops m s a rule: select_args_ws.induct)
    (auto simp: want_ws_fields readers_def writers_def watched_def)

lemma select_args_ws_sets:
  assumes "map_wf m"
  shows "ws_r (select_args_ws ops m s empty_sel_ws) = take FD_SETSIZE_ws (readers ops m s)"
    "ws_w (select_args_ws ops m s empty_sel_ws) = take FD_SETSIZE_ws (writers ops m s)"
    "ws_e (select_args_ws ops m s empty_sel_ws) = take FD_SETSIZE_ws (watched ops m s)"
  using map_wf_distinct [OF assms]
  by (simp_all add: select_args_ws_fields FD_SET_fill empty_sel_ws_def readers_def writers_def watched_def
      distinct_map_filter)

text \<open>
  With at most 64 handlers nobody is left out: \<open>select\<close> is asked for every socket whose handler
  wants to read, to write, or either.
\<close>

lemma few_handlers_all_watched:
  assumes "map_wf (ops_map ops s)" "map_size (ops_map ops s) \<le> FD_SETSIZE_ws"
  defines "a \<equiv> select_args_ws ops (ops_map ops s) s empty_sel_ws"
  shows "ws_r a = readers ops (ops_map ops s) s" "ws_w a = writers ops (ops_map ops s) s"
    "ws_e a = watched ops (ops_map ops s) s"
proof -
  have le: "length (filter P (ops_map ops s)) \<le> FD_SETSIZE_ws" for P
    using length_filter_le [of P "ops_map ops s"] assms(2) unfolding map_size_def by (rule order.trans)
  show "ws_r a = readers ops (ops_map ops s) s" "ws_w a = writers ops (ops_map ops s) s"
    "ws_e a = watched ops (ops_map ops s) s"
    using le by (simp_all add: a_def select_args_ws_sets [OF assms(1)] readers_def writers_def watched_def)
qed

subsection \<open>The sockets beyond the set\<close>

text \<open>A socket with 64 others before it is not among the first 64.\<close>

lemma not_in_take:
  assumes "map_wf m" "n \<le> length (filter (\<lambda>(j, q). j < k \<and> P q) m)"
  shows "k \<notin> set (take n (map fst (filter (\<lambda>(j, q). P q) m)))"
  using assms
proof (induction m arbitrary: n)
  case (Cons x m)
  obtain j q where x: "x = (j, q)" by fastforce
  show ?case
  proof (cases "j < k")
    case True
    then show ?thesis using Cons.IH [of "n - 1"] Cons.IH [of n] Cons.prems x
      by (cases n) (auto split: if_splits)
  next
    case False
    then have "\<not> a < k" if "(a, b) \<in> set m" for a b using Cons.prems(1) x that by force
    then have "filter (\<lambda>(j, q). j < k \<and> P q) (x # m) = []" using False x by (auto simp: filter_empty_conv)
    then show ?thesis using Cons.prems(2) by simp
  qed
qed simp

text \<open>
  The handlers of \<open>ops\<close>, except that an object registered under \<open>k\<close> and no other socket handles its
  events by \<open>f\<close>.
\<close>

definition instead ::
  "'w sock_ops \<Rightarrow> SOCKET \<Rightarrow> (nat \<Rightarrow> 'w \<Rightarrow> 'w option) \<Rightarrow> (nat \<Rightarrow> 'w \<Rightarrow> 'w option) \<Rightarrow> nat \<Rightarrow> 'w \<Rightarrow> 'w option"
where
  "instead ops k f g p s = (if \<forall>(j, q) \<in> set (ops_map ops s). q = p \<longrightarrow> j = k then f p s else g p s)"

lemma poll_instead:
  assumes "k \<notin> set fds"
  shows "poll_one_ws ops ready (instead ops k f g) j fds retv s = poll_one_ws ops ready g j fds retv s"
proof (cases "map_find j (ops_map ops s)")
  case (Some p)
  then have "(j, p) \<in> set (ops_map ops s)" by (rule map_find_mem)
  then have "instead ops k f g p s = g p s" if "j \<in> set fds" using that assms by (auto simp: instead_def)
  then show ?thesis using Some by (simp add: poll_one_ws_def FD_ISSET_ws_def)
qed (simp add: poll_one_ws_def)

definition starve :: "SOCKET \<Rightarrow> (nat \<Rightarrow> 'w \<Rightarrow> 'w option) \<Rightarrow> 'w sock_ops \<Rightarrow> 'w sock_ops" where
  "starve k f ops =
     ops\<lparr>ops_read_event := instead ops k f (ops_read_event ops), ops_expt_event := instead ops k f (ops_expt_event ops)\<rparr>"

lemma starve_fields [simp]:
  "ops_map (starve k f ops) = ops_map ops" "ops_readable (starve k f ops) = ops_readable ops"
  "ops_writable (starve k f ops) = ops_writable ops" "ops_accepting (starve k f ops) = ops_accepting ops"
  "ops_read_event (starve k f ops) = instead ops k f (ops_read_event ops)"
  "ops_write_event (starve k f ops) = ops_write_event ops"
  "ops_expt_event (starve k f ops) = instead ops k f (ops_expt_event ops)"
  by (simp_all add: starve_def)

lemma starve_selects: "select_args_ws (starve k f ops) m s a = select_args_ws ops m s a"
  by (induction ops m s a rule: select_args_ws.induct) simp_all

lemma starve_polls: "poll_one_ws (starve k f ops) = poll_one_ws ops"
  by (simp add: fun_eq_iff poll_one_ws_def)

lemma starve_dispatches:
  assumes "k \<notin> set r" "k \<notin> set e"
  shows "dispatch_socks_ws (starve k f ops) (r, w, e) ks retv s = dispatch_socks_ws ops (r, w, e) ks retv s"
proof (induction ks arbitrary: retv s)
  case (Cons j ks)
  then show ?case by (simp add: starve_polls poll_instead assms split: option.split bool.split)
qed simp

text \<open>
  C31. On Windows the 65th readable socket is not served. A set holds 64 sockets, and \<open>FD_SET\<close> drops
  what does not fit: when 64 readable handlers stand before \<open>k\<close> in the map, a round of \<open>do_select\<close> is
  the same whatever the handler of \<open>k\<close> would do with a read or an exception event, so that no such
  event is dispatched to it, for as long as the others stay connected.
\<close>

theorem windows_starves_sockets:
  assumes "map_wf (ops_map ops s)"
    and "FD_SETSIZE_ws \<le> length (filter (\<lambda>(j, q). j < k \<and> ops_readable ops q s) (ops_map ops s))"
  shows "do_select_ws w (starve k f ops) t s = do_select_ws w ops t s"
proof -
  let ?m = "ops_map ops s"
  let ?a = "select_args_ws ops ?m s empty_sel_ws"
  have "length (filter (\<lambda>(j, q). j < k \<and> ops_readable ops q s) ?m)
      \<le> length (filter (\<lambda>(j, q). j < k \<and> (ops_readable ops q s \<or> ops_writable ops q s)) ?m)"
    by (rule filter_length_mono) auto
  then have out: "k \<notin> set (ws_r ?a)" "k \<notin> set (ws_e ?a)"
    using not_in_take [OF assms(1), of FD_SETSIZE_ws k "\<lambda>q. ops_readable ops q s"]
      not_in_take [OF assms(1), of FD_SETSIZE_ws k "\<lambda>q. ops_readable ops q s \<or> ops_writable ops q s"] assms(2)
    by (simp_all add: select_args_ws_sets [OF assms(1)] readers_def watched_def)
  obtain n r wr e s' where sel: "ws_sys_select w (ws_r ?a) (ws_w ?a) (ws_e ?a) (Some (t * 1000)) s = (n, (r, wr, e), s')"
    by (metis prod_cases3)
  then have "k \<notin> set r" "k \<notin> set e"
    using out by (auto simp: ws_sys_select_def Let_def split: sum.splits)
  then show ?thesis by (simp add: do_select_ws_def Let_def starve_selects sel starve_dispatches)
qed

definition crowd_ops :: "win sock_ops" where
  "crowd_ops =
     \<lparr>ops_map = (\<lambda>s. map (\<lambda>i. (word_of_nat (Suc i), i)) [0..<65]), ops_readable = (\<lambda>p s. True),
      ops_writable = (\<lambda>p s. False), ops_accepting = (\<lambda>p s. False),
      ops_read_event = (\<lambda>p s. Some (ws_print ''read'' s)), ops_write_event = (\<lambda>p s. Some s), ops_expt_event = (\<lambda>p s. Some s)\<rparr>"

theorem windows_starves_sockets_witness:
  "do_select_ws (strict_winsock\<lparr>ws_select := \<lambda>h r w e t. Inr (r, w, [])\<rparr>) (starve 65 (\<lambda>p s. None) crowd_ops) 1000 start_win =
    do_select_ws (strict_winsock\<lparr>ws_select := \<lambda>h r w e t. Inr (r, w, [])\<rparr>) crowd_ops 1000 start_win"
proof (rule windows_starves_sockets)
  show "map_wf (ops_map crowd_ops start_win)" by code_simp
  show "FD_SETSIZE_ws \<le> length (filter (\<lambda>(j, q). j < 65 \<and> ops_readable crowd_ops q start_win) (ops_map crowd_ops start_win))"
    by code_simp
qed

end
