(* ===== verification/First_Main.thy ===== *)
theory First_Main
  imports Winsock_Select
begin

text \<open>
  The first version of the server, which \<^bold>\<open>src/main.cpp\<close> keeps under \<^verbatim>\<open>#if 0\<close>: one function with the
  listening socket, the sets and the dispatch. It is modelled in its Windows build; in the Linux
  branches it asks the entries of the map for a member \<open>sock\<close> that pairs do not have. Its class
  \<open>SocketHandler\<close> is not the present one and no longer in the repository: it is a parameter, the
  record \<open>handler_class\<close> of what \<open>main\<close> calls.

  The lemmas show that \<open>create_server\<close> leaves no socket behind when it fails, and that the count of
  ready sockets, which ends the dispatch, never leaves out a socket that is ready.
\<close>

subsection \<open>The program\<close>

definition create_server :: "winsock \<Rightarrow> string option \<Rightarrow> u16 \<Rightarrow> win \<Rightarrow> SOCKET \<times> win" where
  "create_server w local_host local_port s =
     (let (sock, s) = cp_socket_tcp_ws w AF_INET SOCK_STREAM IPPROTO_TCP s in
      if sock = INVALID_SOCKET_ws then (- 1, ws_print ''socket error !'' s)
      else
        (let (ret, s) = cp_bind_ws w sock AF_INET local_host local_port s in
         if ret = SOCKET_ERROR then
           (- 1, cp_close_socket_ws sock
              (ws_print (''bind '' @ (case local_host of None \<Rightarrow> ''NULL'' | Some h \<Rightarrow> h) @ '':'' @
                 dec_digits (unat local_port) @ '' error'' @ [char_of (10 :: nat)]) s))
         else
           (let (ret, s) = cp_listen_ws w sock 64 s in
            if ret = SOCKET_ERROR then
              (- 1, cp_close_socket_ws sock (ws_print (''listen error'' @ [char_of (10 :: nat)]) s))
            else (sock, s))))"

text \<open>
  The class of the handlers. Its objects are values of the map; the constructor, the destructor
  and the two event methods may make calls, and an event method may not return (\<open>None\<close>).
\<close>

record 'h handler_class =
  hc_ctor :: "SOCKET \<Rightarrow> sockaddr_in \<Rightarrow> win \<Rightarrow> 'h \<times> win"
  hc_dtor :: "'h \<Rightarrow> win \<Rightarrow> win"
  hc_readable :: "'h \<Rightarrow> bool"
  hc_writable :: "'h \<Rightarrow> bool"
  hc_is_close :: "'h \<Rightarrow> bool"
  hc_socket :: "'h \<Rightarrow> SOCKET"
  hc_handle_read :: "'h \<Rightarrow> win \<Rightarrow> ('h \<times> win) option"
  hc_handle_write :: "'h \<Rightarrow> win \<Rightarrow> ('h \<times> win) option"

fun fm_sets ::
  "'h handler_class \<Rightarrow> (SOCKET, 'h) ss_map \<Rightarrow> SOCKET list \<times> SOCKET list \<Rightarrow> SOCKET list \<times> SOCKET list"
where
  "fm_sets c [] x = x"
| "fm_sets c ((k, h) # m) (r, wr) =
     fm_sets c m
       (if hc_readable c h then FD_SET_ws k r else r, if hc_writable c h then FD_SET_ws k wr else wr)"

text \<open>\<open>handlers[s] = cli\<close> replaces the entry of the key or makes one.\<close>

definition map_assign :: "'k::linorder \<Rightarrow> 'v \<Rightarrow> ('k, 'v) ss_map \<Rightarrow> ('k, 'v) ss_map" where
  "map_assign k v m = map_insert k v (map_erase k m)"

definition fm_accept ::
  "winsock \<Rightarrow> 'h handler_class \<Rightarrow> SOCKET \<Rightarrow> (SOCKET, 'h) ss_map \<Rightarrow> win \<Rightarrow> (SOCKET, 'h) ss_map \<times> win"
where
  "fm_accept w c sock m s =
     (let (k, cli_addr, s) = cp_accept_ws w sock (stack_sockaddr_ws w 0 0 s) s in
      if cp_socket_valid_ws k then
        (let (cli, s) = hc_ctor c k cli_addr s in (map_assign k cli m, hc_dtor c cli s))
      else (m, s))"

text \<open>How one of the two blocks of the dispatch ends: \<open>erase\<close> and \<open>continue\<close>, \<open>break\<close>, or by falling through.\<close>

datatype flow = Erased | Break | Through

definition fm_event ::
  "'h handler_class \<Rightarrow> SOCKET list \<Rightarrow> ('h \<Rightarrow> bool) \<Rightarrow> ('h \<Rightarrow> win \<Rightarrow> ('h \<times> win) option) \<Rightarrow> SOCKET \<Rightarrow> 'h \<Rightarrow> int \<Rightarrow>
    win \<Rightarrow> (flow \<times> 'h \<times> int \<times> win) option"
where
  "fm_event c fds ready handle k h retv s =
     (if FD_ISSET_ws k fds \<and> ready h then
        (case handle h s of
           None \<Rightarrow> None
         | Some (h, s) \<Rightarrow>
             if hc_is_close c h then Some (Erased, h, retv, hc_dtor c h (cp_close_socket_ws (hc_socket c h) s))
             else if retv - 1 = 0 then Some (Break, h, retv - 1, s)
             else Some (Through, h, retv - 1, s))
      else Some (Through, h, retv, s))"

fun fm_dispatch ::
  "'h handler_class \<Rightarrow> SOCKET list \<times> SOCKET list \<Rightarrow> (SOCKET, 'h) ss_map \<Rightarrow> int \<Rightarrow> win \<Rightarrow>
    ((SOCKET, 'h) ss_map \<times> win) option"
where
  "fm_dispatch c fds [] retv s = Some ([], s)"
| "fm_dispatch c (r, wr) ((k, h) # m) retv s =
     (case fm_event c r (hc_readable c) (hc_handle_read c) k h retv s of
        None \<Rightarrow> None
      | Some (Erased, h, retv, s) \<Rightarrow> fm_dispatch c (r, wr) m retv s
      | Some (Break, h, retv, s) \<Rightarrow> Some ((k, h) # m, s)
      | Some (Through, h, retv, s) \<Rightarrow>
          (case fm_event c wr (hc_writable c) (hc_handle_write c) k h retv s of
             None \<Rightarrow> None
           | Some (Erased, h, retv, s) \<Rightarrow> fm_dispatch c (r, wr) m retv s
           | Some (Break, h, retv, s) \<Rightarrow> Some ((k, h) # m, s)
           | Some (Through, h, retv, s) \<Rightarrow>
               map_option (apfst (Cons (k, h))) (fm_dispatch c (r, wr) m retv s)))"

text \<open>One turn of \<open>while (true)\<close>; the first component of the result is whether it leaves the loop.\<close>

definition fm_round ::
  "winsock \<Rightarrow> 'h handler_class \<Rightarrow> SOCKET \<Rightarrow> (SOCKET, 'h) ss_map \<Rightarrow> win \<Rightarrow> (bool \<times> (SOCKET, 'h) ss_map \<times> win) option"
where
  "fm_round w c sock m s =
     (let (r, wr) = fm_sets c m (FD_SET_ws sock [], []);
          (retv, (r, wr, _), s) = ws_sys_select w r wr [] None s
      in if retv = SOCKET_ERROR then Some (True, m, s)
         else if FD_ISSET_ws sock r then
           (let (m, s) = fm_accept w c sock m s;
                retv = retv - 1
            in if retv = 0 then Some (False, m, s) else map_option (Pair False) (fm_dispatch c (r, wr) m retv s))
         else map_option (Pair False) (fm_dispatch c (r, wr) m retv s))"

fun fm_loop ::
  "nat \<Rightarrow> winsock \<Rightarrow> 'h handler_class \<Rightarrow> SOCKET \<Rightarrow> (SOCKET, 'h) ss_map \<Rightarrow> win \<Rightarrow> ((SOCKET, 'h) ss_map \<times> win) option"
where
  "fm_loop 0 w c sock m s = None"
| "fm_loop (Suc fuel) w c sock m s =
     (case fm_round w c sock m s of
        None \<Rightarrow> None
      | Some (True, m, s) \<Rightarrow> Some (m, s)
      | Some (False, m, s) \<Rightarrow> fm_loop fuel w c sock m s)"

text \<open>\<open>atoi\<close>: a number outside \<open>int\<close> is undefined; \<open>port\<close> keeps its low 16 bits.\<close>

fun digits_value :: "int \<Rightarrow> string \<Rightarrow> int" where
  "digits_value v [] = v"
| "digits_value v (c # cs) =
     (if 48 \<le> (of_char c :: nat) \<and> (of_char c :: nat) \<le> 57 then digits_value (10 * v + int (of_char c - 48)) cs else v)"

definition atoi :: "string \<Rightarrow> int" where
  "atoi str =
     (case dropWhile (\<lambda>c. (of_char c :: nat) \<in> {9, 10, 11, 12, 13, 32}) str of
        [] \<Rightarrow> 0
      | c # cs \<Rightarrow>
          if c = CHR ''-'' then - digits_value 0 cs
          else if c = CHR ''+'' then digits_value 0 cs
          else digits_value 0 (c # cs))"

definition port_arg :: "string \<Rightarrow> win \<Rightarrow> u16 \<times> win" where
  "port_arg str s =
     (word_of_int (atoi str),
      if - (2 ^ 31) \<le> atoi str \<and> atoi str < 2 ^ 31 then s else ws_fault SignedOverflow s)"

definition fm_main :: "nat \<Rightarrow> winsock \<Rightarrow> 'h handler_class \<Rightarrow> string list \<Rightarrow> win \<Rightarrow> (int \<times> win) option" where
  "fm_main fuel w c argv s =
     (let (_, s) = cp_socket_init_ws w s;
          (port, s) = (if length argv = 2 then port_arg (argv ! 1) s else (8898, s));
          (sock, s) = create_server w None port s;
          main_end = (\<lambda>ret s. Some (ret, ws_print ''input a enter to quit..'' (cp_socket_uninit_ws s)))
      in if sock = - 1 then main_end (-1) s
         else case fm_loop fuel w c sock [] s of
                None \<Rightarrow> None
              | Some (m, s) \<Rightarrow> main_end 0 s)"

subsection \<open>The listening socket\<close>

text \<open>Whether \<open>cp_inet_pton\<close> can read the host in the Windows build.\<close>

definition host_ok_ws :: "winsock \<Rightarrow> string option \<Rightarrow> bool" where
  "host_ok_ws w host =
     (case host of
        None \<Rightarrow> True
      | Some h \<Rightarrow> h = ''0.0.0.0'' \<or> (ws_inet_addr w h \<noteq> INADDR_ANY \<and> ws_inet_addr w h \<noteq> INADDR_NONE))"

lemma cp_inet_pton_ws_host:
  "fst (cp_inet_pton_ws w af host a) = 1 \<longleftrightarrow> host_ok_ws w host"
  "fst (cp_inet_pton_ws w af host a) \<in> {1, 0, -1}"
  by (auto simp: cp_inet_pton_ws_def host_ok_ws_def Let_def INADDR_ANY_def INADDR_NONE_def split: option.split)

lemma cp_bind_ws_host:
  "cp_bind_ws w sock af host port s =
    (let sin = snd (cp_inet_pton_ws w af host (stack_sockaddr_ws w af (htons port) s)) in
     if host_ok_ws w host then
       (case ws_bind w (ws_trace s) sock sin of
          Inl e \<Rightarrow> (-1, ws_fail e (Ws_bind sock sin (-1)) s)
        | Inr _ \<Rightarrow> (0, ws_emit (Ws_bind sock sin 0) s))
     else (-2, s))"
  using cp_inet_pton_ws_host [of w af host "stack_sockaddr_ws w af (htons port) s"]
  by (auto simp: cp_bind_ws_def Let_def case_prod_beta)

text \<open>The calls on a socket after it was made.\<close>

definition bound_by :: "SOCKET \<Rightarrow> ws_event list \<Rightarrow> bool" where
  "bound_by k es = list_ex (\<lambda>ev. case ev of Ws_bind j a r \<Rightarrow> j = k \<and> r = 0 | _ \<Rightarrow> False) es"

lemma create_server_effect:
  assumes "\<And>k. ws_socket w (ws_trace s) AF_INET SOCK_STREAM IPPROTO_TCP = Inr k \<Longrightarrow> k \<notin> ws_open (ws_trace s)"
    and "create_server w host port s = (k, s')"
  shows "\<exists>es. ws_trace s' = ws_trace s @ es \<and> (\<forall>n. foldl ws_ref_step n es = n) \<and>
    (if k = INVALID_SOCKET_ws then ws_open (ws_trace s') = ws_open (ws_trace s)
     else ws_open (ws_trace s') = insert k (ws_open (ws_trace s)) \<and> last es = Ws_listen k 64 0
       \<and> (bound_by k es \<longleftrightarrow> host_ok_ws w host))"
proof (cases "ws_socket w (ws_trace s) AF_INET SOCK_STREAM IPPROTO_TCP")
  case (Inl e)
  then show ?thesis
    using assms(2)
    by (auto simp: create_server_def cp_socket_tcp_ws_def cp_socket_ws_def INVALID_SOCKET_ws_def ws_open_def)
next
  case (Inr j)
  then have new: "j \<notin> ws_open (ws_trace s)" by (rule assms(1))
  show ?thesis
    using assms(2) Inr new
    by (auto simp: create_server_def cp_socket_tcp_ws_def cp_socket_ws_def cp_bind_ws_host cp_listen_ws_def
        cp_close_socket_ws_def INVALID_SOCKET_ws_def SOCKET_ERROR_def ws_open_def bound_by_def Let_def
        split: sum.splits if_splits)
qed

text \<open>
  C33. \<open>create_server\<close> closes what it opened: when it fails, the sockets that are open are those that
  were open before. Otherwise there is one more, the one it returns, and its last call was a
  successful \<open>listen\<close> on it. The socket has been bound exactly when the host could be read: for a
  host that is no address \<open>cp_bind\<close> returns -2, which the test for \<open>SOCKET_ERROR\<close> does not see.
\<close>

theorem create_server_result:
  assumes "\<And>k. ws_socket w (ws_trace s) AF_INET SOCK_STREAM IPPROTO_TCP = Inr k \<Longrightarrow> k \<notin> ws_open (ws_trace s)"
    and "create_server w host port s = (k, s')"
  shows "\<exists>es. ws_trace s' = ws_trace s @ es \<and>
    (if k = INVALID_SOCKET_ws then ws_open (ws_trace s') = ws_open (ws_trace s)
     else ws_open (ws_trace s') = insert k (ws_open (ws_trace s)) \<and> last es = Ws_listen k 64 0
       \<and> (bound_by k es \<longleftrightarrow> host_ok_ws w host))"
  using create_server_effect [OF assms] by auto

definition hostless :: winsock where
  "hostless = strict_winsock\<lparr>ws_inet_addr := \<lambda>a. INADDR_NONE\<rparr>"

theorem create_server_result_witness:
  "\<exists>s' es. create_server hostless (Some ''localhost'') 8898 (snd (cp_socket_init_ws hostless start_win)) = (64, s')
    \<and> ws_trace s' = [Ws_startup 0x0202 0] @ es \<and> last es = Ws_listen 64 64 0 \<and> \<not> bound_by 64 es"
proof -
  let ?s = "snd (cp_socket_init_ws hostless start_win)"
  have tr: "ws_trace ?s = [Ws_startup 0x0202 0]"
    by (simp add: cp_socket_init_ws_def hostless_def strict_winsock_def start_win_def)
  have host: "\<not> host_ok_ws hostless (Some ''localhost'')" by (simp add: host_ok_ws_def hostless_def)
  have calls: "ws_socket hostless [Ws_startup 0x0202 0] af ty pr = Inr 64"
    "ws_listen hostless [Ws_startup 0x0202 0, Ws_socket af ty pr 64] 64 64 = Inr ()" for af ty pr
    by (simp_all add: hostless_def strict_winsock_def ws_started_def)
  obtain s' where run: "create_server hostless (Some ''localhost'') 8898 ?s = (64, s')"
    by (simp add: tr host calls create_server_def cp_socket_tcp_ws_def cp_socket_ws_def cp_bind_ws_host cp_listen_ws_def
        SOCKET_ERROR_def INVALID_SOCKET_ws_def)
  have "k \<notin> ws_open (ws_trace ?s)" for k by (simp add: tr ws_open_def)
  from create_server_result [OF this run] show ?thesis
    using run host by (auto simp: tr INVALID_SOCKET_ws_def)
qed

subsection \<open>The count of ready sockets\<close>

text \<open>The reference: every ready handler is served, nothing is counted.\<close>

definition fm_serve ::
  "'h handler_class \<Rightarrow> SOCKET list \<Rightarrow> ('h \<Rightarrow> bool) \<Rightarrow> ('h \<Rightarrow> win \<Rightarrow> ('h \<times> win) option) \<Rightarrow> SOCKET \<Rightarrow> 'h \<Rightarrow> win \<Rightarrow>
    (bool \<times> 'h \<times> win) option"
where
  "fm_serve c fds ready handle k h s =
     (if FD_ISSET_ws k fds \<and> ready h then
        (case handle h s of
           None \<Rightarrow> None
         | Some (h, s) \<Rightarrow>
             if hc_is_close c h then Some (True, h, hc_dtor c h (cp_close_socket_ws (hc_socket c h) s))
             else Some (False, h, s))
      else Some (False, h, s))"

fun fm_dispatch_all ::
  "'h handler_class \<Rightarrow> SOCKET list \<times> SOCKET list \<Rightarrow> (SOCKET, 'h) ss_map \<Rightarrow> win \<Rightarrow> ((SOCKET, 'h) ss_map \<times> win) option"
where
  "fm_dispatch_all c fds [] s = Some ([], s)"
| "fm_dispatch_all c (r, wr) ((k, h) # m) s =
     (case fm_serve c r (hc_readable c) (hc_handle_read c) k h s of
        None \<Rightarrow> None
      | Some (True, h, s) \<Rightarrow> fm_dispatch_all c (r, wr) m s
      | Some (False, h, s) \<Rightarrow>
          (case fm_serve c wr (hc_writable c) (hc_handle_write c) k h s of
             None \<Rightarrow> None
           | Some (True, h, s) \<Rightarrow> fm_dispatch_all c (r, wr) m s
           | Some (False, h, s) \<Rightarrow> map_option (apfst (Cons (k, h))) (fm_dispatch_all c (r, wr) m s)))"

definition fm_round_all ::
  "winsock \<Rightarrow> 'h handler_class \<Rightarrow> SOCKET \<Rightarrow> (SOCKET, 'h) ss_map \<Rightarrow> win \<Rightarrow> (bool \<times> (SOCKET, 'h) ss_map \<times> win) option"
where
  "fm_round_all w c sock m s =
     (let (r, wr) = fm_sets c m (FD_SET_ws sock [], []);
          (retv, (r, wr, _), s) = ws_sys_select w r wr [] None s
      in if retv = SOCKET_ERROR then Some (True, m, s)
         else
           (let (m, s) = (if FD_ISSET_ws sock r then fm_accept w c sock m s else (m, s))
            in map_option (Pair False) (fm_dispatch_all c (r, wr) m s)))"

fun fm_loop_all ::
  "nat \<Rightarrow> winsock \<Rightarrow> 'h handler_class \<Rightarrow> SOCKET \<Rightarrow> (SOCKET, 'h) ss_map \<Rightarrow> win \<Rightarrow> ((SOCKET, 'h) ss_map \<times> win) option"
where
  "fm_loop_all 0 w c sock m s = None"
| "fm_loop_all (Suc fuel) w c sock m s =
     (case fm_round_all w c sock m s of
        None \<Rightarrow> None
      | Some (True, m, s) \<Rightarrow> Some (m, s)
      | Some (False, m, s) \<Rightarrow> fm_loop_all fuel w c sock m s)"

definition fm_bits :: "SOCKET list \<Rightarrow> (SOCKET, 'h) ss_map \<Rightarrow> int" where
  "fm_bits fds m = int (length (filter (\<lambda>(k, h). k \<in> set fds) m))"

lemma fm_bits_simps [simp]:
  "fm_bits fds [] = 0" "fm_bits fds ((k, h) # m) = (if k \<in> set fds then 1 else 0) + fm_bits fds m"
  by (simp_all add: fm_bits_def)

lemma fm_bits_nonneg: "0 \<le> fm_bits fds m"
  by (simp add: fm_bits_def)

lemma fm_dispatch_idle:
  assumes "fm_bits r m \<le> 0" "fm_bits wr m \<le> 0"
  shows "fm_dispatch_all c (r, wr) m s = Some (m, s)"
  using assms
proof (induction m arbitrary: s)
  case (Cons x m)
  obtain k h where x: "x = (k, h)" by fastforce
  have "k \<notin> set r" "k \<notin> set wr" "fm_bits r m \<le> 0" "fm_bits wr m \<le> 0"
    using Cons.prems fm_bits_nonneg [of r m] fm_bits_nonneg [of wr m] by (simp_all add: x split: if_splits)
  with Cons.IH show ?case by (simp add: x fm_serve_def FD_ISSET_ws_def)
qed simp

text \<open>One block with the count and without: they agree, or the count is used up by the last ready socket.\<close>

lemma fm_event_serve:
  assumes "(if k \<in> set fds then 1 else 0) + rest \<le> retv"
  obtains "fm_serve c fds ready handle k h s = None" "fm_event c fds ready handle k h retv s = None"
  | h' s' where "fm_serve c fds ready handle k h s = Some (True, h', s')"
      "fm_event c fds ready handle k h retv s = Some (Erased, h', retv, s')" "rest \<le> retv"
  | h' n s' where "fm_serve c fds ready handle k h s = Some (False, h', s')"
      "fm_event c fds ready handle k h retv s = Some (Through, h', n, s')" "rest \<le> n"
  | h' s' where "fm_serve c fds ready handle k h s = Some (False, h', s')"
      "fm_event c fds ready handle k h retv s = Some (Break, h', 0, s')" "rest \<le> 0"
proof (cases "k \<in> set fds \<and> ready h")
  case True
  show ?thesis
  proof (cases "handle h s")
    case None
    with True show ?thesis by (intro that(1)) (simp_all add: fm_serve_def fm_event_def FD_ISSET_ws_def)
  next
    case (Some x)
    obtain h' s' where "x = (h', s')" by fastforce
    with True Some assms that(2-4) show ?thesis
      by (cases "hc_is_close c h'"; cases "retv - 1 = 0") (simp_all add: fm_serve_def fm_event_def FD_ISSET_ws_def)
  qed
next
  case False
  with assms show ?thesis
    by (intro that(3)) (auto simp: fm_serve_def fm_event_def FD_ISSET_ws_def split: if_splits)
qed

text \<open>The same for a block with what follows it.\<close>

lemma fm_event_then:
  assumes "(if k \<in> set fds then 1 else 0) + rest \<le> retv"
    and "\<And>n s. rest \<le> n \<Longrightarrow> A n s = A' s" "\<And>h n s. rest \<le> n \<Longrightarrow> C h n s = C' h s"
    and "\<And>h s. rest \<le> 0 \<Longrightarrow> B h s = C' h s"
  shows "(case fm_event c fds ready handle k h retv s of
      None \<Rightarrow> None
    | Some (Erased, h, n, s) \<Rightarrow> A n s
    | Some (Break, h, n, s) \<Rightarrow> B h s
    | Some (Through, h, n, s) \<Rightarrow> C h n s) =
    (case fm_serve c fds ready handle k h s of
      None \<Rightarrow> None
    | Some (True, h, s) \<Rightarrow> A' s
    | Some (False, h, s) \<Rightarrow> C' h s)"
  by (rule fm_event_serve [OF assms(1), of c ready handle h s]) (simp_all add: assms(2-4))

lemma fm_dispatch_count:
  assumes "fm_bits r m + fm_bits wr m \<le> retv"
  shows "fm_dispatch c (r, wr) m retv s = fm_dispatch_all c (r, wr) m s"
  using assms
proof (induction m arbitrary: retv s)
  case (Cons x m)
  obtain k h where x: "x = (k, h)" by fastforce
  let ?b = "fm_bits r m + fm_bits wr m" and ?w = "if k \<in> set wr then 1 else (0 :: int)"
  have le: "fm_bits r m \<le> 0" "fm_bits wr m \<le> 0" if "?b \<le> 0"
    using that fm_bits_nonneg [of r m] fm_bits_nonneg [of wr m] by linarith+
  have idle: "fm_serve c wr (hc_writable c) (hc_handle_write c) k h s = Some (False, h, s)" "?b \<le> 0"
    if "?w + ?b \<le> 0" for h s
    using that fm_bits_nonneg [of r m] fm_bits_nonneg [of wr m]
    by (auto simp: fm_serve_def FD_ISSET_ws_def split: if_splits)
  show ?case
    unfolding x fm_dispatch.simps fm_dispatch_all.simps
    using Cons.prems
    by (intro fm_event_then [where rest = "?w + ?b"] fm_event_then [where rest = ?b])
      (simp_all add: x Cons.IH idle(1) fm_dispatch_idle le idle(2) split: if_splits)
qed simp

subsection \<open>The program without the count\<close>

lemma fm_dispatch_keys:
  assumes "fm_dispatch_all c (r, wr) m s = Some (m', s')"
  shows "fst ` set m' \<subseteq> fst ` set m" "map_wf m \<Longrightarrow> map_wf m'"
proof -
  have "fst ` set m' \<subseteq> fst ` set m \<and> (map_wf m \<longrightarrow> map_wf m')"
    using assms
  proof (induction m arbitrary: m' s)
    case (Cons x m)
    obtain k h where x: "x = (k, h)" by fastforce
    from Cons.prems consider t where "fm_dispatch_all c (r, wr) m t = Some (m', s')"
      | h' t n where "fm_dispatch_all c (r, wr) m t = Some (n, s')" "m' = (k, h') # n"
      by (auto simp: x split: option.splits bool.splits)
    then show ?case
    proof cases
      case 1
      with Cons.IH [OF 1] show ?thesis by (auto simp: x)
    next
      case 2
      have "\<forall>y \<in> set n. k < fst y" if "\<forall>y \<in> set m. k < fst y" using Cons.IH [OF 2(1)] that by fastforce
      with Cons.IH [OF 2(1)] 2(2) show ?thesis by (auto simp: x)
    qed
  qed simp
  then show "fst ` set m' \<subseteq> fst ` set m" "map_wf m \<Longrightarrow> map_wf m'" by simp_all
qed

text \<open>What Winsock documents of \<open>accept\<close>: the new socket is not the listening one.\<close>

definition accepts_others :: "winsock \<Rightarrow> bool" where
  "accepts_others w = (\<forall>h sock k a. ws_accept w h sock = Inr (k, a) \<longrightarrow> k \<noteq> sock)"

definition fm_invar :: "SOCKET \<Rightarrow> (SOCKET, 'h) ss_map \<Rightarrow> bool" where
  "fm_invar sock m = (map_wf m \<and> sock \<notin> fst ` set m)"

lemma fm_invar_assign: "fm_invar sock m \<Longrightarrow> k \<noteq> sock \<Longrightarrow> fm_invar sock (map_assign k v m)"
  using set_map_insert [of k v "map_erase k m"] set_map_erase [of k m]
  by (auto simp: fm_invar_def map_assign_def map_wf_insert map_wf_erase) (metis fst_conv image_eqI insertE subsetD)

lemma fm_invar_accept:
  assumes "accepts_others w" "fm_invar sock m"
  shows "fm_invar sock (fst (fm_accept w c sock m s))"
  using assms
  by (auto simp: fm_accept_def cp_accept_ws_def accepts_others_def cp_socket_valid_ws_def case_prod_beta Let_def
      split: sum.split intro!: fm_invar_assign)

lemma fm_invar_dispatch:
  assumes "fm_dispatch_all c fds m s = Some (m', s')" "fm_invar sock m"
  shows "fm_invar sock m'"
  using assms fm_dispatch_keys [of c "fst fds" "snd fds" m s m' s'] by (auto simp: fm_invar_def)

lemma fm_bits_card: "map_wf m \<Longrightarrow> fm_bits fds m = int (card (set fds \<inter> fst ` set m))"
proof (induction m)
  case (Cons x m)
  have "fst x \<notin> fst ` set m" using map_wf_distinct [OF Cons.prems] by simp
  with Cons show ?case by (cases x) (auto simp: card_insert_if)
qed simp

lemma fm_bits_bound:
  assumes "fm_invar sock m"
  shows "fm_bits fds m + (if sock \<in> set fds then 1 else 0) \<le> int (length fds)"
proof -
  have "fm_bits fds m = int (card (set fds \<inter> fst ` set m))" using assms by (simp add: fm_invar_def fm_bits_card)
  moreover have "card (set fds \<inter> fst ` set m) \<le> card (set fds - {sock})"
    using assms by (intro card_mono) (auto simp: fm_invar_def)
  moreover have "card (set fds - {sock}) + (if sock \<in> set fds then 1 else 0) = card (set fds)"
    using card_Suc_Diff1 [of "set fds" sock] by simp
  ultimately show ?thesis using card_length [of fds] by (simp split: if_splits)
qed

lemma fm_round_eq:
  assumes "accepts_others w" "fm_invar sock m"
  shows "fm_round w c sock m s = fm_round_all w c sock m s"
proof -
  obtain r0 w0 where sets: "fm_sets c m (FD_SET_ws sock [], []) = (r0, w0)" by fastforce
  obtain n r wr e s1 where sel: "ws_sys_select w r0 w0 [] None s = (n, (r, wr, e), s1)" by (metis prod_cases3)
  have n: "n = SOCKET_ERROR \<or> n = int (length r) + int (length wr)"
    using sel by (auto simp: ws_sys_select_def SOCKET_ERROR_def Let_def split: sum.splits)
  obtain m2 s2 where acc: "fm_accept w c sock m s1 = (m2, s2)" by fastforce
  have inv: "fm_invar sock m2" using fm_invar_accept [OF assms, of c s1] acc by simp
  have b: "fm_bits r m + fm_bits wr m \<le> int (length r) + int (length wr)"
    "sock \<in> set r \<Longrightarrow> fm_bits r m2 + fm_bits wr m2 \<le> int (length r) + int (length wr) - 1"
    using fm_bits_bound [OF assms(2), of r] fm_bits_bound [OF assms(2), of wr] fm_bits_bound [OF inv, of r]
      fm_bits_bound [OF inv, of wr] by (auto split: if_splits)
  have idle: "fm_dispatch_all c (r, wr) m2 s2 = Some (m2, s2)" if "fm_bits r m2 + fm_bits wr m2 \<le> 0"
    using that fm_bits_nonneg [of r m2] fm_bits_nonneg [of wr m2] by (intro fm_dispatch_idle) linarith+
  show ?thesis
    using n b idle by (auto simp: fm_round_def fm_round_all_def sets sel acc FD_ISSET_ws_def fm_dispatch_count)
qed

lemma fm_round_invar:
  assumes "accepts_others w" "fm_invar sock m" "fm_round_all w c sock m s = Some (b, m', s')"
  shows "fm_invar sock m'"
  using assms(2,3) fm_invar_accept [OF assms(1,2)]
  by (auto simp: fm_round_all_def Let_def case_prod_beta split: if_splits dest: fm_invar_dispatch)

text \<open>
  C34. The count of ready sockets is an optimisation: the first version of \<open>main\<close> leaves its dispatch
  loop when it has served as many events as \<open>select\<close> reported, and it does so only when no other
  handler is ready. For every class of handlers it computes what the loop computes that looks at
  every handler, connections accepted and closed on the way included.
\<close>

theorem first_main_serves_ready:
  assumes "accepts_others w"
  shows "fm_loop fuel w c sock [] s = fm_loop_all fuel w c sock [] s"
proof -
  have "fm_loop fuel w c sock m s = fm_loop_all fuel w c sock m s" if "fm_invar sock m" for m
    using that
  proof (induction fuel arbitrary: m s)
    case (Suc fuel)
    then show ?case
      using fm_round_invar [OF assms Suc.prems] by (auto simp: fm_round_eq [OF assms Suc.prems] split: option.split bool.split)
  qed simp
  then show ?thesis by (simp add: fm_invar_def)
qed

definition mute_handlers :: "SOCKET handler_class" where
  "mute_handlers =
     \<lparr>hc_ctor = (\<lambda>k a s. (k, s)), hc_dtor = (\<lambda>h s. s), hc_readable = (\<lambda>h. True), hc_writable = (\<lambda>h. False),
      hc_is_close = (\<lambda>h. h = 70), hc_socket = (\<lambda>h. h), hc_handle_read = (\<lambda>h s. Some (h, s)),
      hc_handle_write = (\<lambda>h s. Some (h, s))\<rparr>"

theorem first_main_serves_ready_witness:
  "fm_loop 3 (strict_winsock\<lparr>ws_accept := \<lambda>h k. Inr (k + 1, \<lparr>sin_family = 2, sin_port = 0, s_addr = 0\<rparr>)\<rparr>)
     mute_handlers 64 [] start_win =
   fm_loop_all 3 (strict_winsock\<lparr>ws_accept := \<lambda>h k. Inr (k + 1, \<lparr>sin_family = 2, sin_port = 0, s_addr = 0\<rparr>)\<rparr>)
     mute_handlers 64 [] start_win"
  by (rule first_main_serves_ready) (simp add: accepts_others_def)

subsection \<open>The port on the command line\<close>

lemma digits_value_foldl:
  assumes "\<forall>c \<in> set cs. 48 \<le> (of_char c :: nat) \<and> of_char c < (58 :: nat)"
  shows "digits_value (int v) cs = int (foldl (\<lambda>a c. 10 * a + (of_char c - 48)) v cs)"
  using assms
proof (induction cs arbitrary: v)
  case (Cons c cs)
  then have "48 \<le> (of_char c :: nat)" "(of_char c :: nat) \<le> 57" by auto
  with Cons.IH [of "10 * v + (of_char c - 48)"] Cons.prems show ?case by (simp add: algebra_simps)
qed simp

lemma atoi_digits: "atoi (dec_digits n) = int n"
proof -
  obtain c cs where d: "dec_digits n = c # cs" by (cases "dec_digits n") (simp_all add: dec_digits.simps [of n] split: if_splits)
  have r: "\<forall>x \<in> set (dec_digits n). 48 \<le> (of_char x :: nat) \<and> of_char x < (58 :: nat)"
    using dec_digits_lower dec_digits_range by blast
  then have "(of_char c :: nat) \<notin> {9, 10, 11, 12, 13, 32}" "c \<noteq> CHR ''-''" "c \<noteq> CHR ''+''" by (auto simp: d)
  then have "atoi (dec_digits n) = digits_value (int 0) (dec_digits n)" by (simp add: atoi_def d)
  also have "\<dots> = int n" using digits_value_foldl [OF r, of 0] by (simp add: read_dec_digits)
  finally show ?thesis .
qed

text \<open>
  A port written in decimal is read as it was written, and a number that is no port silently
  becomes another one: 70000 is port 4464.
\<close>

lemma port_arg_roundtrip: "port_arg (dec_digits (unat p)) s = (p, s)"
proof -
  have "uint p < 2 ^ LENGTH(16)" by (rule unsigned_less)
  moreover have "- 2147483648 \<le> uint p" using uint_ge_0 [of p] by linarith
  ultimately show ?thesis by (simp add: port_arg_def atoi_digits)
qed

lemma port_arg_wraps: "port_arg (dec_digits 70000) s = (4464, s)"
  by (simp add: port_arg_def atoi_digits)

subsection \<open>Giving up\<close>

text \<open>
  When there is no server \<open>main\<close> returns -1; no socket is left open and Winsock has been released.
\<close>

lemma first_main_gives_up:
  assumes "ws_startup w [] 0x0202 = 0"
    and "fst (create_server w None 8898 (snd (cp_socket_init_ws w start_win))) = INVALID_SOCKET_ws"
  shows "\<exists>s'. fm_main fuel w c [prog] start_win = Some (-1, s') \<and> ws_open (ws_trace s') = {} \<and> \<not> ws_started (ws_trace s')"
proof -
  define s1 where "s1 = snd (cp_socket_init_ws w start_win)"
  have tr: "ws_trace s1 = [Ws_startup 0x0202 0]" using assms(1) by (simp add: s1_def cp_socket_init_ws_def start_win_def)
  obtain s2 where run: "create_server w None 8898 s1 = (INVALID_SOCKET_ws, s2)"
    using assms(2) by (metis s1_def prod.collapse)
  have "k \<notin> ws_open (ws_trace s1)" for k by (simp add: tr ws_open_def)
  from create_server_effect [OF this run] obtain es where es: "ws_trace s2 = Ws_startup 0x0202 0 # es"
    "\<forall>n. foldl ws_ref_step n es = n" "ws_open (ws_trace s2) = {}"
    by (auto simp: tr ws_open_def)
  have "fm_main fuel w c [prog] start_win =
      Some (-1, ws_print ''input a enter to quit..'' (cp_socket_uninit_ws s2))"
    using run by (simp add: fm_main_def s1_def case_prod_beta) (simp add: INVALID_SOCKET_ws_def)
  then show ?thesis using es by (simp add: cp_socket_uninit_ws_def ws_open_def ws_started_def)
qed

end
