(* ===== verification/Demo_Programs.thy ===== *)
theory Demo_Programs
  imports Cp_Socket Stdio
begin

text \<open>
  Two small programs beside the server: \<^bold>\<open>server/test_server.cpp\<close>, a server that greets one client
  after the other, and \<^bold>\<open>truncate/\<close>, which tries out how a file gets its size by a \<open>fseek\<close> past its
  end, the way \<open>create_cache_file\<close> does it.
\<close>

subsection \<open>The greeting server\<close>

definition greeting :: "byte list" where
  "greeting = bytes_of (''hello , client ! '' @ [CHR 0x0A])"

text \<open>
  \<open>printf(revData)\<close> with no further argument is defined when the text has no directive but \<open>%%\<close>.
\<close>

fun printf_plain :: "byte list \<Rightarrow> bool" where
  "printf_plain [] = True"
| "printf_plain (c # cs) =
     (if c = 0 then True
      else if c = 37 then (case cs of [] \<Rightarrow> False | d # ds \<Rightarrow> d = 37 \<and> printf_plain ds)
      else printf_plain cs)"

text \<open>One iteration of the \<open>while (1)\<close>; \<open>revData\<close> has 255 bytes.\<close>

definition test_server_round :: "os \<Rightarrow> cp_socket_t \<Rightarrow> 'a sys_scheme \<Rightarrow> 'a sys_scheme" where
  "test_server_round os slisten s =
     (let (sClient, remoteAddr, s) = sys_accept os slisten (stack_sockaddr os 0 0 s) s in
      if sClient = INVALID_SOCKET then s
      else
        (let (ret, d, s) = sys_recv os sClient 255 0 s;
             s = (if ret > 0 then
                    (let s = (if ret < 255 then s else fault OutOfBounds s)
                     in if printf_plain d then s else fault FormatArgument s)
                  else s);
             (_, s) = sys_send os sClient greeting 0 s
         in cp_close_socket sClient s))"

text \<open>
  \<open>main\<close>, with \<open>WSAStartup\<close> as a parameter. The result says whether it has returned; if not, the
  state is the one after \<open>n\<close> iterations of the endless loop.
\<close>

definition test_server_main :: "nat \<Rightarrow> (u16 \<Rightarrow> int) \<Rightarrow> os \<Rightarrow> 'a sys_scheme \<Rightarrow> bool \<times> 'a sys_scheme" where
  "test_server_main n wsa_startup os s =
     (if wsa_startup 0x0202 \<noteq> 0 then (True, s)
      else
        (let (slisten, s) = sys_socket os AF_INET SOCK_STREAM IPPROTO_TCP s in
         if slisten = INVALID_SOCKET then (True, s)
         else
           (let sin = \<lparr>sin_family = AF_INET, sin_port = htons 8888, s_addr = INADDR_ANY\<rparr>;
                (_, s) = sys_bind os slisten sin s;
                (ret, s) = sys_listen os slisten 5 s
            in if ret = SOCKET_ERROR then (True, s)
               else (False, (test_server_round os slisten ^^ n) s))))"

text \<open>
  One client of the greeting server: it is read once, greeted and closed. The run is well
  defined exactly when the client sent fewer than 255 bytes and none of them starts a
  directive of \<open>printf\<close>: a client that fills the buffer makes the server write one byte behind
  it, and a percent sign makes it read arguments that are not there.
\<close>

theorem test_server_round_effect:
  assumes "os_accept os (trace s) slisten = Inr (k, a)" "k \<noteq> INVALID_SOCKET"
    and "os_recv os (trace s @ [Ev_accept slisten k]) k 255 0 = Inr d" "length d \<le> 255"
    and "\<forall>h bs. os_send os h k bs 0 = Inr (length bs)"
  shows "trace (test_server_round os slisten s) =
      trace s @ [Ev_accept slisten k, Ev_recv k 255 0 (Some d), Ev_send k greeting 0 (int (length greeting)), Ev_close k]
    \<and> (ub (test_server_round os slisten s) = ub s \<longleftrightarrow> length d < 255 \<and> printf_plain d)"
  using assms
  by (cases "d = []")
    (simp_all add: test_server_round_def sys_accept_def sys_recv_def sys_send_def cp_close_socket_def Let_def)

theorem test_server_round_effect_witness:
  "ub (test_server_round (good_os\<lparr>os_recv := \<lambda>h k n f. Inr (replicate 255 65)\<rparr>) 3 \<lparr>trace = [], errno = E_OK, ub = []\<rparr>) \<noteq> []
    \<and> ub (test_server_round (good_os\<lparr>os_recv := \<lambda>h k n f. Inr [37, 115]\<rparr>) 3 \<lparr>trace = [], errno = E_OK, ub = []\<rparr>) \<noteq> []"
proof -
  let ?os = "\<lambda>d. good_os\<lparr>os_recv := \<lambda>h k n f. Inr d\<rparr>"
  let ?s = "\<lparr>trace = [], errno = E_OK, ub = []\<rparr>"
  have "ub (test_server_round (?os d) 3 ?s) = ub ?s \<longleftrightarrow> length d < 255 \<and> printf_plain d" if "length d \<le> 255" for d
    using that
    by (intro test_server_round_effect [where k = 4, THEN conjunct2]) (simp_all add: good_os_def INVALID_SOCKET_def)
  from this [of "replicate 255 65"] this [of "[37, 115]"] show ?thesis by simp
qed

subsection \<open>A file with a hole\<close>

definition aaa_path :: string where
  "aaa_path = [CHR ''.'', CHR 0x5C] @ ''aaa.txt''"

definition truncate_main :: "os \<Rightarrow> 'a stdio_scheme \<Rightarrow> 'a stdio_scheme" where
  "truncate_main os s =
     (let s = remove_file aaa_path s;
          (f, s) = fopen_wb os aaa_path s;
          c = 0x99;
          sz = 71
      in case f of
           None \<Rightarrow> fault NullDeref s
         | Some f \<Rightarrow>
             (let (_, s) = fseek_set f (sz - 1) s;
                  (_, s) = fwrite os [c] f s;
                  (_, s) = fseek_set f 0 s;
                  (_, s) = fwrite os [c] f s
              in fclose f s))"

text \<open>
  Seeking past the end and writing one byte gives the file its size: it holds the byte, 69 zeros
  and the byte again, and the stream is closed.
\<close>

theorem truncate_makes_hole:
  assumes "disk_ok os"
  shows "files (truncate_main os s) aaa_path = Some (0x99 # replicate 69 0 @ [0x99])
    \<and> streams (truncate_main os s) (next_fp s) = None \<and> ub (truncate_main os s) = ub s"
proof -
  have w: "min (length [c]) (os_fwrite os h p (length [c])) = 1" for h p and c :: byte
    using assms by (simp add: disk_ok_def min_def)
  have "write_at 70 [0x99 :: byte] [] = replicate 70 0 @ [0x99]" by (simp add: write_at_def)
  moreover have "write_at 0 [0x99 :: byte] (replicate 70 0 @ [0x99]) = 0x99 # replicate 69 0 @ [0x99]"
    by (simp add: write_at_def numeral_eq_Suc)
  ultimately show ?thesis
    using assms w
    by (simp add: truncate_main_def fopen_wb_def fseek_set_def fwrite_def fclose_def remove_file_def disk_ok_def Let_def)
qed

theorem truncate_makes_hole_witness:
  "length (the (files (truncate_main good_os
      \<lparr>trace = [], errno = E_OK, ub = [], files = (\<lambda>_. None), streams = (\<lambda>_. None), next_fp = 0\<rparr>) aaa_path)) = 71"
  by (simp add: truncate_makes_hole [OF good_os_ok(1)])

end
