(* ===== verification/Language_Experiments.thy ===== *)
theory Language_Experiments
  imports Stdio
begin

text \<open>
  The small programs beside the server that try out the language: \<^bold>\<open>test_vector\<close> erases from a vector
  while it iterates, \<^bold>\<open>test_shared_ptr\<close> owns an object of a derived class through its base class,
  \<^bold>\<open>test_inherit\<close> calls a virtual function through a map of base pointers, \<^bold>\<open>test_string\<close> builds a
  string from a null pointer. \<open>rand\<close> is a parameter: the sequence of its results.
\<close>

subsection \<open>Erasing while iterating: test_vector\<close>

record vec =
  vs :: "string list"
  calls :: nat
  vec_out :: "string list"

definition vec_rand :: "(nat \<Rightarrow> nat) \<Rightarrow> vec \<Rightarrow> nat \<times> vec" where
  "vec_rand rnd s = (rnd (calls s), s\<lparr>calls := Suc (calls s)\<rparr>)"

fun push_loop :: "nat \<Rightarrow> vec \<Rightarrow> vec" where
  "push_loop 0 s = s"
| "push_loop (Suc r) s = push_loop r (s\<lparr>vs := vs s @ [''hello world''], vec_out := vec_out s @ [''push'']\<rparr>)"

text \<open>\<open>erase\<close> returns the position of the element after the one it removes.\<close>

definition vec_erase :: "nat \<Rightarrow> vec \<Rightarrow> vec" where
  "vec_erase i s = s\<lparr>vs := take i (vs s) @ drop (Suc i) (vs s), vec_out := vec_out s @ [''erase'']\<rparr>"

partial_function (option) erase_loop :: "(nat \<Rightarrow> nat) \<Rightarrow> nat \<Rightarrow> vec \<Rightarrow> vec option" where
  "erase_loop rnd itr s =
     (if itr = length (vs s) then Some s
      else if 100 < length (vs s) then erase_loop rnd itr (vec_erase itr s)
      else
        (let (r, s) = vec_rand rnd s in
         if r mod 2 \<noteq> 0 then erase_loop rnd itr (vec_erase itr s) else erase_loop rnd itr s))"

fun vec_rounds :: "(nat \<Rightarrow> nat) \<Rightarrow> nat \<Rightarrow> vec \<Rightarrow> vec option" where
  "vec_rounds rnd 0 s = Some s"
| "vec_rounds rnd (Suc n) s =
     (let (r, s) = vec_rand rnd s;
          s = push_loop (r mod 10 + 10) s
      in case erase_loop rnd 0 s of None \<Rightarrow> None | Some s \<Rightarrow> vec_rounds rnd n s)"

definition test_vector_main :: "(nat \<Rightarrow> nat) \<Rightarrow> vec option" where
  "test_vector_main rnd = vec_rounds rnd 40 \<lparr>vs = [], calls = 0, vec_out = []\<rparr>"

definition pushes :: "vec \<Rightarrow> nat" where
  "pushes s = count_list (vec_out s) ''push''"

definition erases :: "vec \<Rightarrow> nat" where
  "erases s = count_list (vec_out s) ''erase''"

lemma push_loop_effect:
  "length (vs (push_loop r s)) = length (vs s) + r" "pushes (push_loop r s) = pushes s + r"
  "erases (push_loop r s) = erases s" "calls (push_loop r s) = calls s"
  by (induction r arbitrary: s) (simp_all add: pushes_def erases_def)

lemma vec_erase_effect:
  assumes "vs s \<noteq> []"
  shows "vs (vec_erase 0 s) = tl (vs s)" "pushes (vec_erase 0 s) = pushes s" "erases (vec_erase 0 s) = Suc (erases s)"
    "calls (vec_erase 0 s) = calls s"
  using assms by (simp_all add: vec_erase_def pushes_def erases_def drop_Suc)

text \<open>A generator that keeps giving odd numbers.\<close>

definition lively :: "(nat \<Rightarrow> nat) \<Rightarrow> bool" where
  "lively rnd = (\<forall>n. \<exists>m \<ge> n. odd (rnd m))"

lemma erase_loop_ends:
  assumes "lively rnd"
  shows "\<exists>s'. erase_loop rnd 0 s = Some s' \<and> vs s' = [] \<and> pushes s' = pushes s
    \<and> erases s' = erases s + length (vs s)"
proof (induction "length (vs s)" arbitrary: s)
  case 0
  then show ?case by (subst erase_loop.simps) simp
next
  case (Suc n)
  have ne: "vs s \<noteq> []" using Suc.hyps(2) by auto
  have erased: "\<exists>s'. erase_loop rnd 0 (vec_erase 0 t) = Some s' \<and> vs s' = [] \<and> pushes s' = pushes s
      \<and> erases s' = erases s + length (vs s)" if "vs t = vs s" "vec_out t = vec_out s" for t
    using Suc.hyps(1) [of "vec_erase 0 t"] Suc.hyps(2) vec_erase_effect [of t] ne that
    by (auto simp: pushes_def erases_def)
  obtain m where m: "calls s \<le> m" "odd (rnd m)" using assms by (auto simp: lively_def)
  have "\<exists>s'. erase_loop rnd 0 t = Some s' \<and> vs s' = [] \<and> pushes s' = pushes s \<and> erases s' = erases s + length (vs s)"
    if "vs t = vs s" "vec_out t = vec_out s" "calls t \<le> m" for t
    using that
  proof (induction "m - calls t" arbitrary: t rule: less_induct)
    case less
    let ?t = "t\<lparr>calls := Suc (calls t)\<rparr>"
    have step: "erase_loop rnd 0 t =
        (if 100 < length (vs t) then erase_loop rnd 0 (vec_erase 0 t)
         else if odd (rnd (calls t)) then erase_loop rnd 0 (vec_erase 0 ?t) else erase_loop rnd 0 ?t)"
      using ne less.prems(1) by (subst erase_loop.simps) (auto simp: vec_rand_def odd_iff_mod_2_eq_one)
    consider "100 < length (vs t)" | "\<not> 100 < length (vs t)" "odd (rnd (calls t))"
      | "\<not> 100 < length (vs t)" "even (rnd (calls t))" by blast
    then show ?case
    proof cases
      case 3
      then have "calls t < m" using m(2) less.prems(3) by (cases "calls t = m") auto
      then show ?thesis using less.hyps [of ?t] less.prems 3 unfolding step by simp
    qed (use step less.prems erased [of t] erased [of ?t] in simp_all)
  qed
  from this [of s] m(1) show ?case by simp
qed

lemma vec_rounds_end:
  assumes "lively rnd" "vs s = []"
  shows "\<exists>s'. vec_rounds rnd n s = Some s' \<and> vs s' = []
    \<and> 10 * n \<le> pushes s' - pushes s \<and> pushes s' - pushes s \<le> 19 * n \<and> pushes s \<le> pushes s'
    \<and> erases s' + pushes s = erases s + pushes s'"
  using assms(2)
proof (induction n arbitrary: s)
  case (Suc n)
  define r where "r = rnd (calls s) mod 10 + 10"
  define t where "t = push_loop r (s\<lparr>calls := Suc (calls s)\<rparr>)"
  have r: "10 \<le> r" "r \<le> 19" by (simp_all add: r_def)
  have t: "length (vs t) = r" "pushes t = pushes s + r" "erases t = erases s"
    using push_loop_effect [of r "s\<lparr>calls := Suc (calls s)\<rparr>"] Suc.prems by (simp_all add: t_def pushes_def erases_def)
  obtain u where u: "erase_loop rnd 0 t = Some u" "vs u = []" "pushes u = pushes t" "erases u = erases t + length (vs t)"
    using erase_loop_ends [OF assms(1)] by blast
  obtain s' where s': "vec_rounds rnd n u = Some s'" "vs s' = []" "10 * n \<le> pushes s' - pushes u"
    "pushes s' - pushes u \<le> 19 * n" "pushes u \<le> pushes s'" "erases s' + pushes u = erases u + pushes s'"
    using Suc.IH [OF u(2)] by blast
  have "vec_rounds rnd (Suc n) s = Some s'"
    using u(1) s'(1) by (simp add: vec_rand_def t_def r_def)
  then show ?case using s'(2-6) u(3,4) t r by (intro exI [of _ s']) auto
qed simp

text \<open>
  C40. The vector program ends for every generator that does not stop giving odd numbers: it pushes
  between 400 and 760 strings, erases each of them once, and leaves the vector empty.
\<close>

theorem test_vector_ends:
  assumes "lively rnd"
  shows "\<exists>s'. test_vector_main rnd = Some s' \<and> vs s' = [] \<and> pushes s' = erases s'
    \<and> 400 \<le> pushes s' \<and> pushes s' \<le> 760"
  using vec_rounds_end [OF assms, of "\<lparr>vs = [], calls = 0, vec_out = []\<rparr>" 40]
  by (auto simp: test_vector_main_def pushes_def erases_def)

theorem test_vector_ends_witness:
  "\<exists>s'. test_vector_main id = Some s' \<and> vs s' = [] \<and> pushes s' = erases s'"
proof -
  have "\<exists>m \<ge> n. odd (id m)" for n :: nat by (rule exI [of _ "2 * n + 1"]) simp
  then have "lively id" by (simp add: lively_def)
  from test_vector_ends [OF this] show ?thesis by blast
qed

text \<open>The iterator never advances: with even numbers only the inner loop does not end.\<close>

lemma erase_loop_stuck:
  assumes "\<forall>n. even (rnd n)" "vs s \<noteq> []" "length (vs s) \<le> 100"
  shows "erase_loop rnd 0 s = None"
proof -
  have False if "erase_loop rnd i s = Some s'" "i = 0" for i s'
    using assms that(2)
  proof (induction rule: erase_loop.raw_induct [OF _ that(1)])
    case (1 f rnd i s s')
    then have "f rnd i (s\<lparr>calls := Suc (calls s)\<rparr>) = Some s'"
      by (simp add: vec_rand_def even_iff_mod_2_eq_zero)
    from "1.IH" [OF this] "1.prems" show ?case by simp
  qed
  then show ?thesis by (metis option.exhaust)
qed

lemma test_vector_diverges:
  assumes "\<forall>n. even (rnd n)"
  shows "test_vector_main rnd = None"
proof -
  let ?s = "push_loop (rnd 0 mod 10 + 10) \<lparr>vs = [], calls = Suc 0, vec_out = []\<rparr>"
  have "length (vs ?s) = rnd 0 mod 10 + 10" using push_loop_effect(1) by simp
  then have "vs ?s \<noteq> []" "length (vs ?s) \<le> 100" using mod_less_divisor [of 10 "rnd 0"] by (auto simp del: mod_less_divisor)
  from erase_loop_stuck [OF assms this] show ?thesis
    using vec_rounds.simps(2) [of rnd 39] by (simp add: test_vector_main_def vec_rand_def)
qed

subsection \<open>Ownership through the base class: test_shared_ptr\<close>

text \<open>
  The objects by address with their dynamic class, and the control blocks of the shared pointers:
  the object, the class the pointer was created with, and the number of owners. \<open>A\<close> has no virtual
  destructor.
\<close>

datatype sp_class = Cls_A | Cls_B

record sp_world =
  sp_objs :: "nat \<Rightarrow> sp_class option"
  sp_blocks :: "nat \<Rightarrow> (nat \<times> sp_class \<times> nat) option"
  sp_next :: nat
  sp_ub :: "fault list"
  sp_out :: "string list"

definition sp_line :: "string \<Rightarrow> sp_world \<Rightarrow> sp_world" where
  "sp_line l s = s\<lparr>sp_out := sp_out s @ [l]\<rparr>"

definition A_ctor0 :: "sp_world \<Rightarrow> sp_world" where
  "A_ctor0 s = sp_line ''A'' s"

definition A_ctor :: "nat \<Rightarrow> sp_world \<Rightarrow> sp_world" where
  "A_ctor b s = sp_line (''A('' @ dec_digits b @ '')'') s"

definition B_ctor0 :: "sp_world \<Rightarrow> sp_world" where
  "B_ctor0 s = sp_line ''B'' (A_ctor0 s)"

definition B_ctor :: "nat \<Rightarrow> sp_world \<Rightarrow> sp_world" where
  "B_ctor b s = sp_line (''B('' @ dec_digits b @ '')'') (A_ctor b s)"

definition new_B :: "nat \<Rightarrow> sp_world \<Rightarrow> nat \<times> sp_world" where
  "new_B b s =
     (sp_next s, B_ctor b (s\<lparr>sp_objs := (sp_objs s)(sp_next s \<mapsto> Cls_B), sp_next := Suc (sp_next s)\<rparr>))"

text \<open>\<open>delete\<close> through a pointer of static class \<open>c\<close>.\<close>

definition sp_delete :: "sp_class \<Rightarrow> nat \<Rightarrow> sp_world \<Rightarrow> sp_world" where
  "sp_delete c p s =
     (case sp_objs s p of
        None \<Rightarrow> s\<lparr>sp_ub := sp_ub s @ [UseAfterFree p]\<rparr>
      | Some d \<Rightarrow>
          (let s = (if d = c then s else s\<lparr>sp_ub := sp_ub s @ [WrongDelete p]\<rparr>)
           in s\<lparr>sp_objs := (sp_objs s)(p := None)\<rparr>))"

definition shared_ptr_ctor :: "sp_class \<Rightarrow> nat \<Rightarrow> sp_world \<Rightarrow> nat \<times> sp_world" where
  "shared_ptr_ctor c p s =
     (sp_next s, s\<lparr>sp_blocks := (sp_blocks s)(sp_next s \<mapsto> (p, c, 1)), sp_next := Suc (sp_next s)\<rparr>)"

definition shared_ptr_copy :: "nat \<Rightarrow> sp_world \<Rightarrow> sp_world" where
  "shared_ptr_copy k s =
     (case sp_blocks s k of
        None \<Rightarrow> s
      | Some (p, c, n) \<Rightarrow> s\<lparr>sp_blocks := (sp_blocks s)(k \<mapsto> (p, c, Suc n))\<rparr>)"

definition shared_ptr_dtor :: "nat \<Rightarrow> sp_world \<Rightarrow> sp_world" where
  "shared_ptr_dtor k s =
     (case sp_blocks s k of
        None \<Rightarrow> s
      | Some (p, c, n) \<Rightarrow>
          if n \<le> 1 then sp_delete c p (s\<lparr>sp_blocks := (sp_blocks s)(k := None)\<rparr>)
          else s\<lparr>sp_blocks := (sp_blocks s)(k \<mapsto> (p, c, n - 1))\<rparr>)"

definition B_assign :: "nat \<Rightarrow> sp_world \<Rightarrow> sp_world" where
  "B_assign this s = (let (ptr, s) = shared_ptr_ctor Cls_B this s in shared_ptr_dtor ptr s)"

definition dashes :: string where
  "dashes = ''-----------------------''"

text \<open>\<open>ptr\<close> is destroyed before the map, which is declared first.\<close>

definition sp_main1 :: "sp_world \<Rightarrow> sp_world" where
  "sp_main1 s =
     (let s = sp_line dashes s;
          (b1, s) = new_B 3 s;
          s = sp_line dashes s;
          (ptr, s) = shared_ptr_ctor Cls_A b1 s;
          s = sp_line dashes s;
          m = [2 :: int \<mapsto> ptr];
          s = shared_ptr_copy ptr s;
          s = sp_line dashes s;
          s = shared_ptr_dtor ptr s
      in case m 2 of None \<Rightarrow> s | Some k \<Rightarrow> shared_ptr_dtor k s)"

definition sp_main :: "sp_world \<Rightarrow> sp_world" where
  "sp_main s = sp_line dashes (sp_main1 (sp_line dashes s))"

definition sp_start :: sp_world where
  "sp_start = \<lparr>sp_objs = (\<lambda>_. None), sp_blocks = (\<lambda>_. None), sp_next = 0, sp_ub = [], sp_out = []\<rparr>"

text \<open>
  A shared pointer made from an object that is not owned yet owns it alone: \<open>n\<close> copies and as many
  destructions leave the object alive, and the last destruction deletes it, through the class
  the first pointer was made with.
\<close>

lemma shared_ptr_counts:
  assumes "sp_blocks s k = Some (p, c, m)"
  shows "(shared_ptr_copy k ^^ n) s = s\<lparr>sp_blocks := (sp_blocks s)(k \<mapsto> (p, c, m + n))\<rparr>"
    and "n < m \<Longrightarrow> (shared_ptr_dtor k ^^ n) s = s\<lparr>sp_blocks := (sp_blocks s)(k \<mapsto> (p, c, m - n))\<rparr>"
proof -
  show "(shared_ptr_copy k ^^ n) s = s\<lparr>sp_blocks := (sp_blocks s)(k \<mapsto> (p, c, m + n))\<rparr>"
    using assms by (induction n) (simp_all add: shared_ptr_copy_def fun_upd_idem)
  show "n < m \<Longrightarrow> (shared_ptr_dtor k ^^ n) s = s\<lparr>sp_blocks := (sp_blocks s)(k \<mapsto> (p, c, m - n))\<rparr>"
    using assms by (induction n) (auto simp: shared_ptr_dtor_def fun_upd_idem Suc_diff_Suc)
qed

lemma shared_ptr_last_owner:
  assumes "sp_blocks s k = None" "k = sp_next s" "sp_objs s p = Some d"
  shows "(shared_ptr_dtor k ^^ Suc n) ((shared_ptr_copy k ^^ n) (snd (shared_ptr_ctor c p s))) =
    s\<lparr>sp_objs := (sp_objs s)(p := None), sp_next := Suc k,
      sp_ub := sp_ub s @ (if d = c then [] else [WrongDelete p])\<rparr>"
proof -
  let ?s = "snd (shared_ptr_ctor c p s)"
  have b: "sp_blocks ?s k = Some (p, c, 1)" using assms(2) by (simp add: shared_ptr_ctor_def)
  define t where "t = (shared_ptr_copy k ^^ n) ?s"
  have t: "t = ?s\<lparr>sp_blocks := (sp_blocks ?s)(k \<mapsto> (p, c, 1 + n))\<rparr>"
    unfolding t_def by (rule shared_ptr_counts(1) [OF b])
  have bt: "sp_blocks t k = Some (p, c, 1 + n)" by (simp add: t)
  have "(shared_ptr_dtor k ^^ n) t = t\<lparr>sp_blocks := (sp_blocks t)(k \<mapsto> (p, c, 1 + n - n))\<rparr>"
    by (rule shared_ptr_counts(2) [OF bt]) simp
  then have "(shared_ptr_dtor k ^^ Suc n) t = shared_ptr_dtor k (t\<lparr>sp_blocks := (sp_blocks t)(k \<mapsto> (p, c, 1))\<rparr>)"
    by simp
  also have "\<dots> = s\<lparr>sp_objs := (sp_objs s)(p := None), sp_next := Suc k,
      sp_ub := sp_ub s @ (if d = c then [] else [WrongDelete p])\<rparr>"
    using assms by (simp add: t shared_ptr_ctor_def shared_ptr_dtor_def sp_delete_def Let_def fun_upd_idem)
  finally show ?thesis by (simp only: t_def)
qed

text \<open>
  The ownership program prints its six separators around the constructors of base and derived
  class and frees every object exactly once; but the object of the derived class is deleted
  through the base class, which has no virtual destructor: the program is undefined.
\<close>

theorem shared_ptr_main_effect:
  "sp_out (sp_main sp_start) = [dashes, dashes, ''A(3)'', ''B(3)'', dashes, dashes, dashes, dashes]
    \<and> sp_ub (sp_main sp_start) = [WrongDelete 0]
    \<and> (\<forall>p. sp_objs (sp_main sp_start) p = None \<and> sp_blocks (sp_main sp_start) p = None)"
proof -
  have d: "dec_digits 3 = ''3''" by (simp add: dec_digits.simps) (simp add: char_of_def bit_0)
  have "sp_main sp_start = \<lparr>sp_objs = (\<lambda>_. None), sp_blocks = (\<lambda>_. None), sp_next = 2, sp_ub = [WrongDelete 0],
      sp_out = [dashes, dashes, ''A(3)'', ''B(3)'', dashes, dashes, dashes, dashes]\<rparr>"
    by (simp add: sp_main_def sp_main1_def sp_start_def new_B_def B_ctor_def A_ctor_def d sp_line_def shared_ptr_ctor_def
        shared_ptr_copy_def shared_ptr_dtor_def sp_delete_def Let_def fun_upd_idem)
  then show ?thesis by simp
qed

text \<open>\<open>assign\<close> makes a second, independent owner: the object is deleted under the feet of the first.\<close>

lemma assign_deletes_twice:
  assumes "sp_objs s p = Some Cls_B" "sp_blocks s k = Some (p, c, 1)" "k \<noteq> sp_next s"
  shows "sp_ub (shared_ptr_dtor k (B_assign p s)) = sp_ub s @ [UseAfterFree p]"
  using assms by (simp add: B_assign_def shared_ptr_ctor_def shared_ptr_dtor_def sp_delete_def Let_def)

subsection \<open>Virtual functions: test_inherit\<close>

datatype inh_class = Inh_A | Inh_B

definition A_print :: string where "A_print = ''I'm A''"
definition B_print :: string where "B_print = ''I'm B''"

text \<open>The call goes by the class of the object, not of the pointer.\<close>

fun virtual_print :: "inh_class \<Rightarrow> string" where
  "virtual_print Inh_A = A_print"
| "virtual_print Inh_B = B_print"

definition test_inherit_main :: "string option" where
  "test_inherit_main =
     (let b1 = Inh_B;
          m = [1 :: int \<mapsto> b1]
      in map_option virtual_print (m 1))"

lemma test_inherit_prints: "test_inherit_main = Some ''I'm B''"
  by (simp add: test_inherit_main_def B_print_def)

subsection \<open>A string from a null pointer: test_string\<close>

text \<open>\<open>std::string(const char *)\<close> reads its argument up to the terminator.\<close>

definition string_ctor :: "string option \<Rightarrow> fault + string" where
  "string_ctor p = (case p of None \<Rightarrow> Inl NullDeref | Some s \<Rightarrow> Inr (takeWhile (\<lambda>c. c \<noteq> char_of (0 :: nat)) s))"

definition test_string_main :: "fault + string" where
  "test_string_main = (case string_ctor None of Inl f \<Rightarrow> Inl f | Inr s \<Rightarrow> Inr (s @ [char_of (10 :: nat)]))"

lemma test_string_undefined: "test_string_main = Inl NullDeref"
  by (simp add: test_string_main_def string_ctor_def)

end
