(* ===== verification/Spec2Isabelle.thy ===== *)
theory Spec2Isabelle
  imports Server_Failures Server_Service Test_Client Cache_Part_Windows First_Main Demo_Programs Language_Experiments
begin

text \<open>
  \<^bold>\<open>Verification of the document ferry server.\<close>

  The program (\<^verbatim>\<open>src/doc_ferry_server\<close>) is a TCP server in one thread: \<open>main\<close> constructs a \<open>TCPServer\<close> on
  port 7890 and runs \<open>loop\<close>, which calls \<open>do_select\<close> until the map of handlers is empty. Each entry
  of that map owns a \<open>BaseSocket\<close>; the listening one (\<open>TCPServerImpl\<close>) accepts connections into
  \<open>VirusHandler\<close> objects, and these read requests (a header with id and length, then the body),
  keep every body in a cache, and answer with a header and a state. Beside the server there are
  a client (\<^verbatim>\<open>client\<close>), a greeting server (\<^verbatim>\<open>server\<close>) and experiments, one of them (\<^verbatim>\<open>socket_exception\<close>)
  with a copy of the socket wrappers.

  \<^bold>\<open>Theories and the code they model.\<close>
  \<^item> \<open>Ferry_Prelude\<close>: bytes, words for \<open>uint16_t\<close>, \<open>uint32_t\<close> and \<open>size_t\<close>, the conversions between C
    integer types, byte order, blocks of memory, and the list of undefined behaviours a run can
    reach. The collection \<open>frame_simps\<close> holds what an operation leaves unchanged.
  \<^item> \<open>Os_Env\<close>: the operating system, as a record \<open>os\<close> of functions from the history of all calls and the
    arguments of a call to its result. Every definition that makes a call takes it as an
    argument; the state \<open>sys\<close> keeps the history, \<open>errno\<close> and the undefined behaviours.
  \<^item> \<open>Stdio\<close>: the \<open>FILE\<close> functions the caches use, over a file system in the state.
  \<^item> \<open>Cache_Part\<close> (\<^verbatim>\<open>cache_part.h\<close>, \<^verbatim>\<open>cache_part.cpp\<close>): \<open>create_cache\<close>, \<open>cache_push\<close>, \<open>cache_pop\<close>, \<open>cache_full\<close>,
    \<open>leave_cache\<close>, \<open>delete_cache\<close>; \<open>Cache_Part_Windows\<close> its clock and file names on Windows.
  \<^item> \<open>Interface\<close> (\<^verbatim>\<open>interface.h\<close>): header, states, and their bytes on the wire.
  \<^item> \<open>Hv\<close> (\<^verbatim>\<open>HV.h\<close>, \<^verbatim>\<open>hv.cpp\<close>): the unit \<open>HV\<close> that reassembles a request; the two overloads of \<open>write\<close> are
    \<open>HV_write\<close> and \<open>HV_write_message\<close>.
  \<^item> \<open>Virus_Session\<close> and \<open>Virus_Handler\<close> (\<^verbatim>\<open>virus_handler.h\<close>, \<^verbatim>\<open>virus_handler.cpp\<close>): the request loop on the
    state of one connection, and the handler around it.
  \<^item> \<open>Cp_Socket\<close> (\<^verbatim>\<open>cp_socket.h\<close>, \<^verbatim>\<open>cp_socket.cpp\<close>): the system calls and the wrappers \<open>cp_...\<close> in their Linux
    branches; \<open>Cp_Socket_Windows\<close>: the Windows branches with logic of their own, and the string
    conversions, which \<^verbatim>\<open>char_2_wchar\<close> repeats; \<open>Winsock\<close> (\<^verbatim>\<open>socket_exception\<close>): every wrapper of the Windows
    build over a parameter for Winsock, the static object \<open>Startup\<close> of \<^verbatim>\<open>base_socket.cpp\<close>, and the experiment
    that calls the wrappers; \<open>Winsock_Select\<close>: \<open>do_select\<close> in its Windows build.
  \<^item> \<open>Ss_Map\<close>: \<open>std::map\<close> as a sorted association list.
  \<^item> \<open>Base_Socket\<close> (\<^verbatim>\<open>base_socket.h\<close>, \<^verbatim>\<open>base_socket.cpp\<close>): the objects, the maps that own them, and all methods
    of \<open>BaseSocket\<close>; \<open>Socket_Handler\<close> (\<^verbatim>\<open>socket_handler.cpp\<close>) and \<open>Tcp_Server\<close> (\<^verbatim>\<open>tcp_server.cpp\<close>) the other
    classes. A method that calls a virtual method takes it as an argument.
  \<^item> \<open>Event_Loop\<close> (\<^verbatim>\<open>base_socket.cpp\<close> from line 432, \<^verbatim>\<open>main.cpp\<close>): the virtual dispatch, \<open>do_select\<close>, \<open>loop\<close>, \<open>main\<close>.
  \<^item> \<open>First_Main\<close> (\<^verbatim>\<open>main.cpp\<close> from line 25): the first version of the server, kept under \<^verbatim>\<open>#if 0\<close>, in its
    Windows build, over a parameter for the class of handlers it was written for.
  \<^item> \<open>Test_Client\<close> (\<^verbatim>\<open>client/test_client.cpp\<close>) and \<open>Demo_Programs\<close> (\<^verbatim>\<open>server\<close>, \<^verbatim>\<open>truncate\<close>): the programs beside the
    server; \<open>Language_Experiments\<close> (\<^verbatim>\<open>test_vector\<close>, \<^verbatim>\<open>test_shared_ptr\<close>, \<^verbatim>\<open>test_inherit\<close>, \<^verbatim>\<open>test_string\<close>): the
    programs that try out the language.
  \<^item> \<open>Event_Dispatch\<close>, \<open>Client_Service\<close>, \<open>Store_Isolation\<close>, \<open>Served_Clients\<close>, \<open>Server_Service\<close> and \<open>Server_Failures\<close>
    hold no code of their own: they are about the server as a whole.

  \<^bold>\<open>State.\<close> Each layer extends the state of the one below: \<open>sys\<close>, \<open>stdio\<close> with files and streams,
  \<open>cstate\<close> with the caches, \<open>world\<close> with the objects and maps. Pointers are addresses; a freed
  cache is \<open>None\<close> and a deleted object is not \<open>o_alive\<close>. An operation that C++ leaves undefined
  appends to \<open>ub\<close>, and the model goes on from there in the way its text says; a theorem that
  shows \<open>ub s' = ub s\<close> shows that nothing undefined happened. After the write outside the header
  of a request (\<open>memcpy_header\<close>) the request and the queue behind it hold what the environment
  says (\<open>os_wild\<close>), so that no theorem depends on where the compiler places the members; after a
  use of a deleted object the model reads its last contents.

  \<^bold>\<open>Interfaces.\<close> The locales \<open>byte_sink\<close>, \<open>eager_sink\<close> and \<open>byte_fifo\<close> say what a store of bytes promises;
  memory and file caches interpret them, and the session rests on their facts. \<open>ordered_map\<close> is
  the contract of the maps, \<open>event_handler\<close> what \<open>do_select\<close> relies on in the three event methods, and
  \<open>service_event\<close> what it needs of them to serve every client. \<open>chunked_sender\<close> is the loop of
  \<open>cp_send_all\<close>, interpreted on both platforms.

  \<^bold>\<open>What is shown.\<close>
  \<^item> \<open>Server_Service\<close>: the server from its construction on, with any number of clients. The
    specification of a connection is its conversation, the buffers received and the bytes sent
    since the socket was accepted; after every round each client has been sent the answers to a
    prefix of its requests and has the others queued, every round ends, and with sockets that
    can be written to it answers whatever was complete before. \<open>Store_Isolation\<close> shows that
    sessions do not disturb each other in the heap and the directory they share, \<open>Served_Clients\<close>
    carries the invariant through the events and the rounds. The hypotheses are those of
    \<open>environment_ok\<close>: the disk and the allocator do not fail, the kernel takes what is sent and
    accepts into unused descriptors below \<open>FD_SETSIZE\<close>, the clock does not show a time twice, and
    the clients keep to the protocol: they stay connected, send no body of fewer than 1024 bytes
    and split no header. \<open>busy_os\<close> is an environment that meets them. What happens otherwise is
    the subject of the theorems on failures.
  \<^item> The exchange of client and server (below), and in \<open>Client_Service\<close> that a client's requests of
    at least 1024 bytes are each answered once and in order, that connections are accepted into
    fresh handlers, and what happens when a client hangs up.
  \<^item> \<open>Virus_Session\<close>: the request loop refines the abstract receiver \<open>rx_parse\<close>; for arbitrary bytes
    every read ends without undefined behaviour until a buffer ends inside a header, and the write
    that continues that header is the first thing undefined.
  \<^item> \<open>Event_Dispatch\<close>: the invariant of the maps (\<open>reg_ok\<close>) over everything the server can do, from
    construction through any number of rounds; that the budget \<open>retv\<close> of the dispatch loop never
    leaves out a ready socket.
  \<^item> \<open>Server_Failures\<close>: failing sends, full sockets, no socket, large descriptors, an idle network.
  \<^item> \<open>Winsock_Select\<close>: what \<open>select\<close> is asked for on Windows, where a set holds 64 sockets; \<open>First_Main\<close>: that
    \<open>create_server\<close> leaks no socket, and that its dispatch loop, which also counts, serves what a loop
    over all handlers serves.
  \<^item> \<open>Cache_Part\<close>, \<open>Hv\<close>, \<open>Cp_Socket\<close>, \<open>Cp_Socket_Windows\<close>, \<open>Winsock\<close>, \<open>Test_Client\<close>, \<open>Demo_Programs\<close>,
    \<open>Language_Experiments\<close>: the behaviour of the single components, on every branch that returns
    a different result.

  \<^bold>\<open>Fuel.\<close> The loops of \<open>handle_read\<close> and \<open>handle_write\<close>, \<open>loop\<close> without a count, \<open>fm_loop\<close> and \<open>loop_send_recv\<close> can run
  forever, so they take fuel, and \<open>None\<close> is a run longer than the fuel. Termination is proved with
  bounds: twice the length of the buffer and 2 for \<open>handle_read\<close> (a step takes a byte or completes
  a request), more than the bytes queued for \<open>handle_write\<close>; where a loop does not end it is
  proved \<open>None\<close> for every fuel. A run that ends does not depend on the fuel (\<open>do_select_fuel\<close>), so that
  the rounds of \<open>service\<close> may have any. \<open>cp_clear_recv_buffer\<close> and the loop of \<^verbatim>\<open>test_vector\<close> are partial
  functions for the same reason; \<open>cp_send_all\<close> ends by its measure.

  \<^bold>\<open>Bounds.\<close> A name of a cache file has room for \<open>10 ^ 26\<close> readings of the clock (\<open>LIFETIME\<close>). A read event
  reads it at most 70000 times, a round has at most 1024 descriptors, so that \<open>10 ^ 17\<close> rounds stay
  within it; at a microsecond a round that is three thousand years.

  \<^bold>\<open>Not modelled.\<close> \<open>debug_print\<close> and the console output of the server; the waits for a key; the failure
  of \<open>new\<close>; the unused members \<open>BaseSocket::state\<close>, \<open>send_buf\<close>, \<open>send_capacity\<close>; the methods of \<open>BaseSocket\<close> over
  Winsock, which differ from the Linux ones in the error codes they compare; the Linux branches
  of \<open>First_Main\<close>, which do not type-check, and those of \<^verbatim>\<open>socket_exception\<close>, a copy of the ones in
  \<open>Cp_Socket\<close>; \<^verbatim>\<open>test_array\<close>, whose \<open>main\<close> is empty.
\<close>

section \<open>Client and server\<close>

text \<open>
  The client's side of the network once the server has answered: the first \<open>recv\<close>, which asks for
  a header, gets the first eight bytes of the reply, the second one the rest.
\<close>

definition replying :: "os \<Rightarrow> byte list \<Rightarrow> os" where
  "replying os reply =
     os\<lparr>os_recv := \<lambda>h k n f. Inr (if n = 8 then take 8 reply else drop 8 reply)\<rparr>"

lemma replying_recv:
  "sys_recv (replying os (response_wire i st)) k 8 0 s =
     (8, take 8 (response_wire i st), emit (Ev_recv k 8 0 (Some (take 8 (response_wire i st)))) s)"
  "sys_recv (replying os (response_wire i st)) k 4 0 s =
     (4, drop 8 (response_wire i st), emit (Ev_recv k 4 0 (Some (drop 8 (response_wire i st)))) s)"
proof -
  have "length (response_wire i st) = 12" by (simp add: response_wire_def)
  then show
    "sys_recv (replying os (response_wire i st)) k 8 0 s =
       (8, take 8 (response_wire i st), emit (Ev_recv k 8 0 (Some (take 8 (response_wire i st)))) s)"
    "sys_recv (replying os (response_wire i st)) k 4 0 s =
       (4, drop 8 (response_wire i st), emit (Ev_recv k 4 0 (Some (drop 8 (response_wire i st)))) s)"
    by (simp_all add: sys_recv_def replying_def Let_def)
qed

text \<open>
  C4. The whole exchange: \<open>fake_client_send_file\<close> sends a file of at least 1024 bytes; the network
  delivers its bytes to the server in buffers of which none ends inside the header. The
  server's events end without undefined behaviour, and from the bytes it sends back the
  client prints id 123456, length 4 and error code 0.
\<close>

theorem client_server_exchange:
  assumes client: "client_net cos ck" "ck \<noteq> INVALID_SOCKET" "1024 \<le> length data" "length data < 2 ^ 31"
      "sent_on ck (trace c) = []"
    and server: "client_ok p k Rx_idle s" "resp (o_session (objs s p)) = []"
      "\<forall>e \<in> set (es @ [Flush os]). io_ok k e"
    and net: "concat (received es) = sent_on ck (trace (snd (fake_client_send_file cos (Some data) c)))"
      "rx_run Rx_idle (received es) \<noteq> None"
    and fuel: "65535 < fuel"
  shows "\<exists>s' reply. serve fuel p (es @ [Flush os]) s = Some s' \<and> ub s' = ub s
    \<and> sent_on k (trace s') = sent_on k (trace s) @ reply
    \<and> fst (client_recv_response (replying cos reply) ck (t :: cstate)) = Response 123456 4 0"
proof -
  have ne: "data \<noteq> []" using client(3) by auto
  obtain res c' where cl: "fake_client_send_file cos (Some data) c = (res, c')"
    "sent_on ck (trace c') = message 123456 data"
    using client_sends [OF client(1,2) ne client(4), of c] client(5) by auto
  have st: "concat (received es) = concat (map (\<lambda>(i, body). message i body) [(123456, data)])"
    using net(1) cl by simp
  obtain s' where s': "serve fuel p (es @ [Flush os]) s = Some s'" "ub s' = ub s"
    "sent_on k (trace s') = sent_on k (trace s) @ response_wire 123456 OK"
    using serve_answers [OF server st net(2) _ fuel] client(3,4) fuel
    by (auto simp: response_wire_def sizeof_State_def)
  moreover have "fst (client_recv_response (replying cos (response_wire 123456 OK)) ck t) = Response 123456 4 0"
    using ntohl_state_code [of OK] by (simp add: client_decodes [OF replying_recv])
  ultimately show ?thesis by blast
qed

theorem client_server_exchange_witness:
  "\<exists>s' reply. serve 70000 0 [Recv (sending_os (message 123456 (replicate 1024 0))) (message 123456 (replicate 1024 0)),
      Flush good_os] (world_with some_client) = Some s' \<and> ub s' = [] \<and> sent_on 5 (trace s') = reply
    \<and> fst (client_recv_response (replying good_os reply) 3 start_cstate) = Response 123456 4 0"
proof -
  let ?d = "replicate 1024 (0 :: byte)"
  let ?m = "message 123456 ?d"
  have net: "client_net good_os 3" "(3 :: cp_socket_t) \<noteq> INVALID_SOCKET"
    by (simp_all add: client_net_def good_os_def INVALID_SOCKET_def)
  have m: "length ?m = 1032" by (simp add: message_def)
  then have ne: "?m \<noteq> []" by (metis list.size(3) zero_neq_numeral)
  have io: "\<forall>e \<in> set ([Recv (sending_os ?m) ?m] @ [Flush good_os]). io_ok 5 e"
    using sending_os_ok [of ?m] m ne by (simp add: send_ok_def good_os_def)
  have res: "resp (o_session (objs (world_with some_client) 0)) = []"
    by (simp add: world_with_def some_client_def blank_obj_def blank_session_def)
  have tr: "sent_on 3 (trace start_cstate) = []" by (simp add: start_cstate_def)
  have sent: "?m = sent_on 3 (trace (snd (fake_client_send_file good_os (Some ?d) start_cstate)))"
    using client_sends [OF net, of ?d start_cstate] tr by auto
  have run: "rx_run Rx_idle (received [Recv (sending_os ?m) ?m]) \<noteq> None"
    using rx_parse_message [of ?d 123456] by simp
  have "concat (received [Recv (sending_os ?m) ?m]) = sent_on 3 (trace (snd (fake_client_send_file good_os (Some ?d) start_cstate)))"
    using sent by simp
  from client_server_exchange [OF net _ _ tr some_client_ok(1) res io this run, of 70000 start_cstate] show ?thesis
    by (auto simp: world_with_def start_world_def)
qed

end
